(* ===== verification/Prelude.thy ===== *)
theory Prelude
  imports Main "HOL-Library.Word" "HOL-Library.Code_Target_Numeral"
begin

text \<open>
  What every component of the development shares: text as the code sees it, the collections
  of simplification rules, results that may be a panic, and the two list idioms of the client
  (\<open>iter().find(..)\<close> and \<open>iter_mut().find(..)\<close>).

  A Rust \<open>String\<close> is a sequence of Unicode scalar values. It is modelled as a list of code
  points, so characters beyond ASCII count once, as \<open>chars()\<close> counts them; \<open>lit\<close> turns an
  ASCII literal of HOL into such a list.
\<close>

named_theorems find_simps \<open>the first matching element and its update in place\<close>
named_theorems res_simps \<open>results that may be a panic\<close>

section \<open>Text\<close>

type_synonym rchar = nat
type_synonym ustring = "rchar list"

definition lit :: "string \<Rightarrow> ustring" where
  "lit s = map of_char s"

lemma lit_eq_iff [simp]: "lit s = lit t \<longleftrightarrow> s = t"
  unfolding lit_def by (rule inj_map_eq_map) (simp add: inj_on_def)

lemma lit_Nil [simp]: "lit [] = []"
  by (simp add: lit_def)

lemma lit_eq_Nil [simp]: "lit s = [] \<longleftrightarrow> s = []" and Nil_eq_lit [simp]: "[] = lit s \<longleftrightarrow> s = []"
  by (auto simp: lit_def)

lemma length_lit [simp]: "length (lit s) = length s"
  by (simp add: lit_def)

section \<open>Results: a value or a panic\<close>

text \<open>
  The integer arithmetic of the client is Rust's: a build with overflow checks (the debug
  profile) panics when an addition does not fit, a build without them (the release profile)
  wraps around. Both are modelled; the profile is an argument.
\<close>

datatype profile = Debug | Release

text \<open>
  The two operations of the client that can panic: an addition and \<open>unwrap\<close>. The indices of
  \<open>room_initials\<close> are patterns of a case distinction on the length here, and the signals of the
  framework are read and written one at a time.
\<close>

datatype panic = AddOverflow | UnwrapNone

type_synonym 'a result = "panic + 'a"

definition unwrap :: "'a option \<Rightarrow> 'a result" where
  "unwrap x = (case x of None \<Rightarrow> Inl UnwrapNone | Some y \<Rightarrow> Inr y)"

definition and_then :: "'a result \<Rightarrow> ('a \<Rightarrow> 'b result) \<Rightarrow> 'b result" where
  "and_then r f = (case r of Inl e \<Rightarrow> Inl e | Inr x \<Rightarrow> f x)"

lemma and_then_simps [simp]:
  "and_then (Inl e) f = Inl e"
  "and_then (Inr x) f = f x"
  by (simp_all add: and_then_def)

lemma and_then_Inr [res_simps]:
  "and_then r f = Inr y \<longleftrightarrow> (\<exists>x. r = Inr x \<and> f x = Inr y)"
  by (cases r) auto

lemma and_then_Inl [res_simps]:
  "and_then r f = Inl e \<longleftrightarrow> r = Inl e \<or> (\<exists>x. r = Inr x \<and> f x = Inl e)"
  by (cases r) auto

definition add_arith :: "profile \<Rightarrow> 'a::len word \<Rightarrow> 'a word \<Rightarrow> 'a word result" where
  "add_arith p a b =
     (if p = Debug \<and> 2 ^ LENGTH('a) \<le> unat a + unat b then Inl AddOverflow else Inr (a + b))"

lemma add_arith_value: "add_arith p a b = Inr c \<Longrightarrow> c = a + b"
  by (auto simp: add_arith_def split: if_splits)

lemma add_arith_fits:
  fixes a b :: "'a::len word"
  shows "unat a + unat b < 2 ^ LENGTH('a) \<Longrightarrow> add_arith p a b = Inr (a + b)"
  by (auto simp: add_arith_def)

lemma add_arith_Debug:
  fixes a b :: "'a::len word"
  shows "add_arith Debug a b = Inr c \<Longrightarrow> unat c = unat a + unat b"
  by (auto simp: add_arith_def not_le simp flip: unat_add_lem split: if_splits)

lemma add_arith_Release [simp]: "add_arith Release a b = Inr (a + b)"
  by (simp add: add_arith_def)

text \<open>Incrementing: with overflow checks, or below the largest value, the result is the successor.\<close>

lemma add_arith_one:
  fixes a :: "'a::len word"
  assumes "add_arith p a 1 = Inr c" and "p = Debug \<or> a \<noteq> - 1"
  shows "unat c = Suc (unat a)"
proof (cases "a = - 1")
  case True
  with assms have "add_arith Debug a 1 = Inr c" by simp
  then have "unat c = unat a + unat (1 :: 'a word)" by (rule add_arith_Debug)
  then show ?thesis by simp
next
  case False
  then have "1 + a \<noteq> 0" by (simp add: eq_neg_iff_add_eq_0 add.commute)
  then have "unat (1 + a) = Suc (unat a)" by (rule unatSuc)
  with add_arith_value [OF assms(1)] show ?thesis by (simp add: add.commute)
qed

lemma add_arith_one_less:
  fixes a :: "'a::len word"
  shows "add_arith p a 1 = Inr c \<Longrightarrow> p = Debug \<or> a \<noteq> - 1 \<Longrightarrow> a < c"
  using add_arith_one [of p a c] by (simp add: word_less_nat_alt)

lemma unat_below_max: "unat a + 1 < 2 ^ LENGTH('a) \<Longrightarrow> a \<noteq> (- 1 :: 'a::len word)"
proof
  assume lt: "unat a + 1 < 2 ^ LENGTH('a)" and "a = - 1"
  then have "unat a + unat (1 :: 'a word) = unat (a + 1)"
    using unat_add_lem [of a 1] by simp
  with \<open>a = - 1\<close> show False by simp
qed

lemma add_arith_one_defined:
  fixes a :: "'a::len word"
  assumes "p = Release \<or> a \<noteq> - 1"
  shows "\<exists>c. add_arith p a 1 = Inr c"
proof (cases "a = - 1")
  case False
  then have "1 + a \<noteq> 0" by (simp add: eq_neg_iff_add_eq_0 add.commute)
  then have "unat (1 + a) = Suc (unat a)" by (rule unatSuc)
  then have "Suc (unat a) < 2 ^ LENGTH('a)" by (metis unsigned_less)
  then show ?thesis by (simp add: add_arith_def)
qed (use assms in simp)

section \<open>Options\<close>

text \<open>\<open>Option::unwrap_or\<close> (and \<open>unwrap_or_else\<close>) and \<open>Option::or_else\<close>.\<close>

definition unwrap_or :: "'a option \<Rightarrow> 'a \<Rightarrow> 'a" where
  "unwrap_or x d = (case x of Some v \<Rightarrow> v | None \<Rightarrow> d)"

definition or_else :: "'a option \<Rightarrow> 'a option \<Rightarrow> 'a option" where
  "or_else x y = (case x of Some v \<Rightarrow> Some v | None \<Rightarrow> y)"

lemma unwrap_or_simps [simp]: "unwrap_or (Some v) d = v" "unwrap_or None d = d"
  by (simp_all add: unwrap_or_def)

lemma or_else_simps [simp]: "or_else (Some v) y = Some v" "or_else None y = y"
  by (simp_all add: or_else_def)

section \<open>First match in a vector\<close>

text \<open>
  \<open>List.find P xs\<close> is \<open>xs.iter().find(P)\<close>; \<open>update_first P f xs\<close> is the vector after
  \<open>if let Some(x) = xs.iter_mut().find(P) { *x = f(*x) }\<close>.
\<close>

fun update_first :: "('a \<Rightarrow> bool) \<Rightarrow> ('a \<Rightarrow> 'a) \<Rightarrow> 'a list \<Rightarrow> 'a list" where
  "update_first P f [] = []"
| "update_first P f (x # xs) = (if P x then f x # xs else x # update_first P f xs)"

lemma length_update_first [simp]: "length (update_first P f xs) = length xs"
  by (induction xs) auto

lemma update_first_none [find_simps]: "find P xs = None \<Longrightarrow> update_first P f xs = xs"
  by (induction xs) (auto split: if_splits)

lemma map_update_first_same [find_simps]:
  "(\<And>x. P x \<Longrightarrow> g (f x) = g x) \<Longrightarrow> map g (update_first P f xs) = map g xs"
  by (induction xs) auto

lemma find_split: "find P xs = Some x \<longleftrightarrow> (\<exists>ys zs. xs = ys @ x # zs \<and> P x \<and> (\<forall>y\<in>set ys. \<not> P y))"
proof
  show "find P xs = Some x \<Longrightarrow> \<exists>ys zs. xs = ys @ x # zs \<and> P x \<and> (\<forall>y\<in>set ys. \<not> P y)"
  proof (induction xs)
    case (Cons a xs)
    show ?case
    proof (cases "P a")
      case True
      with Cons.prems show ?thesis by (intro exI [of _ "[]"] exI [of _ xs]) auto
    next
      case False
      with Cons obtain ys zs where "xs = ys @ x # zs" "P x" "\<forall>y\<in>set ys. \<not> P y" by auto
      with False show ?thesis by (intro exI [of _ "a # ys"] exI [of _ zs]) auto
    qed
  qed simp
next
  assume "\<exists>ys zs. xs = ys @ x # zs \<and> P x \<and> (\<forall>y\<in>set ys. \<not> P y)"
  then obtain ys zs where "xs = ys @ x # zs" "P x" "\<forall>y\<in>set ys. \<not> P y" by blast
  then show "find P xs = Some x" by (induction ys arbitrary: xs) auto
qed

lemma update_first_split:
  "P x \<Longrightarrow> \<forall>y\<in>set ys. \<not> P y \<Longrightarrow> update_first P f (ys @ x # zs) = ys @ f x # zs"
  by (induction ys) auto

lemma find_SomeD: "find P xs = Some x \<Longrightarrow> x \<in> set xs \<and> P x"
  by (auto simp: find_split)

lemma find_None_iff2: "find P xs = None \<longleftrightarrow> (\<forall>x\<in>set xs. \<not> P x)"
  by (auto simp: find_None_iff)

lemma set_update_first: "set (update_first P f xs) \<subseteq> set xs \<union> f ` {x \<in> set xs. P x}"
  by (induction xs) auto

text \<open>With distinct keys, updating the first element of a key is updating every one.\<close>

lemma update_first_distinct:
  "distinct (map k xs) \<Longrightarrow>
   update_first (\<lambda>x. k x = i) f xs = map (\<lambda>x. if k x = i then f x else x) xs"
proof (induction xs)
  case (Cons a xs)
  have "map (\<lambda>x. if k x = i then f x else x) xs = xs" if "k a = i"
    using that Cons.prems by (intro map_idI) (auto simp: image_iff)
  with Cons show ?case by auto
qed simp

lemma find_distinct_key:
  "distinct (map k xs) \<Longrightarrow> x \<in> set xs \<Longrightarrow> find (\<lambda>y. k y = k x) xs = Some x"
  by (induction xs) (auto simp: rev_image_eqI)

lemma filter_none_update_first:
  "(\<And>x. P x \<Longrightarrow> \<not> Q x) \<Longrightarrow> (\<And>x. P x \<Longrightarrow> \<not> Q (f x)) \<Longrightarrow> filter Q (update_first P f xs) = filter Q xs"
  by (induction xs) auto

text \<open>Updating an element without changing a field of it.\<close>

lemma nth_update_field: "f x = f (xs ! k) \<Longrightarrow> f (xs[k := x] ! j) = f (xs ! j)"
  by (cases "k < length xs"; cases "j = k") (auto simp: list_update_beyond)

end
