(* ===== verification/Rust_Std.thy ===== *)
theory Rust_Std
  imports Prelude
begin

text \<open>
  The operations of Rust's standard library that the client calls: the white-space functions of
  \<open>str\<close>, the decimal \<open>Display\<close> and \<open>FromStr\<close> of unsigned integers, \<open>str::to_uppercase\<close>, and
  \<open>String::as_bytes\<close> (UTF-8). Each is the documented behaviour written out; the Unicode case
  tables are an argument (\<open>up\<close>), because the library generates them.
\<close>

type_synonym u64 = "64 word"
type_synonym u32 = "32 word"
type_synonym u16 = "16 word"

section \<open>White space\<close>

text \<open>\<open>char::is_whitespace\<close>: the code points with the Unicode property \<open>White_Space\<close>.\<close>

definition is_whitespace :: "rchar \<Rightarrow> bool" where
  "is_whitespace c \<longleftrightarrow>
     (9 \<le> c \<and> c \<le> 13) \<or> c = 32 \<or> c = 133 \<or> c = 160 \<or> c = 5760 \<or> (8192 \<le> c \<and> c \<le> 8202)
       \<or> c = 8232 \<or> c = 8233 \<or> c = 8239 \<or> c = 8287 \<or> c = 12288"

definition trim :: "ustring \<Rightarrow> ustring" where
  "trim s = rev (dropWhile is_whitespace (rev (dropWhile is_whitespace s)))"

fun split_on :: "(rchar \<Rightarrow> bool) \<Rightarrow> ustring \<Rightarrow> ustring list" where
  "split_on P [] = [[]]"
| "split_on P (c # cs) =
     (if P c then [] # split_on P cs
      else case split_on P cs of [] \<Rightarrow> [[c]] | w # ws \<Rightarrow> (c # w) # ws)"

definition split_whitespace :: "ustring \<Rightarrow> ustring list" where
  "split_whitespace s = filter (\<lambda>w. w \<noteq> []) (split_on is_whitespace s)"

lemma rev_dropWhile_ends:
  "rev (dropWhile P (rev xs)) \<noteq> [] \<Longrightarrow> \<not> P (last (rev (dropWhile P (rev xs))))"
  by (metis hd_dropWhile last_rev rev_is_Nil_conv)

lemma trim_last: "trim s \<noteq> [] \<Longrightarrow> \<not> is_whitespace (last (trim s))"
  unfolding trim_def by (rule rev_dropWhile_ends)

lemma rev_dropWhile_rev_prefix: "\<exists>ys. xs = rev (dropWhile P (rev xs)) @ ys"
  by (metis rev_append rev_rev_ident takeWhile_dropWhile_id)

lemma trim_hd:
  assumes "trim s \<noteq> []"
  shows "\<not> is_whitespace (hd (trim s))"
proof -
  let ?d = "dropWhile is_whitespace s"
  obtain ys where "?d = trim s @ ys"
    using rev_dropWhile_rev_prefix [of ?d is_whitespace] by (auto simp: trim_def)
  with assms have "hd (trim s) = hd ?d" and "?d \<noteq> []" by auto
  then show ?thesis using hd_dropWhile by metis
qed

lemma trim_eq_Nil_iff: "trim s = [] \<longleftrightarrow> (\<forall>c\<in>set s. is_whitespace c)"
proof
  assume "trim s = []"
  then have a: "\<forall>c\<in>set (dropWhile is_whitespace s). is_whitespace c"
    by (simp add: trim_def)
  then have "dropWhile is_whitespace s = []"
    by (metis hd_dropWhile hd_in_set)
  then show "\<forall>c\<in>set s. is_whitespace c" by simp
next
  assume "\<forall>c\<in>set s. is_whitespace c"
  then show "trim s = []" by (auto simp: trim_def dest: set_dropWhileD)
qed

lemma trim_idem: "trim (trim s) = trim s"
proof (cases "trim s = []")
  case True
  moreover have "trim [] = []" by (simp add: trim_def)
  ultimately show ?thesis by simp
next
  case False
  then have h: "dropWhile is_whitespace (trim s) = trim s"
    using trim_hd [OF False] by (cases "trim s") auto
  moreover have "dropWhile is_whitespace (rev (trim s)) = rev (trim s)"
    using trim_last [OF False] False
    by (cases "rev (trim s)") (auto simp: last_rev dest!: arg_cong [of _ _ rev])
  ultimately show ?thesis unfolding trim_def [of "trim s"] by simp
qed

lemma set_trim_subset: "set (trim s) \<subseteq> set s"
  by (auto simp: trim_def dest!: set_dropWhileD)

lemma split_on_not_Nil [simp]: "split_on P s \<noteq> []"
  by (induction s) (auto split: list.splits)

lemma split_on_chars: "w \<in> set (split_on P s) \<Longrightarrow> c \<in> set w \<Longrightarrow> \<not> P c \<and> c \<in> set s"
proof (induction s arbitrary: w)
  case (Cons a s)
  then show ?case
    by (cases "split_on P s") (auto split: if_splits, fastforce+)
qed simp

lemma split_on_none: "\<forall>c\<in>set s. \<not> P c \<Longrightarrow> split_on P s = [s]"
  by (induction s) auto

lemma split_on_append_sep: "P c \<Longrightarrow> split_on P (s @ c # t) = split_on P s @ split_on P t"
proof (induction s)
  case (Cons a s)
  then show ?case by (cases "split_on P s") simp_all
qed simp

lemma split_whitespace_words:
  "w \<in> set (split_whitespace s) \<Longrightarrow> w \<noteq> [] \<and> (\<forall>c\<in>set w. \<not> is_whitespace c \<and> c \<in> set s)"
  unfolding split_whitespace_def by (simp, metis split_on_chars)

lemma split_on_all_sep: "set (split_on P s) \<subseteq> {[]} \<longleftrightarrow> (\<forall>c\<in>set s. P c)"
proof (induction s)
  case (Cons a s)
  then show ?case by (cases "P a"; cases "split_on P s") auto
qed simp

lemma split_whitespace_Nil: "split_whitespace s = [] \<longleftrightarrow> (\<forall>c\<in>set s. is_whitespace c)"
  unfolding split_whitespace_def filter_empty_conv split_on_all_sep [symmetric] by blast

section \<open>Upper case\<close>

text \<open>
  \<open>str::to_uppercase\<close> maps each character by the Unicode tables, one character to one or more
  (\<open>SpecialCasing.txt\<close>); \<open>up\<close> is that table.
\<close>

definition to_uppercase :: "(rchar \<Rightarrow> ustring) \<Rightarrow> ustring \<Rightarrow> ustring" where
  "to_uppercase up s = concat (map up s)"

lemma to_uppercase_simps [simp]:
  "to_uppercase up [] = []"
  "to_uppercase up (c # s) = up c @ to_uppercase up s"
  by (simp_all add: to_uppercase_def)

section \<open>Decimal numbers\<close>

fun show_nat :: "nat \<Rightarrow> ustring" where
  "show_nat n = (if n < 10 then [48 + n] else show_nat (n div 10) @ [48 + n mod 10])"

declare show_nat.simps [simp del]

definition show_word :: "'a::len word \<Rightarrow> ustring" where
  "show_word w = show_nat (unat w)"

text \<open>The format \<open>{:02}\<close>: at least two characters, padded on the left with zeros.\<close>

definition show_pad2 :: "nat \<Rightarrow> ustring" where
  "show_pad2 n = (let s = show_nat n in replicate (2 - length s) 48 @ s)"

definition digit_val :: "rchar \<Rightarrow> nat option" where
  "digit_val c = (if 48 \<le> c \<and> c \<le> 57 then Some (c - 48) else None)"

text \<open>
  \<open>str::parse\<close> for an unsigned type: an optional plus sign, at least one digit, and an error as
  soon as the value does not fit.
\<close>

fun parse_digits :: "nat \<Rightarrow> nat \<Rightarrow> ustring \<Rightarrow> nat option" where
  "parse_digits lim acc [] = Some acc"
| "parse_digits lim acc (c # cs) =
     (case digit_val c of
        None \<Rightarrow> None
      | Some d \<Rightarrow> if acc * 10 + d < lim then parse_digits lim (acc * 10 + d) cs else None)"

definition parse_word :: "ustring \<Rightarrow> 'a::len word option" where
  "parse_word s =
     (let ds = (case s of [] \<Rightarrow> [] | c # cs \<Rightarrow> if c = 43 then cs else s)
      in if ds = [] then None else map_option of_nat (parse_digits (2 ^ LENGTH('a)) 0 ds))"

lemma show_nat_not_Nil [simp]: "show_nat n \<noteq> []"
  by (subst show_nat.simps) simp

lemma show_nat_digits: "c \<in> set (show_nat n) \<Longrightarrow> 48 \<le> c \<and> c \<le> 57"
proof (induction n rule: show_nat.induct)
  case (1 n)
  then show ?case
    by (subst (asm) (2) show_nat.simps) (auto split: if_splits)
qed

lemma show_nat_small: "n < 10 \<Longrightarrow> show_nat n = [48 + n]"
  by (subst show_nat.simps) simp

lemma show_nat_two: "10 \<le> n \<Longrightarrow> n < 100 \<Longrightarrow> show_nat n = [48 + n div 10, 48 + n mod 10]"
  by (subst show_nat.simps) (simp add: show_nat_small)

lemma show_pad2_two: "n < 100 \<Longrightarrow> show_pad2 n = [48 + n div 10, 48 + n mod 10]"
  by (cases "n < 10") (auto simp: show_pad2_def show_nat_small show_nat_two)

lemma parse_digits_append:
  "parse_digits lim acc (xs @ ys) = Option.bind (parse_digits lim acc xs) (\<lambda>a. parse_digits lim a ys)"
  by (induction xs arbitrary: acc) (auto split: option.splits)

lemma parse_digits_show: "n < lim \<Longrightarrow> parse_digits lim 0 (show_nat n) = Some n"
proof (induction n rule: show_nat.induct)
  case (1 n)
  show ?case
  proof (cases "n < 10")
    case True
    with 1 show ?thesis by (simp add: show_nat_small digit_val_def)
  next
    case False
    with 1 have "parse_digits lim 0 (show_nat (n div 10)) = Some (n div 10)" by simp
    with 1 False show ?thesis
      by (subst show_nat.simps) (simp add: parse_digits_append digit_val_def)
  qed
qed

lemma parse_digits_bound: "parse_digits lim acc s = Some n \<Longrightarrow> acc < lim \<Longrightarrow> n < lim"
  by (induction s arbitrary: acc) (auto split: option.splits if_splits)

lemma parse_show_word: "parse_word (show_word w) = Some (w :: 'a::len word)"
proof -
  let ?s = "show_nat (unat w)"
  obtain c cs where s: "?s = c # cs" by (cases ?s) auto
  then have "c \<noteq> 43" using show_nat_digits [of c "unat w"] by auto
  moreover have "parse_digits (2 ^ LENGTH('a)) 0 ?s = Some (unat w)"
    by (rule parse_digits_show) simp
  ultimately show ?thesis by (simp add: parse_word_def show_word_def s)
qed

lemma show_word_inj [simp]: "show_word v = show_word w \<longleftrightarrow> v = (w :: 'a::len word)"
  by (metis option.inject parse_show_word)

lemma trim_show_nat: "trim (show_nat n) = show_nat n"
proof -
  have "\<not> is_whitespace c" if "c \<in> set (show_nat n)" for c
    using show_nat_digits [OF that] by (auto simp: is_whitespace_def)
  moreover from this have "\<not> is_whitespace (hd (rev (show_nat n)))"
    by (simp add: hd_rev)
  ultimately have "dropWhile is_whitespace (show_nat n) = show_nat n"
    and "dropWhile is_whitespace (rev (show_nat n)) = rev (show_nat n)"
    by (auto simp: dropWhile_eq_self_iff)
  then show ?thesis by (simp add: trim_def)
qed

section \<open>UTF-8\<close>

text \<open>\<open>String::as_bytes\<close>: the UTF-8 encoding, one to four bytes for each scalar value.\<close>

definition utf8_char :: "rchar \<Rightarrow> nat list" where
  "utf8_char c =
     (if c < 128 then [c]
      else if c < 2048 then [192 + c div 64, 128 + c mod 64]
      else if c < 65536 then [224 + c div 4096, 128 + c div 64 mod 64, 128 + c mod 64]
      else [240 + c div 262144, 128 + c div 4096 mod 64, 128 + c div 64 mod 64, 128 + c mod 64])"

definition as_bytes :: "ustring \<Rightarrow> nat list" where
  "as_bytes s = concat (map utf8_char s)"

lemma as_bytes_simps [simp]:
  "as_bytes [] = []"
  "as_bytes (c # s) = utf8_char c @ as_bytes s"
  "as_bytes (s @ t) = as_bytes s @ as_bytes t"
  by (simp_all add: as_bytes_def)

lemma utf8_char_ascii: "b < 128 \<Longrightarrow> b \<in> set (utf8_char c) \<longleftrightarrow> b = c"
  by (auto simp: utf8_char_def)

lemma as_bytes_ascii: "b < 128 \<Longrightarrow> b \<in> set (as_bytes s) \<longleftrightarrow> b \<in> set s"
  by (induction s) (auto simp: utf8_char_ascii)

lemma utf8_char_byte: "c < 1114112 \<Longrightarrow> b \<in> set (utf8_char c) \<Longrightarrow> b < 256"
  by (auto simp: utf8_char_def split: if_splits)

end
