(* ===== verification/Json.thy ===== *)
theory Json
  imports Rust_Std
begin

text \<open>
  JSON values as both ends of the wire see them. An object keeps its members in the order of the
  text, duplicates included, because a derived deserializer reads them one by one. A number is
  kept as \<open>serde_json::Number\<close> keeps it: a non-negative integer, a negative integer, or a double
  (its 64 bits). The parser and the printer of JSON text are library code and are arguments of
  the definitions that use them.
\<close>

datatype json_number = PosInt u64 | NegInt u64 | Float u64

datatype json =
    JNull
  | JBool bool
  | JNum json_number
  | JStr ustring
  | JArr "json list"
  | JObj "(ustring \<times> json) list"

text \<open>\<open>serde_json::Value::as_u64\<close> and \<open>Value::as_str\<close>.\<close>

fun as_u64 :: "json \<Rightarrow> u64 option" where
  "as_u64 (JNum (PosInt n)) = Some n"
| "as_u64 _ = None"

fun as_str :: "json \<Rightarrow> ustring option" where
  "as_str (JStr s) = Some s"
| "as_str _ = None"

text \<open>
  Deserializing an \<open>Option<Value>\<close> never fails, an \<open>Option<String>\<close> takes a string or null.
\<close>

fun opt_value :: "json \<Rightarrow> json option option" where
  "opt_value JNull = Some None"
| "opt_value v = Some (Some v)"

fun opt_string :: "json \<Rightarrow> ustring option option" where
  "opt_string JNull = Some None"
| "opt_string (JStr s) = Some (Some s)"
| "opt_string _ = None"

lemma as_u64_Some: "as_u64 v = Some n \<longleftrightarrow> v = JNum (PosInt n)"
  by (cases v rule: as_u64.cases) auto

lemma as_str_Some: "as_str v = Some s \<longleftrightarrow> v = JStr s"
  by (cases v) auto

lemma opt_value_total: "\<exists>x. opt_value v = Some x"
  by (cases v) auto

fun_cases opt_stringE: "opt_string v = Some x"

section \<open>A printer\<close>

text \<open>
  One compact printer, as an instance for the statements about every printer: no white space
  between tokens, and quotes, backslashes and control characters escaped in strings.
\<close>

definition hex_digit :: "nat \<Rightarrow> rchar" where
  "hex_digit n = (if n < 10 then 48 + n else 87 + n)"

definition escape_char :: "rchar \<Rightarrow> ustring" where
  "escape_char c =
     (if c = 34 \<or> c = 92 then [92, c]
      else if c < 32 then [92] @ lit ''u00'' @ [hex_digit (c div 16), hex_digit (c mod 16)]
      else [c])"

definition compact_string :: "ustring \<Rightarrow> ustring" where
  "compact_string s = [34] @ concat (map escape_char s) @ [34]"

fun compact_number :: "json_number \<Rightarrow> ustring" where
  "compact_number (PosInt n) = show_word n"
| "compact_number (NegInt n) = lit ''-'' @ show_word (- n)"
| "compact_number (Float n) = lit ''0.0''"

fun comma_sep :: "ustring list \<Rightarrow> ustring" where
  "comma_sep [] = []"
| "comma_sep [x] = x"
| "comma_sep (x # xs) = x @ [44] @ comma_sep xs"

fun compact_json :: "json \<Rightarrow> ustring" where
  "compact_json JNull = lit ''null''"
| "compact_json (JBool b) = (if b then lit ''true'' else lit ''false'')"
| "compact_json (JNum n) = compact_number n"
| "compact_json (JStr s) = compact_string s"
| "compact_json (JArr vs) = [91] @ comma_sep (map compact_json vs) @ [93]"
| "compact_json (JObj es) =
     [123] @ comma_sep (map (\<lambda>(k, v). compact_string k @ [58] @ compact_json v) es) @ [125]"

lemma show_word_no_newline: "10 \<notin> set (show_word w)"
  using show_nat_digits [of 10] by (auto simp: show_word_def)

lemma escape_char_no_newline: "10 \<notin> set (escape_char c)"
  by (auto simp: escape_char_def hex_digit_def lit_def)

lemma compact_string_no_newline: "10 \<notin> set (compact_string s)"
  by (auto simp: compact_string_def escape_char_no_newline)

lemma comma_sep_no_newline: "(\<And>x. x \<in> set xs \<Longrightarrow> 10 \<notin> set x) \<Longrightarrow> 10 \<notin> set (comma_sep xs)"
  by (induction xs rule: comma_sep.induct) auto

lemma compact_json_no_newline: "10 \<notin> set (compact_json v)"
proof (induction v rule: compact_json.induct)
  case (3 n)
  then show ?case by (cases n) (auto simp: show_word_no_newline lit_def)
next
  case (5 vs)
  then have "10 \<notin> set (comma_sep (map compact_json vs))"
    by (intro comma_sep_no_newline) auto
  then show ?case by simp
next
  case (6 es)
  then have "10 \<notin> set (comma_sep (map (\<lambda>(k, v). compact_string k @ [58] @ compact_json v) es))"
    by (intro comma_sep_no_newline) (auto simp: compact_string_no_newline)
  then show ?case by simp
qed (auto simp: lit_def compact_string_no_newline)

end
