(* ===== verification/Chat_Types.thy ===== *)
theory Chat_Types
  imports Json "HOL-Library.Monad_Syntax"
begin

text \<open>
  The data types of \<open>ui/src/types.rs\<close>: rooms, messages, the connection status, the commands to
  the server, the events from it, and the flat record \<open>ServerIncoming\<close> with the deserializer its
  \<open>serde\<close> attributes describe.
\<close>

section \<open>Rooms and messages\<close>

record chat_room =
  rm_id :: u64
  rm_name :: ustring
  rm_unread :: u32

datatype message_sender = Me | Server | System

record chat_message =
  msg_room_id :: u64
  msg_text :: ustring
  msg_sender :: message_sender
  msg_timestamp :: ustring

datatype connection_status = Disconnected | Connecting | Connected

datatype to_server =
    Subscribe u64
  | CreateAndSubscribe ustring
  | SendMessage u64 ustring
  | Disconnect

datatype from_server =
    FS_Connected
  | FS_Message (fs_group_name: ustring) (fs_text: ustring)
  | FS_RoomConfirmed (fs_server_room_id: u64) (fs_room_name: ustring) (fs_is_create: bool)
  | FS_Error ustring
  | FS_Disconnected

section \<open>Incoming JSON\<close>

record server_incoming =
  si_grp :: "json option"
  si_message :: "ustring option"
  si_msg_type :: "ustring option"
  si_data :: "ustring option"
  si_grp_name :: "ustring option"

definition grp_as_u64 :: "server_incoming \<Rightarrow> u64 option" where
  "grp_as_u64 m = Option.bind (si_grp m) as_u64"

definition grp_as_str :: "server_incoming \<Rightarrow> ustring option" where
  "grp_as_str m = Option.bind (si_grp m) as_str"

text \<open>
  The derived \<open>Deserialize\<close>. The fields in declaration order, under their wire names (\<open>rename\<close>
  gives \<open>msg_type\<close> the name \<open>type\<close>); every field has \<open>default\<close>, so a missing one is \<open>None\<close>; a
  member of another name is skipped; a field given twice is an error. A JSON array is read as
  the fields in order, trailing ones missing, and too many elements are an error. Any other
  value is an error.
\<close>

definition incoming_fields :: "ustring list" where
  "incoming_fields = [lit ''grp'', lit ''message'', lit ''type'', lit ''data'', lit ''grp_name'']"

definition incoming_field :: "(json \<Rightarrow> 'a option option) \<Rightarrow> json option \<Rightarrow> 'a option option" where
  "incoming_field de v = (case v of None \<Rightarrow> Some None | Some j \<Rightarrow> de j)"

definition build_incoming :: "(ustring \<Rightarrow> json option) \<Rightarrow> server_incoming option" where
  "build_incoming field = do {
     g \<leftarrow> incoming_field opt_value (field (lit ''grp''));
     m \<leftarrow> incoming_field opt_string (field (lit ''message''));
     t \<leftarrow> incoming_field opt_string (field (lit ''type''));
     d \<leftarrow> incoming_field opt_string (field (lit ''data''));
     n \<leftarrow> incoming_field opt_string (field (lit ''grp_name''));
     Some \<lparr>si_grp = g, si_message = m, si_msg_type = t, si_data = d, si_grp_name = n\<rparr> }"

fun deserialize_incoming :: "json \<Rightarrow> server_incoming option" where
  "deserialize_incoming (JObj es) =
     (if distinct (filter (\<lambda>k. k \<in> set incoming_fields) (map fst es))
      then build_incoming (map_of es) else None)"
| "deserialize_incoming (JArr vs) =
     (if length vs \<le> length incoming_fields
      then build_incoming (map_of (zip incoming_fields vs)) else None)"
| "deserialize_incoming _ = None"

lemma incoming_field_simps [simp]:
  "incoming_field de None = Some None"
  "incoming_field de (Some j) = de j"
  by (simp_all add: incoming_field_def)

lemma grp_as_simps [simp]:
  "si_grp m = None \<Longrightarrow> grp_as_u64 m = None"
  "si_grp m = None \<Longrightarrow> grp_as_str m = None"
  "si_grp m = Some v \<Longrightarrow> grp_as_u64 m = as_u64 v"
  "si_grp m = Some v \<Longrightarrow> grp_as_str m = as_str v"
  by (simp_all add: grp_as_u64_def grp_as_str_def)

text \<open>A number and a string reading of \<open>grp\<close> exclude each other.\<close>

lemma grp_readings_exclusive: "grp_as_u64 m = Some n \<Longrightarrow> grp_as_str m = None"
  by (auto simp: grp_as_u64_def grp_as_str_def as_u64_Some bind_eq_Some_conv)

lemma incoming_field_value_total: "\<exists>x. incoming_field opt_value v = Some x"
  by (cases v) (auto simp: opt_value_total)

text \<open>The deserializer fails on a member of the wrong type, and on nothing else.\<close>

lemma build_incoming_None:
  "build_incoming field = None \<longleftrightarrow>
     (\<exists>k\<in>{lit ''message'', lit ''type'', lit ''data'', lit ''grp_name''}.
        incoming_field opt_string (field k) = None)"
proof -
  obtain g where "incoming_field opt_value (field (lit ''grp'')) = Some g"
    using incoming_field_value_total by blast
  then show ?thesis
    by (auto simp: build_incoming_def Option.bind_eq_None_conv split: Option.bind_splits)
qed

text \<open>Members the record does not know do not change the result.\<close>

lemma build_incoming_cong:
  "(\<And>k. k \<in> set incoming_fields \<Longrightarrow> f k = g k) \<Longrightarrow> build_incoming f = build_incoming g"
  by (simp add: build_incoming_def incoming_fields_def)

lemma deserialize_skips_unknown:
  assumes "k \<notin> set incoming_fields"
  shows "deserialize_incoming (JObj ((k, v) # es)) = deserialize_incoming (JObj es)"
proof -
  have "build_incoming (map_of ((k, v) # es)) = build_incoming (map_of es)"
    using assms by (intro build_incoming_cong) auto
  with assms show ?thesis by simp
qed

end
