(* ===== verification/Helpers.thy ===== *)
theory Helpers
  imports Chat_Types
begin

text \<open>
  \<open>ui/src/helpers.rs\<close>: the avatar's colour class and initials, the clock string, and the toast
  notifications. A toast is shown at once and removed by a task that sleeps four seconds; the
  tasks that still sleep are part of the state (\<open>toast_tasks\<close>), and \<open>expire_toast\<close> is one of
  them waking up. The framework drops a task when the component that spawned it leaves the
  screen: \<open>drop_toast_task\<close>.
\<close>

section \<open>Avatar and clock\<close>

definition avatar_color_class :: "u64 \<Rightarrow> ustring" where
  "avatar_color_class rid = lit ''color-'' @ show_word (rid mod 8)"

definition first_char :: "ustring \<Rightarrow> rchar" where
  "first_char w = (case w of [] \<Rightarrow> 35 | c # _ \<Rightarrow> c)"

definition room_initials :: "(rchar \<Rightarrow> ustring) \<Rightarrow> ustring \<Rightarrow> ustring" where
  "room_initials up name =
     (case split_whitespace name of
        [] \<Rightarrow> lit ''#''
      | [w] \<Rightarrow> to_uppercase up (take 2 w)
      | w1 # w2 # _ \<Rightarrow> to_uppercase up [first_char w1, first_char w2])"

text \<open>
  The clock is the system time in nanoseconds relative to the Unix epoch; a time before the
  epoch counts as the epoch (\<open>unwrap_or_default\<close>).
\<close>

definition current_time_str :: "int \<Rightarrow> ustring" where
  "current_time_str clock =
     (let now = (if clock < 0 then 0 else nat (clock div 1000000000));
          hours = (now div 3600) mod 24;
          minutes = (now div 60) mod 60
      in show_pad2 hours @ lit '':'' @ show_pad2 minutes)"

lemma avatar_color_class_eq_iff:
  "avatar_color_class a = avatar_color_class b \<longleftrightarrow> a mod 8 = b mod 8"
  by (simp add: avatar_color_class_def)

section \<open>Toasts\<close>

type_synonym toast = "ustring \<times> ustring \<times> u64"

abbreviation toast_id :: "toast \<Rightarrow> u64" where
  "toast_id t \<equiv> snd (snd t)"

record toast_store =
  toasts :: "toast list"
  toast_counter :: u64
  toast_tasks :: "u64 list"

definition add_toast ::
  "profile \<Rightarrow> ustring \<Rightarrow> ustring \<Rightarrow> 'a toast_store_scheme \<Rightarrow> 'a toast_store_scheme result" where
  "add_toast p kind message s =
     (let tid = toast_counter s in
      and_then (add_arith p (toast_counter s) 1) (\<lambda>c.
      Inr (s\<lparr>toast_counter := c,
             toasts := toasts s @ [(kind, message, tid)],
             toast_tasks := toast_tasks s @ [tid]\<rparr>)))"

definition expire_toast :: "u64 \<Rightarrow> 'a toast_store_scheme \<Rightarrow> 'a toast_store_scheme" where
  "expire_toast tid s =
     (if tid \<in> set (toast_tasks s)
      then s\<lparr>toasts := filter (\<lambda>t. toast_id t \<noteq> tid) (toasts s),
             toast_tasks := remove1 tid (toast_tasks s)\<rparr>
      else s)"

definition drop_toast_task :: "u64 \<Rightarrow> 'a toast_store_scheme \<Rightarrow> 'a toast_store_scheme" where
  "drop_toast_task tid s = s\<lparr>toast_tasks := remove1 tid (toast_tasks s)\<rparr>"

text \<open>
  The invariant of the toasts: the identifiers on the screen grow and stay below the counter, so
  no two toasts share one, and every sleeping task belongs to a toast that is still shown.
\<close>

definition toasts_ok :: "'a toast_store_scheme \<Rightarrow> bool" where
  "toasts_ok s \<longleftrightarrow>
     sorted_wrt (<) (map toast_id (toasts s)) \<and>
     (\<forall>t\<in>set (toasts s). toast_id t < toast_counter s) \<and>
     distinct (toast_tasks s) \<and> set (toast_tasks s) \<subseteq> toast_id ` set (toasts s)"

lemma add_toast_Inr:
  "add_toast p k m s = Inr s' \<longleftrightarrow>
     add_arith p (toast_counter s) 1 = Inr (toast_counter s') \<and>
     s' = s\<lparr>toast_counter := toast_counter s', toasts := toasts s @ [(k, m, toast_counter s)],
            toast_tasks := toast_tasks s @ [toast_counter s]\<rparr>"
  by (auto simp: add_toast_def Let_def res_simps)

lemma add_toast_fields:
  assumes "add_toast p k m s = Inr s'"
  shows "toasts s' = toasts s @ [(k, m, toast_counter s)]"
    and "toast_tasks s' = toast_tasks s @ [toast_counter s]"
    and "toast_counter s' = toast_counter s + 1"
    and "toast_store.more s' = toast_store.more s"
  using assms by (auto simp: add_toast_def Let_def res_simps dest: add_arith_value)

lemma add_toast_ok:
  assumes "add_toast p k m s = Inr s'" "toasts_ok s" "p = Debug \<or> toast_counter s \<noteq> - 1"
  shows "toasts_ok s'"
proof -
  from assms(1) have "add_arith p (toast_counter s) 1 = Inr (toast_counter s')"
    by (simp add: add_toast_Inr)
  with assms(3) have "toast_counter s < toast_counter s'"
    by (blast intro: add_arith_one_less)
  with assms(2) add_toast_fields [OF assms(1)] show ?thesis
    by (fastforce simp: toasts_ok_def sorted_wrt_append)
qed

lemma toasts_ok_distinct: "toasts_ok s \<Longrightarrow> distinct (map toast_id (toasts s))"
  by (simp add: toasts_ok_def strict_sorted_iff)

lemma expire_toast_ok: "toasts_ok s \<Longrightarrow> toasts_ok (expire_toast tid s)"
  by (auto simp: toasts_ok_def expire_toast_def sorted_wrt_map sorted_wrt_filter)

lemma drop_toast_task_ok: "toasts_ok s \<Longrightarrow> toasts_ok (drop_toast_task tid s)"
  by (auto simp: toasts_ok_def drop_toast_task_def)

end
