(* ===== verification/Helper_Properties.thy ===== *)
theory Helper_Properties
  imports Helpers
begin

text \<open>The properties of the avatar, the clock and a single toast.\<close>

section \<open>Clock\<close>

text \<open>For every system time, also one before the epoch, the clock string is five characters, two digits of an hour below 24, a colon and two digits of a minute below 60, and hour and minute are those of the time of day in UTC.\<close>

lemma current_time_str_spec:
  "\<exists>h m. current_time_str clock = [48 + h div 10, 48 + h mod 10, 58, 48 + m div 10, 48 + m mod 10]
     \<and> h < 24 \<and> m < 60
     \<and> int (60 * h + m) = max 0 clock div 60000000000 mod 1440"
proof -
  define now where "now = (if clock < 0 then 0 else nat (clock div 1000000000))"
  let ?h = "now div 3600 mod 24" and ?m = "now div 60 mod 60"
  have now: "int now = max 0 clock div 1000000000"
    by (simp add: now_def max_def)
  have "int (60 * ?h + ?m) = int now div 60 mod 1440"
  proof -
    have "60 * ?h + ?m = now div 60 mod 1440"
      using div_mult2_eq [of now 60 60] mod_mult2_eq [of "now div 60" 60 24] by simp
    then show ?thesis by (metis of_nat_numeral zdiv_int zmod_int)
  qed
  also have "int now div 60 = max 0 clock div 60000000000"
    by (simp add: now zdiv_zmult2_eq [symmetric])
  finally have "int (60 * ?h + ?m) = max 0 clock div 60000000000 mod 1440" .
  moreover have "current_time_str clock =
      [48 + ?h div 10, 48 + ?h mod 10, 58, 48 + ?m div 10, 48 + ?m mod 10]"
    by (simp add: current_time_str_def Let_def now_def show_pad2_two lit_def)
  moreover have "?h < 24" "?m < 60" by simp_all
  ultimately show ?thesis by blast
qed

section \<open>Avatar\<close>

lemma to_uppercase_length:
  "(\<And>c. 1 \<le> length (up c) \<and> length (up c) \<le> k) \<Longrightarrow>
   length s \<le> length (to_uppercase up s) \<and> length (to_uppercase up s) \<le> k * length s"
proof (induction s)
  case (Cons c s)
  then have "length s \<le> length (to_uppercase up s)" "length (to_uppercase up s) \<le> k * length s"
    by auto
  with Cons.prems [of c] show ?case by simp
qed simp

text \<open>Whatever the room's name, its avatar shows at least one character, and at most two for each character the case table may put in place of one.\<close>

lemma room_initials_length:
  assumes "\<And>c. 1 \<le> length (up c) \<and> length (up c) \<le> k"
  shows "1 \<le> length (room_initials up name) \<and> length (room_initials up name) \<le> 2 * k"
proof -
  have k: "1 \<le> k" using assms [of 0] by simp
  have two: "1 \<le> length (to_uppercase up s) \<and> length (to_uppercase up s) \<le> 2 * k"
    if "s \<noteq> []" "length s \<le> 2" for s
  proof -
    have "1 \<le> length s" using that(1) by (cases s) auto
    moreover have "k * length s \<le> k * 2" using that(2) by simp
    moreover have "length s \<le> length (to_uppercase up s) \<and> length (to_uppercase up s) \<le> k * length s"
      by (rule to_uppercase_length) (rule assms)
    ultimately show ?thesis by linarith
  qed
  show ?thesis
  proof (cases "split_whitespace name")
    case Nil
    with k show ?thesis by (simp add: room_initials_def)
  next
    case (Cons w ws)
    then have "w \<noteq> []" using split_whitespace_words [of w name] by simp
    with Cons two [of "take 2 w"] two [of "[first_char w, first_char (hd ws)]"] show ?thesis
      by (cases ws) (auto simp: room_initials_def)
  qed
qed

text \<open>With a case table that maps the German sharp s to two letters, as Unicode does, a one-word name starting with two of them gets an avatar of four characters, although the comment of the function promises one or two.\<close>

lemma room_initials_expands:
  assumes "up 223 = [83, 83]" and "\<forall>c\<in>set rest. \<not> is_whitespace c"
  shows "room_initials up (223 # 223 # rest) = lit ''SSSS''"
proof -
  have "\<not> is_whitespace 223" by (simp add: is_whitespace_def)
  then have "split_whitespace (223 # 223 # rest) = [223 # 223 # rest]"
    using assms(2) by (simp add: split_whitespace_def split_on_none)
  with assms(1) show ?thesis by (simp add: room_initials_def lit_def)
qed

section \<open>A toast\<close>

text \<open>When the removal task of a visible toast wakes up, exactly that toast leaves the screen, the others keep their order, and the task is gone.\<close>

lemma expire_toast_removes:
  assumes "toasts_ok s" "toasts s = ts @ (kind, message, i) # us" "i \<in> set (toast_tasks s)"
  shows "toasts (expire_toast i s) = ts @ us \<and> i \<notin> set (toast_tasks (expire_toast i s))
    \<and> toast_counter (expire_toast i s) = toast_counter s"
proof -
  have "distinct (map toast_id (toasts s))" using assms(1) by (rule toasts_ok_distinct)
  then have "filter (\<lambda>t. toast_id t \<noteq> i) ts = ts" "filter (\<lambda>t. toast_id t \<noteq> i) us = us"
    using assms(2) by (auto simp: filter_id_conv)
  moreover have "i \<notin> set (remove1 i (toast_tasks s))"
    using assms(1) by (simp add: toasts_ok_def)
  ultimately show ?thesis using assms(2,3) by (simp add: expire_toast_def)
qed

end
