(* ===== verification/Server_Wire.thy ===== *)
theory Server_Wire
  imports Json
begin

text \<open>
  The JSON values the chat server puts on the wire (\<open>server/src/server.cpp\<close>): the confirmations
  of \<open>tcp_accept\<close> and the relayed message of \<open>spawn_listener\<close>. Boost.JSON keeps the members in
  the order of the initializer list.
\<close>

definition sub_ok_json :: "u64 \<Rightarrow> ustring \<Rightarrow> json" where
  "sub_ok_json rid name =
     JObj [(lit ''type'', JStr (lit ''sub_ok'')), (lit ''grp'', JNum (PosInt rid)),
           (lit ''grp_name'', JStr name)]"

definition csub_ok_json :: "u64 \<Rightarrow> ustring \<Rightarrow> json" where
  "csub_ok_json rid name =
     JObj [(lit ''type'', JStr (lit ''csub_ok'')), (lit ''grp'', JNum (PosInt rid)),
           (lit ''grp_name'', JStr name)]"

definition relay_json :: "ustring \<Rightarrow> ustring \<Rightarrow> json" where
  "relay_json data name =
     JObj [(lit ''type'', JStr (lit ''message'')), (lit ''data'', JStr data),
           (lit ''grp_name'', JStr name)]"

end
