(* ===== verification/Network.thy ===== *)
theory Network
  imports Chat_Types Server_Wire
begin

text \<open>
  \<open>ui/src/network.rs\<close>, the parts that compute: the classification of a server message, one turn
  of the reader and the reader's loop, the JSON of each command, one turn of the command loop
  and the command loop. The JSON parser (\<open>parse\<close>) and printer (\<open>pr\<close>) of \<open>serde_json\<close> are
  arguments, and so is what the socket does: \<open>read_outcome\<close> is what one \<open>read_line\<close> returns,
  \<open>write_outcome\<close> what one \<open>write_all\<close> does.
\<close>

section \<open>Classification\<close>

definition classify_server_message :: "server_incoming \<Rightarrow> ustring \<Rightarrow> from_server" where
  "classify_server_message msg raw =
     (case si_msg_type msg of
        Some ty \<Rightarrow>
          if ty = lit ''sub_ok'' \<or> ty = lit ''csub_ok'' then
            (let is_create = (si_msg_type msg = Some (lit ''csub_ok''))
             in case grp_as_u64 msg of
                  None \<Rightarrow> FS_Error (lit ''sub_ok/csub_ok missing numeric grp: '' @ raw)
                | Some rid \<Rightarrow>
                    FS_RoomConfirmed rid
                      (unwrap_or (si_grp_name msg) (lit ''Room #'' @ show_word rid)) is_create)
          else if ty = lit ''message'' then
            FS_Message (unwrap_or (si_grp_name msg) (lit ''unknown'')) (unwrap_or (si_data msg) raw)
          else FS_Error raw
      | None \<Rightarrow>
          FS_Message
            (unwrap_or (or_else (grp_as_str msg) (si_grp_name msg)) (lit ''unknown''))
            (unwrap_or (or_else (si_message msg) (si_data msg)) raw))"

section \<open>The reader\<close>

text \<open>
  \<open>ReadLine s\<close> is \<open>Ok(n)\<close> with the text \<open>s\<close> read into the line buffer, \<open>n = 0\<close> exactly for the
  empty text (end of the stream); \<open>ReadErr e\<close> is an error that displays as \<open>e\<close>. A turn of the
  loop gives the events it sends and whether the loop goes on.
\<close>

datatype read_outcome = ReadLine ustring | ReadErr ustring

definition from_str :: "(ustring \<Rightarrow> json option) \<Rightarrow> ustring \<Rightarrow> server_incoming option" where
  "from_str parse s = Option.bind (parse s) deserialize_incoming"

fun handle_read :: "(ustring \<Rightarrow> json option) \<Rightarrow> read_outcome \<Rightarrow> from_server list \<times> bool" where
  "handle_read parse (ReadLine line) =
     (if line = [] then ([FS_Disconnected], False)
      else let trimmed = trim line in
        if trimmed = [] then ([], True)
        else case from_str parse trimmed of
               Some msg \<Rightarrow> ([classify_server_message msg trimmed], True)
             | None \<Rightarrow> ([FS_Error trimmed], True))"
| "handle_read parse (ReadErr e) = ([FS_Error (lit ''Read error: '' @ e), FS_Disconnected], False)"

text \<open>The whole loop over what the socket returns: the events sent, and whether it still reads.\<close>

fun reader_loop :: "(ustring \<Rightarrow> json option) \<Rightarrow> read_outcome list \<Rightarrow> from_server list \<times> bool" where
  "reader_loop parse [] = ([], True)"
| "reader_loop parse (x # xs) =
     (case handle_read parse x of
        (evs, True) \<Rightarrow> (let (evs', k) = reader_loop parse xs in (evs @ evs', k))
      | (evs, False) \<Rightarrow> (evs, False))"

section \<open>Commands\<close>

text \<open>
  The objects of the \<open>json!\<close> macro. The map type of \<open>serde_json\<close> is ordered by key, so the
  members are printed in the order given here.
\<close>

fun command_json :: "to_server \<Rightarrow> json" where
  "command_json (Subscribe rid) =
     JObj [(lit ''grp'', JNum (PosInt rid)), (lit ''type'', JStr (lit ''sub''))]"
| "command_json (CreateAndSubscribe name) =
     JObj [(lit ''grp_name'', JStr name), (lit ''type'', JStr (lit ''csub''))]"
| "command_json (SendMessage rid message) =
     JObj [(lit ''grp'', JNum (PosInt rid)), (lit ''msg'', JStr message),
           (lit ''type'', JStr (lit ''msg''))]"
| "command_json Disconnect = JObj [(lit ''type'', JStr (lit ''desub''))]"

definition command_bytes :: "(json \<Rightarrow> ustring) \<Rightarrow> to_server \<Rightarrow> nat list" where
  "command_bytes pr c = as_bytes (pr (command_json c) @ [10])"

datatype write_outcome = WriteOk | WriteErr nat

definition write_all :: "write_outcome \<Rightarrow> nat list \<Rightarrow> nat list" where
  "write_all w bs = (case w of WriteOk \<Rightarrow> bs | WriteErr n \<Rightarrow> take n bs)"

text \<open>
  One turn of the command loop: the bytes that reach the socket and whether the loop goes on.
  \<open>None\<close> is the channel closed by the last sender.
\<close>

fun handle_command ::
  "(json \<Rightarrow> ustring) \<Rightarrow> to_server option \<Rightarrow> write_outcome \<Rightarrow> nat list \<times> bool" where
  "handle_command pr (Some Disconnect) w = (write_all w (command_bytes pr Disconnect), False)"
| "handle_command pr (Some c) w = (write_all w (command_bytes pr c), w = WriteOk)"
| "handle_command pr None w = ([], False)"

fun command_loop ::
  "(json \<Rightarrow> ustring) \<Rightarrow> (to_server option \<times> write_outcome) list \<Rightarrow> nat list \<times> bool" where
  "command_loop pr [] = ([], True)"
| "command_loop pr ((c, w) # xs) =
     (case handle_command pr c w of
        (bs, True) \<Rightarrow> (let (bs', k) = command_loop pr xs in (bs @ bs', k))
      | (bs, False) \<Rightarrow> (bs, False))"

section \<open>Facts about one turn\<close>

lemma handle_read_continues:
  "snd (handle_read parse x) \<longleftrightarrow> (\<exists>line. x = ReadLine line \<and> line \<noteq> [])"
  by (cases x) (auto simp: Let_def split: option.splits)

lemma classify_not_control:
  "classify_server_message msg raw \<noteq> FS_Disconnected \<and> classify_server_message msg raw \<noteq> FS_Connected"
  by (auto simp: classify_server_message_def Let_def split: option.splits)

lemma handle_read_events_going_on:
  assumes "handle_read parse x = (evs, True)"
  shows "FS_Disconnected \<notin> set evs \<and> FS_Connected \<notin> set evs \<and> length evs \<le> 1"
proof (cases x)
  case (ReadLine line)
  with assms show ?thesis
    using classify_not_control
    by (auto simp: Let_def split: if_splits option.splits)
      (metis classify_not_control)+
next
  case (ReadErr e)
  with assms show ?thesis by simp
qed

lemma handle_read_events_stopping:
  "handle_read parse x = (evs, False) \<Longrightarrow> \<exists>pre. evs = pre @ [FS_Disconnected] \<and> FS_Disconnected \<notin> set pre"
  by (cases x) (auto simp: Let_def split: if_splits option.splits)

lemma handle_command_continues:
  "snd (handle_command pr c w) \<longleftrightarrow> (\<exists>x. c = Some x \<and> x \<noteq> Disconnect \<and> w = WriteOk)"
  by (cases "(pr, c, w)" rule: handle_command.cases) auto

lemma handle_command_ok:
  "handle_command pr (Some c) WriteOk = (command_bytes pr c, c \<noteq> Disconnect)"
  by (cases c) (simp_all add: write_all_def)

section \<open>Framing\<close>

text \<open>
  A printer of JSON that never emits a raw newline (\<open>serde_json\<close> escapes control characters in
  strings and its compact form has no white space) keeps the newline free to end a command.
\<close>

definition newline_free :: "(json \<Rightarrow> ustring) \<Rightarrow> bool" where
  "newline_free pr \<longleftrightarrow> (\<forall>v. 10 \<notin> set (pr v))"

lemma command_bytes_line:
  "command_bytes pr c = as_bytes (pr (command_json c)) @ [10]"
  by (simp add: command_bytes_def utf8_char_def)

lemma command_body_newline_free:
  "newline_free pr \<Longrightarrow> 10 \<notin> set (as_bytes (pr v))"
  by (simp add: newline_free_def as_bytes_ascii)

lemma split_command_line:
  "newline_free pr \<Longrightarrow>
   split_on (\<lambda>b. b = 10) (command_bytes pr c @ rest) =
     as_bytes (pr (command_json c)) # split_on (\<lambda>b. b = 10) rest"
  using command_body_newline_free [of pr "command_json c"]
    split_on_none [of "as_bytes (pr (command_json c))" "\<lambda>b. b = 10"]
  by (auto simp: command_bytes_line split_on_append_sep)

end
