(* ===== verification/Network_Properties.thy ===== *)
theory Network_Properties
  imports Network
begin

text \<open>
  The properties of the wire format and of the two loops of the connection task: what the client
  makes of each server message, which lines are errors, what the reader reports over a whole
  stream, and how the commands are framed.
\<close>

section \<open>Server messages\<close>

text \<open>C12: The two confirmations and the relayed message the server sends are read back as the events they stand for, with the room identifier, the room name and the text unchanged, for every identifier, name and text.\<close>

theorem server_messages_round_trip:
  "map_option (\<lambda>m. classify_server_message m raw) (deserialize_incoming (sub_ok_json rid name)) =
     Some (FS_RoomConfirmed rid name False)
   \<and> map_option (\<lambda>m. classify_server_message m raw) (deserialize_incoming (csub_ok_json rid name)) =
     Some (FS_RoomConfirmed rid name True)
   \<and> map_option (\<lambda>m. classify_server_message m raw) (deserialize_incoming (relay_json text name)) =
     Some (FS_Message name text)"
  by (simp add: sub_ok_json_def csub_ok_json_def relay_json_def incoming_fields_def
      build_incoming_def classify_server_message_def)

text \<open>A parsed message is reported as an error in exactly two cases: its type is none of the three the client knows, or it is a confirmation without a non-negative integer as its group. Every other message gives a chat message or a confirmation.\<close>

lemma classify_error_iff:
  "(\<exists>e. classify_server_message msg raw = FS_Error e) \<longleftrightarrow>
     (\<exists>ty. si_msg_type msg = Some ty \<and> ty \<noteq> lit ''message'' \<and>
        \<not> (ty \<in> {lit ''sub_ok'', lit ''csub_ok''} \<and> grp_as_u64 msg \<noteq> None))"
  by (auto simp: classify_server_message_def Let_def split: option.splits)

text \<open>An object of the server is refused exactly when a known member is given twice or a text member is neither text nor null; members of other names never matter.\<close>

lemma deserialize_object_None:
  "deserialize_incoming (JObj es) = None \<longleftrightarrow>
     (\<exists>k\<in>{lit ''message'', lit ''type'', lit ''data'', lit ''grp_name''}.
        \<exists>v. map_of es k = Some v \<and> opt_string v = None)
     \<or> \<not> distinct (filter (\<lambda>k. k \<in> set incoming_fields) (map fst es))"
  by (cases "distinct (filter (\<lambda>k. k \<in> set incoming_fields) (map fst es))")
    (auto simp: build_incoming_None incoming_field_def split: option.splits)

section \<open>The reader\<close>

text \<open>The event one line stands for, if it is not blank.\<close>

definition line_event :: "(ustring \<Rightarrow> json option) \<Rightarrow> ustring \<Rightarrow> from_server" where
  "line_event parse line =
     (case Option.bind (parse (trim line)) deserialize_incoming of
        Some msg \<Rightarrow> classify_server_message msg (trim line)
      | None \<Rightarrow> FS_Error (trim line))"

lemma handle_read_line:
  "line \<noteq> [] \<Longrightarrow>
   handle_read parse (ReadLine line) =
     (if \<forall>c\<in>set line. is_whitespace c then [] else [line_event parse line], True)"
  by (auto simp: Let_def line_event_def from_str_def trim_eq_Nil_iff split: option.splits)

text \<open>Over a stream of lines the reader keeps going and reports one event for each line that is not blank, in the order of the lines; a blank line gives none.\<close>

lemma reader_loop_lines:
  assumes "[] \<notin> set ls"
  shows "reader_loop parse (map ReadLine ls) =
    (map (line_event parse) (filter (\<lambda>l. \<exists>c\<in>set l. \<not> is_whitespace c) ls), True)"
  using assms
proof (induction ls)
  case (Cons l ls)
  then have "l \<noteq> []" and IH: "reader_loop parse (map ReadLine ls) =
      (map (line_event parse) (filter (\<lambda>l. \<exists>c\<in>set l. \<not> is_whitespace c) ls), True)"
    by auto
  from handle_read_line [OF \<open>l \<noteq> []\<close>, of parse] IH show ?case
    by (auto simp del: handle_read.simps)
qed simp

text \<open>The reader reports the end of the connection exactly once and last, when the stream ends or fails, and not while it keeps reading; whether the connection was opened is never its report.\<close>

lemma reader_loop_disconnected:
  assumes "reader_loop parse xs = (evs, k)"
  shows "count_list evs FS_Disconnected = (if k then 0 else 1)
    \<and> (k \<or> last evs = FS_Disconnected) \<and> FS_Connected \<notin> set evs"
  using assms
proof (induction xs arbitrary: evs k)
  case (Cons x xs)
  obtain evs1 k1 where x: "handle_read parse x = (evs1, k1)" by fastforce
  show ?case
  proof (cases k1)
    case True
    obtain evs2 k2 where xs: "reader_loop parse xs = (evs2, k2)" by fastforce
    have "evs = evs1 @ evs2" "k = k2" using Cons.prems x xs True by auto
    moreover have "FS_Disconnected \<notin> set evs1 \<and> FS_Connected \<notin> set evs1"
      using handle_read_events_going_on [of parse x evs1] x True by simp
    ultimately show ?thesis using Cons.IH [OF xs]
      by (cases "evs2 = []") (auto simp: count_list_append count_notin)
  next
    case False
    with Cons.prems x have e: "handle_read parse x = (evs, False)" "k = False" by auto
    then obtain pre where "evs = pre @ [FS_Disconnected]" "FS_Disconnected \<notin> set pre"
      using handle_read_events_stopping by blast
    moreover have "FS_Connected \<notin> set evs"
      using e(1) by (cases x) (auto simp: Let_def split: if_splits option.splits)
    ultimately show ?thesis using e(2) by (simp add: count_list_append count_notin)
  qed
qed simp

section \<open>Commands\<close>

text \<open>Different commands are different JSON values, so the server can tell every command and its arguments apart.\<close>

lemma command_json_injective: "command_json c = command_json d \<longleftrightarrow> c = d"
  by (cases c; cases d) auto

text \<open>For every printer whose text holds no raw newline, splitting the bytes the command loop has written at the newlines gives back the printed commands, one per line and in order, and nothing after the last newline.\<close>

lemma command_loop_framing:
  assumes "newline_free pr" and "Disconnect \<notin> set cmds"
  shows "\<exists>bs. command_loop pr (map (\<lambda>c. (Some c, WriteOk)) cmds) = (bs, True)
    \<and> split_on (\<lambda>b. b = 10) bs = map (\<lambda>c. as_bytes (pr (command_json c))) cmds @ [[]]"
  using assms(2)
proof (induction cmds)
  case (Cons c cmds)
  then obtain bs where bs: "command_loop pr (map (\<lambda>c. (Some c, WriteOk)) cmds) = (bs, True)"
    "split_on (\<lambda>b. b = 10) bs = map (\<lambda>c. as_bytes (pr (command_json c))) cmds @ [[]]"
    by auto
  have "handle_command pr (Some c) WriteOk = (command_bytes pr c, True)"
    using Cons.prems by (auto simp: handle_command_ok)
  with bs have "command_loop pr (map (\<lambda>c. (Some c, WriteOk)) (c # cmds)) =
      (command_bytes pr c @ bs, True)"
    by simp
  moreover have "split_on (\<lambda>b. b = 10) (command_bytes pr c @ bs) =
      map (\<lambda>c. as_bytes (pr (command_json c))) (c # cmds) @ [[]]"
    by (simp add: split_command_line [OF assms(1)] bs(2))
  ultimately show ?case by blast
qed simp

text \<open>The command loop ends at the first command that asks to disconnect, at the first write that fails and at the closed channel, and at nothing else; what comes after the end is never written.\<close>

lemma command_loop_stops:
  assumes "\<And>c w. (c, w) \<in> set xs \<Longrightarrow> (\<exists>x. c = Some x \<and> x \<noteq> Disconnect \<and> w = WriteOk)"
    and "\<not> (\<exists>x. c = Some x \<and> x \<noteq> Disconnect \<and> w = WriteOk)"
  shows "command_loop pr (xs @ (c, w) # ys) =
    (concat (map (\<lambda>(c, w). command_bytes pr (the c)) xs) @ fst (handle_command pr c w), False)"
  using assms(1)
proof (induction xs)
  case Nil
  have "\<not> snd (handle_command pr c w)" using assms(2) by (simp add: handle_command_continues)
  then show ?case by (cases "handle_command pr c w") auto
next
  case (Cons cw xs)
  obtain c' w' where cw: "cw = (c', w')" by fastforce
  with Cons.prems [of c' w'] obtain x where "c' = Some x" "x \<noteq> Disconnect" "w' = WriteOk" by auto
  with cw Cons show ?case by (simp add: handle_command_ok)
qed

end
