(* ===== verification/Channels.thy ===== *)
theory Channels
  imports Prelude
begin

text \<open>
  The two bounded channels of a connection (\<open>mpsc::channel(64)\<close> for commands,
  \<open>mpsc::channel(256)\<close> for events, both made in \<open>connect_screen.rs\<close>). The channels are a library
  the client only calls, so they are a parameter: \<open>mk cap\<close> of type \<open>channel\<close> is what
  \<open>mpsc::channel(cap)\<close> gives, a new queue with its send (\<open>None\<close> while it has to wait) and its
  receive (\<open>None\<close> while nothing is there). What the library documents about them is the locale
  \<open>bounded_fifo\<close>; a theorem that needs it has \<open>channel_laws\<close> as a hypothesis.
\<close>

record ('a, 'q) channel =
  ch_new :: 'q
  ch_send :: "'a \<Rightarrow> 'q \<Rightarrow> 'q option"
  ch_recv :: "'q \<Rightarrow> ('a \<times> 'q) option"

definition command_capacity :: nat where
  "command_capacity = 64"

definition event_capacity :: nat where
  "event_capacity = 256"

locale bounded_fifo =
  fixes cap :: nat
    and content :: "'q \<Rightarrow> 'a list"
    and new :: 'q
    and send :: "'a \<Rightarrow> 'q \<Rightarrow> 'q option"
    and recv :: "'q \<Rightarrow> ('a \<times> 'q) option"
  assumes new_content: "content new = []"
    and send_content: "send x q = Some q' \<Longrightarrow> content q' = content q @ [x]"
    and send_full: "send x q = None \<longleftrightarrow> cap \<le> length (content q)"
    and recv_content: "recv q = Some (x, q') \<Longrightarrow> content q = x # content q'"
    and recv_empty: "recv q = None \<longleftrightarrow> content q = []"
begin

lemma send_bound:
  assumes "send x q = Some q'"
  shows "length (content q') \<le> cap"
proof -
  have "\<not> cap \<le> length (content q)" using assms send_full [of x q] by simp
  with send_content [OF assms] show ?thesis by simp
qed

lemma recv_bound: "recv q = Some (x, q') \<Longrightarrow> length (content q) \<le> n \<Longrightarrow> length (content q') \<le> n"
  using recv_content [of q x q'] by simp

lemma recv_waiting: "content q = x # xs \<Longrightarrow> \<exists>q'. recv q = Some (x, q') \<and> content q' = xs"
  using recv_empty [of q] recv_content [of q] by (cases "recv q") auto

lemma send_room: "length (content q) < cap \<Longrightarrow> \<exists>q'. send x q = Some q' \<and> content q' = content q @ [x]"
  using send_full [of x q] send_content [of x q] by (cases "send x q") auto

end

definition channel_laws :: "(nat \<Rightarrow> ('a, 'q) channel) \<Rightarrow> ('q \<Rightarrow> 'a list) \<Rightarrow> bool" where
  "channel_laws mk content \<longleftrightarrow>
     (\<forall>cap. bounded_fifo cap content (ch_new (mk cap)) (ch_send (mk cap)) (ch_recv (mk cap)))"

text \<open>A channel with these laws: a list. It is what the runs below are evaluated with.\<close>

definition vec_send :: "nat \<Rightarrow> 'a \<Rightarrow> 'a list \<Rightarrow> 'a list option" where
  "vec_send cap x q = (if length q < cap then Some (q @ [x]) else None)"

fun vec_recv :: "'a list \<Rightarrow> ('a \<times> 'a list) option" where
  "vec_recv [] = None"
| "vec_recv (x # q) = Some (x, q)"

definition vec_channel :: "nat \<Rightarrow> ('a, 'a list) channel" where
  "vec_channel cap = \<lparr>ch_new = [], ch_send = vec_send cap, ch_recv = vec_recv\<rparr>"

interpretation vec: bounded_fifo cap id "[]" "vec_send cap" vec_recv for cap
proof
  show "vec_recv q = Some (x, q') \<Longrightarrow> id q = x # id q'" for q q' :: "'a list" and x
    by (cases q) auto
  show "vec_recv q = None \<longleftrightarrow> id q = []" for q :: "'a list"
    by (cases q) auto
qed (auto simp: vec_send_def split: if_splits)

lemma vec_channel_laws: "channel_laws vec_channel id"
  by (simp add: channel_laws_def vec_channel_def vec.bounded_fifo_axioms)

end
