(* ===== verification/Conn_Task.thy ===== *)
theory Conn_Task
  imports Network Channels
begin

text \<open>
  \<open>tcp_connection_task\<close> of \<open>ui/src/network.rs\<close> as two concurrent processes: the task itself, which
  connects, reports, runs the command loop and reports again, and the reader it spawns. The
  steps of the two, of the socket and of the client at the other ends of the channels interleave
  in any order, so they are a step relation: \<open>task_step\<close> are the steps of the two processes,
  \<open>conn_step\<close> adds the client's.

  A send to a full event channel waits (the process has no step); a send after the client has
  replaced the receiver is lost and is no error (\<open>let _ =\<close>). \<open>abort\<close> asks the runtime to cancel
  the reader, which may still take steps until it does. \<open>tk_sent\<close>, \<open>tk_taken\<close> and \<open>tk_polled\<close>
  record what the task sent and took and what the client polled; they influence no step.
\<close>

text \<open>The libraries: the channels, and the printer and the parser of JSON.\<close>

record ('c, 'e) runtime =
  rt_commands :: "nat \<Rightarrow> (to_server, 'c) channel"
  rt_events :: "nat \<Rightarrow> (from_server, 'e) channel"
  rt_print :: "json \<Rightarrow> ustring"
  rt_parse :: "ustring \<Rightarrow> json option"

abbreviation command_channel :: "('c, 'e) runtime \<Rightarrow> (to_server, 'c) channel" where
  "command_channel rt \<equiv> rt_commands rt command_capacity"

abbreviation event_channel :: "('c, 'e) runtime \<Rightarrow> (from_server, 'e) channel" where
  "event_channel rt \<equiv> rt_events rt event_capacity"

datatype main_pc =
    MainConnecting
  | MainSending "from_server list" bool
  | MainLoop
  | MainDone

datatype reader_pc =
    ReaderOff
  | ReaderReading
  | ReaderSending "from_server list" bool
  | ReaderStopped

record ('c, 'e) conn_task =
  tk_main :: main_pc
  tk_reader :: reader_pc
  tk_aborted :: bool
  tk_senders :: bool
  tk_listening :: bool
  tk_cmds :: 'c
  tk_events :: 'e
  tk_wire :: "nat list"
  tk_sent :: "from_server list"
  tk_taken :: "to_server list"
  tk_polled :: "from_server list"

definition init_task :: "('c, 'e) runtime \<Rightarrow> ('c, 'e) conn_task" where
  "init_task rt =
     \<lparr>tk_main = MainConnecting, tk_reader = ReaderOff, tk_aborted = False, tk_senders = True,
      tk_listening = True, tk_cmds = ch_new (command_channel rt),
      tk_events = ch_new (event_channel rt), tk_wire = [], tk_sent = [], tk_taken = [],
      tk_polled = []\<rparr>"

text \<open>\<open>event_tx.send(ev).await\<close>: \<open>None\<close> while it has to wait.\<close>

definition send_event ::
  "('c, 'e) runtime \<Rightarrow> from_server \<Rightarrow> ('c, 'e) conn_task \<Rightarrow> ('c, 'e) conn_task option" where
  "send_event rt ev t =
     (if tk_listening t then
        map_option (\<lambda>q. t\<lparr>tk_events := q, tk_sent := tk_sent t @ [ev]\<rparr>)
          (ch_send (event_channel rt) ev (tk_events t))
      else Some (t\<lparr>tk_sent := tk_sent t @ [ev]\<rparr>))"

text \<open>What the task sends once the attempt to connect is decided (\<open>Some e\<close>: it failed with \<open>e\<close>).\<close>

definition connect_report :: "ustring option \<Rightarrow> from_server list" where
  "connect_report failure =
     (case failure of
        None \<Rightarrow> [FS_Connected]
      | Some e \<Rightarrow> [FS_Error (lit ''Connection failed: '' @ e), FS_Disconnected])"

text \<open>Leaving the command loop: the reader is aborted and the end reported.\<close>

definition leave_loop :: "('c, 'e) conn_task \<Rightarrow> ('c, 'e) conn_task" where
  "leave_loop t = t\<lparr>tk_aborted := True, tk_main := MainSending [FS_Disconnected] False\<rparr>"

inductive task_step :: "('c, 'e) runtime \<Rightarrow> ('c, 'e) conn_task \<Rightarrow> ('c, 'e) conn_task \<Rightarrow> bool"
  for rt :: "('c, 'e) runtime" where
  connect: "tk_main t = MainConnecting \<Longrightarrow>
     task_step rt t (t\<lparr>tk_main := MainSending (connect_report failure) (failure = None)\<rparr>)"
| main_send: "tk_main t = MainSending (ev # evs) k \<Longrightarrow> send_event rt ev t = Some t' \<Longrightarrow>
     task_step rt t (t'\<lparr>tk_main := MainSending evs k\<rparr>)"
| main_start: "tk_main t = MainSending [] True \<Longrightarrow>
     task_step rt t (t\<lparr>tk_main := MainLoop, tk_reader := ReaderReading\<rparr>)"
| main_finish: "tk_main t = MainSending [] False \<Longrightarrow>
     task_step rt t (t\<lparr>tk_main := MainDone\<rparr>)"
| take_command: "tk_main t = MainLoop \<Longrightarrow>
     ch_recv (command_channel rt) (tk_cmds t) = Some (c, cs) \<Longrightarrow>
     handle_command (rt_print rt) (Some c) w = (bs, k) \<Longrightarrow>
     t1 = t\<lparr>tk_cmds := cs, tk_taken := tk_taken t @ [c], tk_wire := tk_wire t @ bs\<rparr> \<Longrightarrow>
     task_step rt t (if k then t1 else leave_loop t1)"
| commands_closed: "tk_main t = MainLoop \<Longrightarrow> \<not> tk_senders t \<Longrightarrow>
     ch_recv (command_channel rt) (tk_cmds t) = None \<Longrightarrow> task_step rt t (leave_loop t)"
| read: "tk_reader t = ReaderReading \<Longrightarrow> handle_read (rt_parse rt) x = (evs, k) \<Longrightarrow>
     task_step rt t (t\<lparr>tk_reader := ReaderSending evs k\<rparr>)"
| reader_send: "tk_reader t = ReaderSending (ev # evs) k \<Longrightarrow> send_event rt ev t = Some t' \<Longrightarrow>
     task_step rt t (t'\<lparr>tk_reader := ReaderSending evs k\<rparr>)"
| reader_again: "tk_reader t = ReaderSending [] True \<Longrightarrow>
     task_step rt t (t\<lparr>tk_reader := ReaderReading\<rparr>)"
| reader_stop: "tk_reader t = ReaderSending [] False \<Longrightarrow>
     task_step rt t (t\<lparr>tk_reader := ReaderStopped\<rparr>)"
| reader_cancelled: "tk_aborted t \<Longrightarrow> task_step rt t (t\<lparr>tk_reader := ReaderStopped\<rparr>)"

inductive_cases task_stepE: "task_step rt t t'"

text \<open>
  The client's side: a spawned task hands over a command (not to a task that has returned, whose
  receiver is gone), the poller takes an event, and the last sender or the receiver is dropped.
\<close>

inductive conn_step :: "('c, 'e) runtime \<Rightarrow> ('c, 'e) conn_task \<Rightarrow> ('c, 'e) conn_task \<Rightarrow> bool"
  for rt :: "('c, 'e) runtime" where
  task: "task_step rt t t' \<Longrightarrow> conn_step rt t t'"
| client_command: "tk_senders t \<Longrightarrow> tk_main t \<noteq> MainDone \<Longrightarrow>
     ch_send (command_channel rt) c (tk_cmds t) = Some cs \<Longrightarrow>
     conn_step rt t (t\<lparr>tk_cmds := cs\<rparr>)"
| client_poll: "tk_listening t \<Longrightarrow> ch_recv (event_channel rt) (tk_events t) = Some (ev, evs) \<Longrightarrow>
     conn_step rt t (t\<lparr>tk_events := evs, tk_polled := tk_polled t @ [ev]\<rparr>)"
| senders_dropped: "conn_step rt t (t\<lparr>tk_senders := False\<rparr>)"
| receiver_dropped: "conn_step rt t (t\<lparr>tk_listening := False\<rparr>)"

inductive_cases conn_stepE: "conn_step rt t t'"

inductive conn_reachable :: "('c, 'e) runtime \<Rightarrow> ('c, 'e) conn_task \<Rightarrow> bool"
  for rt :: "('c, 'e) runtime" where
  start: "conn_reachable rt (init_task rt)"
| step: "conn_reachable rt t \<Longrightarrow> conn_step rt t t' \<Longrightarrow> conn_reachable rt t'"

section \<open>Invariants\<close>

text \<open>A connection whose first report is the failure never starts its reader and its loop.\<close>

definition failed_report :: "from_server list \<Rightarrow> bool" where
  "failed_report evs \<longleftrightarrow> (\<exists>e. evs = connect_report (Some e))"

text \<open>\<open>Connected\<close> was sent, first and only then.\<close>

definition connected_once :: "from_server list \<Rightarrow> bool" where
  "connected_once evs \<longleftrightarrow> (\<exists>rest. evs = FS_Connected # rest \<and> FS_Connected \<notin> set rest)"

fun reader_pending :: "reader_pc \<Rightarrow> from_server list" where
  "reader_pending (ReaderSending evs k) = evs"
| "reader_pending _ = []"

fun main_inv :: "main_pc \<Rightarrow> ('c, 'e) conn_task \<Rightarrow> bool" where
  "main_inv MainConnecting t \<longleftrightarrow> tk_sent t = [] \<and> tk_reader t = ReaderOff \<and> \<not> tk_aborted t"
| "main_inv (MainSending evs True) t \<longleftrightarrow>
     tk_sent t @ evs = connect_report None \<and> tk_reader t = ReaderOff \<and> \<not> tk_aborted t"
| "main_inv (MainSending evs False) t \<longleftrightarrow>
     failed_report (tk_sent t @ evs) \<and> tk_reader t = ReaderOff \<and> \<not> tk_aborted t \<or>
     connected_once (tk_sent t) \<and> tk_aborted t \<and> FS_Disconnected \<in> set (tk_sent t @ evs) \<and>
       FS_Connected \<notin> set evs"
| "main_inv MainLoop t \<longleftrightarrow> connected_once (tk_sent t) \<and> \<not> tk_aborted t"
| "main_inv MainDone t \<longleftrightarrow>
     failed_report (tk_sent t) \<and> tk_reader t = ReaderOff \<and> \<not> tk_aborted t \<or>
     connected_once (tk_sent t) \<and> tk_aborted t \<and> FS_Disconnected \<in> set (tk_sent t)"

fun reader_inv :: "reader_pc \<Rightarrow> ('c, 'e) conn_task \<Rightarrow> bool" where
  "reader_inv (ReaderSending evs k) t \<longleftrightarrow>
     FS_Connected \<notin> set evs \<and> (k \<or> FS_Disconnected \<in> set (tk_sent t @ evs))"
| "reader_inv ReaderStopped t \<longleftrightarrow> tk_aborted t \<or> FS_Disconnected \<in> set (tk_sent t)"
| "reader_inv _ t \<longleftrightarrow> True"

definition conn_inv :: "('c, 'e) conn_task \<Rightarrow> bool" where
  "conn_inv t \<longleftrightarrow> main_inv (tk_main t) t \<and> reader_inv (tk_reader t) t"

lemma handle_read_pending:
  assumes "handle_read parse x = (evs, k)"
  shows "FS_Connected \<notin> set evs \<and> (k \<or> FS_Disconnected \<in> set evs)"
proof (cases k)
  case True
  with assms have "handle_read parse x = (evs, True)" by simp
  from handle_read_events_going_on [OF this] True show ?thesis by simp
next
  case False
  with assms show ?thesis by (cases x) (auto simp: Let_def split: if_splits option.splits)
qed

lemma send_event_fields:
  assumes "send_event rt ev t = Some t'"
  shows "tk_sent t' = tk_sent t @ [ev]" "tk_main t' = tk_main t" "tk_reader t' = tk_reader t"
    "tk_aborted t' = tk_aborted t" "tk_wire t' = tk_wire t" "tk_taken t' = tk_taken t"
    "tk_cmds t' = tk_cmds t" "tk_polled t' = tk_polled t"
    "tk_senders t' = tk_senders t" "tk_listening t' = tk_listening t"
  using assms by (auto simp: send_event_def split: if_splits)

lemma connected_once_snoc: "connected_once evs \<Longrightarrow> ev \<noteq> FS_Connected \<Longrightarrow> connected_once (evs @ [ev])"
  by (auto simp: connected_once_def)

lemma main_inv_cong:
  "tk_sent t' = tk_sent t \<Longrightarrow> tk_reader t' = tk_reader t \<Longrightarrow> tk_aborted t' = tk_aborted t \<Longrightarrow>
   main_inv pc t' = main_inv pc t"
  by (cases "(pc, t)" rule: main_inv.cases) simp_all

lemma reader_inv_cong:
  "tk_sent t' = tk_sent t \<Longrightarrow> tk_aborted t' = tk_aborted t \<Longrightarrow> reader_inv pc t' = reader_inv pc t"
  by (cases pc) simp_all

lemma main_inv_running:
  assumes "main_inv pc t" "tk_reader t \<noteq> ReaderOff"
  shows "connected_once (tk_sent t)"
  using assms by (cases "(pc, t)" rule: main_inv.cases) auto

lemma conn_invI: "main_inv (tk_main t) t \<Longrightarrow> reader_inv (tk_reader t) t \<Longrightarrow> conn_inv t"
  by (simp add: conn_inv_def)

lemma conn_inv_cong:
  assumes "tk_sent t' = tk_sent t" "tk_reader t' = tk_reader t" "tk_aborted t' = tk_aborted t"
    "tk_main t' = tk_main t"
  shows "conn_inv t' = conn_inv t"
  using main_inv_cong [OF assms(1-3)] reader_inv_cong [OF assms(1,3)] assms
  by (simp add: conn_inv_def)

lemma conn_inv_channels [simp]:
  "conn_inv (t\<lparr>tk_cmds := cs\<rparr>) = conn_inv t"
  "conn_inv (t\<lparr>tk_events := evs\<rparr>) = conn_inv t"
  "conn_inv (t\<lparr>tk_events := evs, tk_polled := ps\<rparr>) = conn_inv t"
  "conn_inv (t\<lparr>tk_senders := b\<rparr>) = conn_inv t"
  "conn_inv (t\<lparr>tk_listening := b\<rparr>) = conn_inv t"
  by (rule conn_inv_cong; simp)+

text \<open>Sending by the task itself, by the reader, and leaving the loop.\<close>

lemma main_send_inv:
  assumes "conn_inv t" "tk_main t = MainSending (ev # evs) k" "send_event rt ev t = Some t'"
  shows "conn_inv (t'\<lparr>tk_main := MainSending evs k\<rparr>)"
proof (rule conn_invI)
  note f = send_event_fields [OF assms(3)]
  show "main_inv (tk_main (t'\<lparr>tk_main := MainSending evs k\<rparr>)) (t'\<lparr>tk_main := MainSending evs k\<rparr>)"
    using assms(1,2) f by (cases k) (auto simp: conn_inv_def intro: connected_once_snoc)
  show "reader_inv (tk_reader (t'\<lparr>tk_main := MainSending evs k\<rparr>)) (t'\<lparr>tk_main := MainSending evs k\<rparr>)"
    using assms(1) f by (cases "tk_reader t") (auto simp: conn_inv_def)
qed

lemma main_inv_reader_sends:
  assumes "main_inv pc t" "tk_reader t \<noteq> ReaderOff" "ev \<noteq> FS_Connected"
    and "tk_sent t' = tk_sent t @ [ev]" "tk_aborted t' = tk_aborted t"
  shows "main_inv pc t'"
  using assms
  by (cases "(pc, t)" rule: main_inv.cases) (auto intro: connected_once_snoc)

lemma reader_send_inv:
  assumes "conn_inv t" "tk_reader t = ReaderSending (ev # evs) k" "send_event rt ev t = Some t'"
  shows "conn_inv (t'\<lparr>tk_reader := ReaderSending evs k\<rparr>)"
proof (rule conn_invI)
  note f = send_event_fields [OF assms(3)]
  have "reader_inv (ReaderSending (ev # evs) k) t" using assms(1,2) by (simp add: conn_inv_def)
  then have r: "ev \<noteq> FS_Connected" "FS_Connected \<notin> set evs"
    "k \<or> FS_Disconnected \<in> set (tk_sent t @ ev # evs)" by auto
  from r f show "reader_inv (tk_reader (t'\<lparr>tk_reader := ReaderSending evs k\<rparr>))
      (t'\<lparr>tk_reader := ReaderSending evs k\<rparr>)" by auto
  have "main_inv (tk_main t) t" using assms(1) by (simp add: conn_inv_def)
  then have "main_inv (tk_main t) (t'\<lparr>tk_reader := ReaderSending evs k\<rparr>)"
    by (rule main_inv_reader_sends) (use assms(2) r f in auto)
  then show "main_inv (tk_main (t'\<lparr>tk_reader := ReaderSending evs k\<rparr>))
      (t'\<lparr>tk_reader := ReaderSending evs k\<rparr>)" using f by simp
qed

lemma main_inv_reader_moves:
  "main_inv pc t \<Longrightarrow> tk_reader t \<noteq> ReaderOff \<or> tk_aborted t \<Longrightarrow>
   main_inv pc (t\<lparr>tk_reader := rpc\<rparr>)"
  by (cases "(pc, t)" rule: main_inv.cases) auto

lemma leave_loop_inv:
  assumes "main_inv MainLoop t" "reader_inv (tk_reader t) t"
  shows "conn_inv (leave_loop t)"
proof (rule conn_invI)
  show "main_inv (tk_main (leave_loop t)) (leave_loop t)"
    using assms(1) by (simp add: leave_loop_def)
  show "reader_inv (tk_reader (leave_loop t)) (leave_loop t)"
    using assms(2) by (cases "tk_reader t") (auto simp: leave_loop_def)
qed

lemma take_command_inv:
  assumes "conn_inv t" "tk_main t = MainLoop"
    and "t1 = t\<lparr>tk_cmds := cs, tk_taken := tk, tk_wire := bs\<rparr>"
  shows "conn_inv (if k then t1 else leave_loop t1)"
proof -
  have "main_inv MainLoop t1"
    using assms by (subst main_inv_cong [of _ t]) (simp_all add: conn_inv_def)
  moreover have "reader_inv (tk_reader t1) t1"
    using assms by (subst reader_inv_cong [of _ t]) (simp_all add: conn_inv_def)
  moreover have "tk_main t1 = MainLoop" using assms by simp
  ultimately show ?thesis by (simp add: leave_loop_inv conn_invI)
qed

lemma task_step_inv: "task_step rt t t' \<Longrightarrow> conn_inv t \<Longrightarrow> conn_inv t'"
proof (induction rule: task_step.induct)
  case (connect t failure)
  then show ?case
    by (cases failure) (auto simp: conn_inv_def failed_report_def connect_report_def)
next
  case (main_send t ev evs k t')
  then show ?case by (blast intro: main_send_inv)
next
  case (main_start t)
  then show ?case by (auto simp: conn_inv_def connect_report_def connected_once_def)
next
  case (main_finish t)
  then show ?case
    by (cases "tk_reader t") (auto simp: conn_inv_def)
next
  case (take_command t c cs w bs k t1)
  then show ?case by (blast intro: take_command_inv)
next
  case (commands_closed t)
  then show ?case by (intro leave_loop_inv) (simp_all add: conn_inv_def)
next
  case (read t x evs k)
  then show ?case
    using main_inv_reader_moves [of "tk_main t" t] handle_read_pending [of "rt_parse rt" x evs k]
    by (auto simp: conn_inv_def)
next
  case (reader_send t ev evs k t')
  then show ?case by (blast intro: reader_send_inv)
next
  case (reader_again t)
  then show ?case using main_inv_reader_moves [of "tk_main t" t] by (auto simp: conn_inv_def)
next
  case (reader_stop t)
  then show ?case using main_inv_reader_moves [of "tk_main t" t] by (auto simp: conn_inv_def)
next
  case (reader_cancelled t)
  then show ?case using main_inv_reader_moves [of "tk_main t" t] by (auto simp: conn_inv_def)
qed

lemma conn_step_inv: "conn_step rt t t' \<Longrightarrow> conn_inv t \<Longrightarrow> conn_inv t'"
  by (erule conn_stepE) (auto intro: task_step_inv)

lemma conn_reachable_inv: "conn_reachable rt t \<Longrightarrow> conn_inv t"
proof (induction rule: conn_reachable.induct)
  case start
  show ?case by (simp add: conn_inv_def init_task_def)
next
  case (step t t')
  then show ?case by (blast intro: conn_step_inv)
qed

end
