(* ===== verification/Conn_Exec.thy ===== *)
theory Conn_Exec
  imports Conn_Task
begin

text \<open>
  The connection task as a function of what its environment decides: a label names the process
  that moves next and what the socket gives it. The step relation is exactly the function's graph,
  so a schedule can be evaluated.
\<close>

datatype task_label =
    DoConnect "ustring option"
  | DoMainSend
  | DoMainGo
  | DoCommand write_outcome
  | DoClosed
  | DoRead read_outcome
  | DoReaderSend
  | DoReaderGo
  | DoCancel

fun main_send_next :: "('c, 'e) runtime \<Rightarrow> main_pc \<Rightarrow> ('c, 'e) conn_task \<Rightarrow> ('c, 'e) conn_task option" where
  "main_send_next rt (MainSending (ev # evs) k) t =
     map_option (\<lambda>t'. t'\<lparr>tk_main := MainSending evs k\<rparr>) (send_event rt ev t)"
| "main_send_next rt _ t = None"

fun main_go_next :: "main_pc \<Rightarrow> ('c, 'e) conn_task \<Rightarrow> ('c, 'e) conn_task option" where
  "main_go_next (MainSending [] True) t = Some (t\<lparr>tk_main := MainLoop, tk_reader := ReaderReading\<rparr>)"
| "main_go_next (MainSending [] False) t = Some (t\<lparr>tk_main := MainDone\<rparr>)"
| "main_go_next _ t = None"

fun reader_send_next ::
  "('c, 'e) runtime \<Rightarrow> reader_pc \<Rightarrow> ('c, 'e) conn_task \<Rightarrow> ('c, 'e) conn_task option" where
  "reader_send_next rt (ReaderSending (ev # evs) k) t =
     map_option (\<lambda>t'. t'\<lparr>tk_reader := ReaderSending evs k\<rparr>) (send_event rt ev t)"
| "reader_send_next rt _ t = None"

fun reader_go_next :: "reader_pc \<Rightarrow> ('c, 'e) conn_task \<Rightarrow> ('c, 'e) conn_task option" where
  "reader_go_next (ReaderSending [] k) t =
     Some (t\<lparr>tk_reader := (if k then ReaderReading else ReaderStopped)\<rparr>)"
| "reader_go_next _ t = None"

definition command_next ::
  "('c, 'e) runtime \<Rightarrow> write_outcome \<Rightarrow> ('c, 'e) conn_task \<Rightarrow> ('c, 'e) conn_task option" where
  "command_next rt w t =
     map_option (\<lambda>(c, cs).
         let (bs, k) = handle_command (rt_print rt) (Some c) w;
             t1 = t\<lparr>tk_cmds := cs, tk_taken := tk_taken t @ [c], tk_wire := tk_wire t @ bs\<rparr>
         in if k then t1 else leave_loop t1)
       (ch_recv (command_channel rt) (tk_cmds t))"

fun task_exec :: "('c, 'e) runtime \<Rightarrow> task_label \<Rightarrow> ('c, 'e) conn_task \<Rightarrow> ('c, 'e) conn_task option" where
  "task_exec rt (DoConnect failure) t =
     (if tk_main t = MainConnecting
      then Some (t\<lparr>tk_main := MainSending (connect_report failure) (failure = None)\<rparr>) else None)"
| "task_exec rt DoMainSend t = main_send_next rt (tk_main t) t"
| "task_exec rt DoMainGo t = main_go_next (tk_main t) t"
| "task_exec rt (DoCommand w) t = (if tk_main t = MainLoop then command_next rt w t else None)"
| "task_exec rt DoClosed t =
     (if tk_main t = MainLoop \<and> \<not> tk_senders t \<and>
         Option.is_none (ch_recv (command_channel rt) (tk_cmds t))
      then Some (leave_loop t) else None)"
| "task_exec rt (DoRead x) t =
     (if tk_reader t = ReaderReading
      then (let (evs, k) = handle_read (rt_parse rt) x in Some (t\<lparr>tk_reader := ReaderSending evs k\<rparr>))
      else None)"
| "task_exec rt DoReaderSend t = reader_send_next rt (tk_reader t) t"
| "task_exec rt DoReaderGo t = reader_go_next (tk_reader t) t"
| "task_exec rt DoCancel t = (if tk_aborted t then Some (t\<lparr>tk_reader := ReaderStopped\<rparr>) else None)"

lemma command_next_step:
  assumes "command_next rt w t = Some t'" "tk_main t = MainLoop"
  shows "task_step rt t t'"
proof -
  from assms(1) obtain c cs where recv: "ch_recv (command_channel rt) (tk_cmds t) = Some (c, cs)"
    by (auto simp: command_next_def)
  obtain bs k where turn: "handle_command (rt_print rt) (Some c) w = (bs, k)" by force
  from task_step.take_command [OF assms(2) recv turn refl] assms(1) recv turn show ?thesis
    by (auto simp: command_next_def Let_def)
qed

lemma task_exec_sound: "task_exec rt l t = Some t' \<Longrightarrow> task_step rt t t'"
proof (cases l)
  case (DoConnect failure)
  then show "task_exec rt l t = Some t' \<Longrightarrow> ?thesis" by (auto intro: task_step.connect split: if_splits)
next
  case DoMainSend
  then show "task_exec rt l t = Some t' \<Longrightarrow> ?thesis"
    by (cases "(rt, tk_main t, t)" rule: main_send_next.cases) (auto intro: task_step.main_send)
next
  case DoMainGo
  then show "task_exec rt l t = Some t' \<Longrightarrow> ?thesis"
    by (cases "(tk_main t, t)" rule: main_go_next.cases)
      (auto intro: task_step.main_start task_step.main_finish)
next
  case (DoCommand w)
  show "task_exec rt l t = Some t' \<Longrightarrow> ?thesis"
    by (rule command_next_step) (use DoCommand in \<open>simp_all split: if_splits\<close>)
next
  case DoClosed
  then show "task_exec rt l t = Some t' \<Longrightarrow> ?thesis"
    by (auto simp: Option.is_none_def intro: task_step.commands_closed split: if_splits)
next
  case (DoRead x)
  then show "task_exec rt l t = Some t' \<Longrightarrow> ?thesis"
    by (auto intro: task_step.read split: if_splits prod.splits)
next
  case DoReaderSend
  then show "task_exec rt l t = Some t' \<Longrightarrow> ?thesis"
    by (cases "(rt, tk_reader t, t)" rule: reader_send_next.cases) (auto intro: task_step.reader_send)
next
  case DoReaderGo
  then show "task_exec rt l t = Some t' \<Longrightarrow> ?thesis"
    by (cases "(tk_reader t, t)" rule: reader_go_next.cases)
      (auto intro: task_step.reader_again task_step.reader_stop split: if_splits)
next
  case DoCancel
  then show "task_exec rt l t = Some t' \<Longrightarrow> ?thesis"
    by (auto intro: task_step.reader_cancelled split: if_splits)
qed

lemma task_exec_complete: "task_step rt t t' \<Longrightarrow> \<exists>l. task_exec rt l t = Some t'"
proof (induction rule: task_step.induct)
  case (connect t failure)
  then have "task_exec rt (DoConnect failure) t =
      Some (t\<lparr>tk_main := MainSending (connect_report failure) (failure = None)\<rparr>)" by simp
  then show ?case ..
next
  case (take_command t c cs w bs k t1)
  then have "task_exec rt (DoCommand w) t = Some (if k then t1 else leave_loop t1)"
    by (simp add: command_next_def Let_def)
  then show ?case ..
next
  case (commands_closed t)
  then have "task_exec rt DoClosed t = Some (leave_loop t)" by simp
  then show ?case ..
next
  case (read t x evs k)
  then have "task_exec rt (DoRead x) t = Some (t\<lparr>tk_reader := ReaderSending evs k\<rparr>)" by simp
  then show ?case ..
next
  case (main_send t ev evs k t')
  then have "task_exec rt DoMainSend t = Some (t'\<lparr>tk_main := MainSending evs k\<rparr>)" by simp
  then show ?case ..
next
  case (main_start t)
  then have "task_exec rt DoMainGo t = Some (t\<lparr>tk_main := MainLoop, tk_reader := ReaderReading\<rparr>)"
    by simp
  then show ?case ..
next
  case (main_finish t)
  then have "task_exec rt DoMainGo t = Some (t\<lparr>tk_main := MainDone\<rparr>)" by simp
  then show ?case ..
next
  case (reader_send t ev evs k t')
  then have "task_exec rt DoReaderSend t = Some (t'\<lparr>tk_reader := ReaderSending evs k\<rparr>)" by simp
  then show ?case ..
next
  case (reader_again t)
  then have "task_exec rt DoReaderGo t = Some (t\<lparr>tk_reader := ReaderReading\<rparr>)" by simp
  then show ?case ..
next
  case (reader_stop t)
  then have "task_exec rt DoReaderGo t = Some (t\<lparr>tk_reader := ReaderStopped\<rparr>)" by simp
  then show ?case ..
next
  case (reader_cancelled t)
  then have "task_exec rt DoCancel t = Some (t\<lparr>tk_reader := ReaderStopped\<rparr>)" by simp
  then show ?case ..
qed

lemma task_step_iff: "task_step rt t t' \<longleftrightarrow> (\<exists>l. task_exec rt l t = Some t')"
  using task_exec_sound task_exec_complete by blast

section \<open>Schedules of a connection with its client\<close>

datatype conn_label =
    DoTask task_label
  | DoClientCommand to_server
  | DoClientPoll
  | DoDropSenders
  | DoDropReceiver

fun conn_exec :: "('c, 'e) runtime \<Rightarrow> conn_label \<Rightarrow> ('c, 'e) conn_task \<Rightarrow> ('c, 'e) conn_task option" where
  "conn_exec rt (DoTask l) t = task_exec rt l t"
| "conn_exec rt (DoClientCommand c) t =
     (if tk_senders t \<and> tk_main t \<noteq> MainDone
      then map_option (\<lambda>cs. t\<lparr>tk_cmds := cs\<rparr>) (ch_send (command_channel rt) c (tk_cmds t))
      else None)"
| "conn_exec rt DoClientPoll t =
     (if tk_listening t
      then map_option (\<lambda>(ev, evs). t\<lparr>tk_events := evs, tk_polled := tk_polled t @ [ev]\<rparr>)
             (ch_recv (event_channel rt) (tk_events t))
      else None)"
| "conn_exec rt DoDropSenders t = Some (t\<lparr>tk_senders := False\<rparr>)"
| "conn_exec rt DoDropReceiver t = Some (t\<lparr>tk_listening := False\<rparr>)"

fun run_schedule :: "('l \<Rightarrow> 's \<Rightarrow> 's option) \<Rightarrow> 'l list \<Rightarrow> 's \<Rightarrow> 's option" where
  "run_schedule exec [] t = Some t"
| "run_schedule exec (l # ls) t = Option.bind (exec l t) (run_schedule exec ls)"

lemma conn_exec_sound: "conn_exec rt l t = Some t' \<Longrightarrow> conn_step rt t t'"
  by (cases l) (auto intro: conn_step.intros task_exec_sound split: if_splits)

lemma run_schedule_reachable:
  "run_schedule (conn_exec rt) ls t = Some t' \<Longrightarrow> conn_reachable rt t \<Longrightarrow> conn_reachable rt t'"
  by (induction ls arbitrary: t)
    (auto simp: bind_eq_Some_conv dest: conn_exec_sound conn_reachable.step)

text \<open>
  The libraries to evaluate schedules with: list channels, the compact printer and a parser that
  reads nothing.
\<close>

definition vec_runtime :: "(to_server list, from_server list) runtime" where
  "vec_runtime =
     \<lparr>rt_commands = vec_channel, rt_events = vec_channel, rt_print = compact_json,
      rt_parse = (\<lambda>s. None)\<rparr>"

text \<open>A connection that connects, sends one message, reads a line and is told to disconnect.\<close>

definition example_running :: "(to_server list, from_server list) conn_task" where
  "example_running = the (run_schedule (conn_exec vec_runtime)
     [DoTask (DoConnect None), DoTask DoMainSend, DoTask DoMainGo,
      DoClientCommand (SendMessage 1 (lit ''hi'')), DoTask (DoCommand WriteOk),
      DoTask (DoRead (ReadLine (lit ''bad''))), DoTask DoReaderSend, DoClientPoll,
      DoClientCommand Disconnect] (init_task vec_runtime))"

definition example_done :: "(to_server list, from_server list) conn_task" where
  "example_done = the (run_schedule (conn_exec vec_runtime)
     [DoTask (DoCommand (WriteErr 3)), DoTask DoMainSend, DoTask DoMainGo, DoTask DoCancel]
     example_running)"

lemma example_running_value:
  "run_schedule (conn_exec vec_runtime)
     [DoTask (DoConnect None), DoTask DoMainSend, DoTask DoMainGo,
      DoClientCommand (SendMessage 1 (lit ''hi'')), DoTask (DoCommand WriteOk),
      DoTask (DoRead (ReadLine (lit ''bad''))), DoTask DoReaderSend, DoClientPoll,
      DoClientCommand Disconnect] (init_task vec_runtime) = Some example_running"
  by code_simp

lemma example_done_value:
  "run_schedule (conn_exec vec_runtime)
     [DoTask (DoCommand (WriteErr 3)), DoTask DoMainSend, DoTask DoMainGo, DoTask DoCancel]
     example_running = Some example_done"
  by code_simp

lemma example_running_reachable: "conn_reachable vec_runtime example_running"
  by (rule run_schedule_reachable [OF example_running_value conn_reachable.start])

lemma example_done_reachable: "conn_reachable vec_runtime example_done"
  by (rule run_schedule_reachable [OF example_done_value example_running_reachable])

end
