(* ===== verification/Conn_Properties.thy ===== *)
theory Conn_Properties
  imports Conn_Exec "HOL-Library.Sublist"
begin

text \<open>
  The properties of the channels and of the connection task, over every interleaving of its two
  processes, the socket and the client.
\<close>

section \<open>Further invariants\<close>

fun main_running :: "main_pc \<Rightarrow> bool" where
  "main_running MainConnecting = True"
| "main_running (MainSending evs k) = k"
| "main_running MainLoop = True"
| "main_running MainDone = False"

text \<open>
  The socket has received a prefix of the lines of the commands taken so far, all of them while
  the loop runs.
\<close>

definition wire_inv :: "(json \<Rightarrow> ustring) \<Rightarrow> ('c, 'e) conn_task \<Rightarrow> bool" where
  "wire_inv pr t \<longleftrightarrow>
     prefix (tk_wire t) (concat (map (command_bytes pr) (tk_taken t))) \<and>
     (main_running (tk_main t) \<longrightarrow>
        tk_wire t = concat (map (command_bytes pr) (tk_taken t)) \<and> Disconnect \<notin> set (tk_taken t))"

lemma handle_command_prefix: "prefix (fst (handle_command pr (Some c) w)) (command_bytes pr c)"
  by (cases c; cases w) (simp_all add: write_all_def take_is_prefix)

lemma handle_command_whole:
  "handle_command pr (Some c) w = (bs, True) \<Longrightarrow> bs = command_bytes pr c \<and> c \<noteq> Disconnect"
  by (cases c; cases w) (simp_all add: write_all_def)

lemma wire_inv_cong:
  "tk_wire t' = tk_wire t \<Longrightarrow> tk_taken t' = tk_taken t \<Longrightarrow>
   main_running (tk_main t') \<longrightarrow> main_running (tk_main t) \<Longrightarrow> wire_inv pr t \<Longrightarrow> wire_inv pr t'"
  by (simp add: wire_inv_def)

lemma task_step_wire: "task_step rt t t' \<Longrightarrow> wire_inv (rt_print rt) t \<Longrightarrow> wire_inv (rt_print rt) t'"
proof (induction rule: task_step.induct)
  case (take_command t c cs w bs k t1)
  have run: "tk_wire t = concat (map (command_bytes (rt_print rt)) (tk_taken t))"
    "Disconnect \<notin> set (tk_taken t)"
    using take_command.prems take_command.hyps(1) by (simp_all add: wire_inv_def)
  have "prefix bs (command_bytes (rt_print rt) c)"
    using handle_command_prefix [of "rt_print rt" c w] take_command.hyps(3) by simp
  with run take_command.hyps show ?case
    using handle_command_whole [of "rt_print rt" c w bs]
    by (auto simp: wire_inv_def leave_loop_def)
next
  case (commands_closed t)
  then show ?case by (auto simp: wire_inv_def leave_loop_def)
next
  case (main_send t ev evs k t')
  then show ?case
    by (auto intro!: wire_inv_cong [of _ t] dest: send_event_fields)
next
  case (reader_send t ev evs k t')
  then show ?case
    by (auto intro!: wire_inv_cong [of _ t] dest: send_event_fields)
qed (auto intro: wire_inv_cong)

lemma conn_step_wire: "conn_step rt t t' \<Longrightarrow> wire_inv (rt_print rt) t \<Longrightarrow> wire_inv (rt_print rt) t'"
  by (erule conn_stepE) (auto intro: task_step_wire wire_inv_cong)

lemma conn_reachable_wire: "conn_reachable rt t \<Longrightarrow> wire_inv (rt_print rt) t"
proof (induction rule: conn_reachable.induct)
  case start
  show ?case by (simp add: wire_inv_def init_task_def)
qed (blast intro: conn_step_wire)

text \<open>What the library promises of the two channels, and what follows for every connection.\<close>

locale conn_runtime =
  fixes rt :: "('c, 'e) runtime"
    and cmds :: "'c \<Rightarrow> to_server list"
    and evs :: "'e \<Rightarrow> from_server list"
  assumes command_laws: "channel_laws (rt_commands rt) cmds"
    and event_laws: "channel_laws (rt_events rt) evs"

sublocale conn_runtime \<subseteq> command: bounded_fifo command_capacity cmds
    "ch_new (command_channel rt)" "ch_send (command_channel rt)" "ch_recv (command_channel rt)"
  using command_laws by (simp add: channel_laws_def)

sublocale conn_runtime \<subseteq> event: bounded_fifo event_capacity evs
    "ch_new (event_channel rt)" "ch_send (event_channel rt)" "ch_recv (event_channel rt)"
  using event_laws by (simp add: channel_laws_def)

text \<open>
  Nothing waits beyond the capacities; the events polled and waiting are a prefix of the events
  sent, and all of them while the client listens.
\<close>

definition channel_inv ::
  "('c \<Rightarrow> to_server list) \<Rightarrow> ('e \<Rightarrow> from_server list) \<Rightarrow> ('c, 'e) conn_task \<Rightarrow> bool" where
  "channel_inv cmds evs t \<longleftrightarrow>
     length (cmds (tk_cmds t)) \<le> command_capacity \<and> length (evs (tk_events t)) \<le> event_capacity \<and>
     prefix (tk_polled t @ evs (tk_events t)) (tk_sent t) \<and>
     (tk_listening t \<longrightarrow> tk_polled t @ evs (tk_events t) = tk_sent t)"

lemma channel_inv_cong:
  "tk_cmds t' = tk_cmds t \<Longrightarrow> tk_events t' = tk_events t \<Longrightarrow> tk_polled t' = tk_polled t \<Longrightarrow>
   tk_sent t' = tk_sent t \<Longrightarrow> tk_listening t' = tk_listening t \<Longrightarrow>
   channel_inv cmds evs t' = channel_inv cmds evs t"
  by (simp add: channel_inv_def)

context conn_runtime
begin

lemma send_event_channel:
  assumes "send_event rt ev t = Some t'" "channel_inv cmds evs t"
  shows "channel_inv cmds evs t'"
  using assms event.send_content event.send_bound
  by (auto simp: send_event_def channel_inv_def split: if_splits)

lemma task_step_channel: "task_step rt t t' \<Longrightarrow> channel_inv cmds evs t \<Longrightarrow> channel_inv cmds evs t'"
proof (induction rule: task_step.induct)
  case (main_send t ev es k t')
  then have "channel_inv cmds evs t'" by (blast intro: send_event_channel)
  then show ?case by (simp add: channel_inv_def)
next
  case (reader_send t ev es k t')
  then have "channel_inv cmds evs t'" by (blast intro: send_event_channel)
  then show ?case by (simp add: channel_inv_def)
next
  case (take_command t c cs w bs k t1)
  then show ?case
    using command.recv_bound [of "tk_cmds t" c cs] by (auto simp: channel_inv_def leave_loop_def)
qed (auto simp: channel_inv_def leave_loop_def)

lemma conn_step_channel: "conn_step rt t t' \<Longrightarrow> channel_inv cmds evs t \<Longrightarrow> channel_inv cmds evs t'"
proof (induction rule: conn_step.induct)
  case (task t t')
  then show ?case by (rule task_step_channel)
next
  case (client_command t c cs)
  then show ?case using command.send_bound by (auto simp: channel_inv_def)
next
  case (client_poll t ev es)
  then show ?case using event.recv_content [of "tk_events t" ev es] by (auto simp: channel_inv_def)
qed (auto simp: channel_inv_def)

lemma conn_reachable_channel: "conn_reachable rt t \<Longrightarrow> channel_inv cmds evs t"
proof (induction rule: conn_reachable.induct)
  case start
  show ?case
    using command.new_content event.new_content by (simp add: channel_inv_def init_task_def)
qed (blast intro: conn_step_channel)

end

interpretation vec_rt: conn_runtime vec_runtime id id
  by unfold_locales (simp add: vec_runtime_def vec_channel_laws)+

section \<open>Properties\<close>

text \<open>C19: In every interleaving, the first thing a connection task reports is either that it is connected, which it then never says again, or the failure to connect, and after a failure nothing but the end of the connection.\<close>

theorem conn_first_report:
  assumes "conn_reachable rt t" and "tk_sent t \<noteq> []"
  shows "(hd (tk_sent t) = FS_Connected \<and> FS_Connected \<notin> set (tl (tk_sent t))) \<or>
    (\<exists>e. prefix (tk_sent t) [FS_Error (lit ''Connection failed: '' @ e), FS_Disconnected])"
proof -
  have "main_inv (tk_main t) t" using conn_reachable_inv [OF assms(1)] by (simp add: conn_inv_def)
  moreover have "?thesis" if "connected_once (tk_sent t)"
    using that by (auto simp: connected_once_def)
  moreover have failed: "?thesis" if "failed_report (tk_sent t @ evs)" for evs
    using that by (auto simp: failed_report_def connect_report_def prefix_def intro!: disjI2) metis
  moreover have "?thesis" if "tk_sent t @ evs = connect_report None" for evs
    using that assms(2) by (cases "tk_sent t") (auto simp: connect_report_def)
  moreover have "?thesis" if "failed_report (tk_sent t)"
    using failed [of "[]"] that by simp
  ultimately show ?thesis
    using assms(2) by (cases "(tk_main t, t)" rule: main_inv.cases) auto
qed

theorem conn_first_report_witness:
  "tk_sent example_done = [FS_Connected, FS_Error (lit ''bad''), FS_Disconnected]
   \<and> ((hd (tk_sent example_done) = FS_Connected \<and> FS_Connected \<notin> set (tl (tk_sent example_done))) \<or>
      (\<exists>e. prefix (tk_sent example_done)
         [FS_Error (lit ''Connection failed: '' @ e), FS_Disconnected]))"
proof -
  have v: "tk_sent example_done = [FS_Connected, FS_Error (lit ''bad''), FS_Disconnected]" by code_simp
  then have "tk_sent example_done \<noteq> []" by simp
  from conn_first_report [OF example_done_reachable this] v show ?thesis by blast
qed

text \<open>C18: A connection task that has returned has reported the end of the connection, and so has a reader that stopped without being cancelled: the client is never left believing that a finished connection is open.\<close>

theorem conn_end_reported:
  assumes "conn_reachable rt t"
    and "tk_main t = MainDone \<or> tk_reader t = ReaderStopped \<and> \<not> tk_aborted t"
  shows "FS_Disconnected \<in> set (tk_sent t)"
  using conn_reachable_inv [OF assms(1)] assms(2)
  by (auto simp: conn_inv_def failed_report_def connect_report_def)

theorem conn_end_reported_witness:
  "tk_main example_done = MainDone \<and> FS_Disconnected \<in> set (tk_sent example_done)"
proof -
  have "tk_main example_done = MainDone" by code_simp
  with conn_end_reported [OF example_done_reachable] show ?thesis by blast
qed

text \<open>C20: In every interleaving the bytes on the socket are a prefix of the lines of the commands taken from the channel, in the order taken; while the command loop runs they are all of them and no disconnect is among them.\<close>

theorem conn_wire_in_order:
  assumes "conn_reachable rt t"
  shows "prefix (tk_wire t) (concat (map (command_bytes (rt_print rt)) (tk_taken t)))
    \<and> (tk_main t \<noteq> MainLoop \<or>
        tk_wire t = concat (map (command_bytes (rt_print rt)) (tk_taken t)) \<and> Disconnect \<notin> set (tk_taken t))"
  using conn_reachable_wire [OF assms] by (cases "tk_main t") (auto simp: wire_inv_def)

theorem conn_wire_in_order_witness:
  "tk_taken example_done = [SendMessage 1 (lit ''hi''), Disconnect]
   \<and> prefix (tk_wire example_done)
       (concat (map (command_bytes (rt_print vec_runtime)) (tk_taken example_done)))"
proof -
  have "tk_taken example_done = [SendMessage 1 (lit ''hi''), Disconnect]" by code_simp
  with conn_wire_in_order [OF example_done_reachable] show ?thesis by blast
qed

text \<open>With channels that keep what the library promises, in every interleaving at most 64 commands and at most 256 events wait in the channels of a connection.\<close>

lemma conn_channels_bounded:
  assumes "conn_runtime rt cmds evs" and "conn_reachable rt t"
  shows "length (cmds (tk_cmds t)) \<le> 64 \<and> length (evs (tk_events t)) \<le> 256"
  using conn_runtime.conn_reachable_channel [OF assms]
  by (simp add: channel_inv_def command_capacity_def event_capacity_def)

text \<open>C21: With such channels the client polls the events of its connection in the order they were sent, none lost and none twice: what it has polled and what waits is a prefix of what the task has sent, and all of it while the client listens to that connection.\<close>

theorem conn_events_in_order:
  assumes "conn_runtime rt cmds evs" and "conn_reachable rt t"
  shows "prefix (tk_polled t @ evs (tk_events t)) (tk_sent t)
    \<and> (\<not> tk_listening t \<or> tk_polled t @ evs (tk_events t) = tk_sent t)"
  using conn_runtime.conn_reachable_channel [OF assms] by (simp add: channel_inv_def)

theorem conn_events_in_order_witness:
  "tk_polled example_done = [FS_Connected]
   \<and> tk_polled example_done @ tk_events example_done = tk_sent example_done"
proof -
  have "tk_polled example_done = [FS_Connected]" "tk_listening example_done" by code_simp+
  with conn_events_in_order [OF vec_rt.conn_runtime_axioms example_done_reachable] show ?thesis
    by simp
qed

end
