(* ===== verification/App_State.thy ===== *)
theory App_State
  imports Helpers
begin

text \<open>
  The state the client shares between its components (the signals of \<open>App\<close> in
  \<open>ui/src/main.rs\<close>) and the event poller that folds the events of the connection task into it.

  \<open>cmd_tx\<close> and \<open>event_rx\<close> are the two channel ends the state holds; a channel end is the number
  of the connection it was created for. A command is sent by a spawned task, so sending puts it
  into \<open>outbox\<close>, from where any task may deliver it next. The clock (\<open>clock\<close>) and the build
  profile (\<open>p\<close>) are arguments.
\<close>

record app_state = toast_store +
  connection_status :: connection_status
  rooms :: "chat_room list"
  messages :: "chat_message list"
  active_room_id :: "u64 option"
  cmd_tx :: "nat option"
  event_rx :: "nat option"
  outbox :: "(nat \<times> to_server) list"

definition init_app :: app_state where
  "init_app =
     \<lparr>toasts = [], toast_counter = 0, toast_tasks = [], connection_status = Disconnected,
      rooms = [], messages = [], active_room_id = None, cmd_tx = None, event_rx = None,
      outbox = []\<rparr>"

abbreviation room_ids :: "app_state \<Rightarrow> u64 list" where
  "room_ids s \<equiv> map rm_id (rooms s)"

abbreviation find_room :: "u64 \<Rightarrow> app_state \<Rightarrow> chat_room option" where
  "find_room i s \<equiv> find (\<lambda>r. rm_id r = i) (rooms s)"

section \<open>The event poller\<close>

text \<open>\<open>RoomConfirmed\<close> after a \<open>csub\<close>: the room is found by name and takes the server's identifier.\<close>

definition confirm_created :: "u64 \<Rightarrow> ustring \<Rightarrow> app_state \<Rightarrow> app_state" where
  "confirm_created sid name s =
     (case find (\<lambda>r. rm_name r = name) (rooms s) of
        None \<Rightarrow> s
      | Some room \<Rightarrow>
          let old_id = rm_id room in
          if old_id \<noteq> sid then
            s\<lparr>rooms := update_first (\<lambda>r. rm_name r = name) (\<lambda>r. r\<lparr>rm_id := sid\<rparr>) (rooms s),
              messages := map (\<lambda>m. if msg_room_id m = old_id then m\<lparr>msg_room_id := sid\<rparr> else m)
                            (messages s),
              active_room_id := (if active_room_id s = Some old_id then Some sid
                                 else active_room_id s)\<rparr>
          else s)"

text \<open>\<open>RoomConfirmed\<close> after a \<open>sub\<close>: the room is found by identifier and takes the server's name.\<close>

definition confirm_subscribed :: "u64 \<Rightarrow> ustring \<Rightarrow> app_state \<Rightarrow> app_state" where
  "confirm_subscribed sid name s =
     s\<lparr>rooms := update_first (\<lambda>r. rm_id r = sid) (\<lambda>r. r\<lparr>rm_name := name\<rparr>) (rooms s)\<rparr>"

text \<open>\<open>Message\<close>: appended to the room of that name; its unread count grows unless it is open.\<close>

definition receive_message ::
  "profile \<Rightarrow> int \<Rightarrow> ustring \<Rightarrow> ustring \<Rightarrow> app_state \<Rightarrow> app_state result" where
  "receive_message p clock group_name text s =
     (case map_option rm_id (find (\<lambda>r. rm_name r = group_name) (rooms s)) of
        None \<Rightarrow> Inr s
      | Some rid \<Rightarrow>
          let chat_msg = \<lparr>msg_room_id = rid, msg_text = text, msg_sender = Server,
                          msg_timestamp = current_time_str clock\<rparr>;
              s1 = s\<lparr>messages := messages s @ [chat_msg]\<rparr>
          in if active_room_id s1 \<noteq> Some rid then
               (case find_room rid s1 of
                  None \<Rightarrow> Inr s1
                | Some room \<Rightarrow>
                    and_then (add_arith p (rm_unread room) 1) (\<lambda>u.
                    Inr (s1\<lparr>rooms := update_first (\<lambda>r. rm_id r = rid) (\<lambda>r. r\<lparr>rm_unread := u\<rparr>)
                                      (rooms s1)\<rparr>)))
             else Inr s1)"

fun handle_event :: "profile \<Rightarrow> int \<Rightarrow> from_server \<Rightarrow> app_state \<Rightarrow> app_state result" where
  "handle_event p clock FS_Connected s =
     add_toast p (lit ''success'') (lit ''Connected to server!'')
       (s\<lparr>connection_status := Connected\<rparr>)"
| "handle_event p clock (FS_RoomConfirmed sid name is_create) s =
     Inr (if is_create then confirm_created sid name s else confirm_subscribed sid name s)"
| "handle_event p clock (FS_Message group_name text) s = receive_message p clock group_name text s"
| "handle_event p clock (FS_Error e) s = add_toast p (lit ''error'') e s"
| "handle_event p clock FS_Disconnected s =
     add_toast p (lit ''info'') (lit ''Disconnected from server'')
       (s\<lparr>connection_status := Disconnected\<rparr>)"

text \<open>
  One turn of the polling loop: nothing without a receiver, else \<open>try_recv\<close> on it. \<open>recv\<close> gives
  the first event waiting in a channel, if there is one.
\<close>

definition poll_event ::
  "profile \<Rightarrow> int \<Rightarrow> (nat \<Rightarrow> from_server option) \<Rightarrow> app_state \<Rightarrow> app_state result" where
  "poll_event p clock recv s =
     (if event_rx s = None then Inr s
      else and_then (unwrap (event_rx s)) (\<lambda>ch.
        case recv ch of None \<Rightarrow> Inr s | Some ev \<Rightarrow> handle_event p clock ev s))"

text \<open>The \<open>unwrap\<close> is guarded.\<close>

lemma poll_event_cases:
  "poll_event p clock recv s =
     (case event_rx s of
        None \<Rightarrow> Inr s
      | Some ch \<Rightarrow> (case recv ch of None \<Rightarrow> Inr s | Some ev \<Rightarrow> handle_event p clock ev s))"
  by (simp add: poll_event_def unwrap_def split: option.split)

end
