(* ===== verification/Sidebar.thy ===== *)
theory Sidebar
  imports App_State
begin

text \<open>
  \<open>ui/src/components/sidebar.rs\<close>: what its buttons do to the shared state. A handler that reads
  an input field takes its text and returns the text it leaves there.
\<close>

text \<open>\<open>max().unwrap_or(0)\<close> over the identifiers of the rooms.\<close>

fun max_id :: "u64 list \<Rightarrow> u64 option" where
  "max_id [] = None"
| "max_id (i # is) = Some (fold max is i)"

definition send_command :: "nat \<Rightarrow> to_server \<Rightarrow> app_state \<Rightarrow> app_state" where
  "send_command tx c s = s\<lparr>outbox := outbox s @ [(tx, c)]\<rparr>"

definition push_room :: "u64 \<Rightarrow> ustring \<Rightarrow> app_state \<Rightarrow> app_state" where
  "push_room rid name s =
     s\<lparr>rooms := rooms s @ [\<lparr>rm_id = rid, rm_name = name, rm_unread = 0\<rparr>]\<rparr>"

definition push_message ::
  "int \<Rightarrow> u64 \<Rightarrow> ustring \<Rightarrow> message_sender \<Rightarrow> app_state \<Rightarrow> app_state" where
  "push_message clock rid text who s =
     s\<lparr>messages := messages s @ [\<lparr>msg_room_id = rid, msg_text = text, msg_sender = who,
                                  msg_timestamp = current_time_str clock\<rparr>]\<rparr>"

definition quoted :: "ustring \<Rightarrow> ustring" where
  "quoted s = [34] @ s @ [34]"

definition do_create ::
  "profile \<Rightarrow> int \<Rightarrow> ustring \<Rightarrow> app_state \<Rightarrow> (app_state \<times> ustring) result" where
  "do_create p clock new_room_name s =
     (let name = trim new_room_name in
      if name = [] then Inr (s, new_room_name)
      else case cmd_tx s of
        None \<Rightarrow> Inr (s, [])
      | Some tx \<Rightarrow>
          and_then (add_arith p (unwrap_or (max_id (room_ids s)) 0) 1) (\<lambda>next_id.
          let s1 = push_room next_id name s;
              s2 = push_message clock next_id
                     (lit ''Created and joined room '' @ quoted name) System s1;
              s3 = send_command tx (CreateAndSubscribe name) s2
          in and_then (add_toast p (lit ''success'') (lit ''Created room '' @ quoted name) s3) (\<lambda>s4.
             Inr (s4, []))))"

definition do_subscribe ::
  "profile \<Rightarrow> int \<Rightarrow> ustring \<Rightarrow> app_state \<Rightarrow> (app_state \<times> ustring) result" where
  "do_subscribe p clock sub_room_id s =
     (let id_str = trim sub_room_id in
      if id_str = [] then Inr (s, sub_room_id)
      else case parse_word id_str of
        None \<Rightarrow>
          and_then (add_toast p (lit ''error'') (lit ''Room ID must be a number'') s) (\<lambda>s'.
          Inr (s', sub_room_id))
      | Some room_id \<Rightarrow>
          if \<exists>r\<in>set (rooms s). rm_id r = room_id then
            and_then (add_toast p (lit ''error'')
                       (lit ''Already subscribed to room #'' @ show_word room_id) s) (\<lambda>s'.
            Inr (s', sub_room_id))
          else case cmd_tx s of
            None \<Rightarrow> Inr (s, [])
          | Some tx \<Rightarrow>
              let s1 = push_room room_id (lit ''Room #'' @ show_word room_id) s;
                  s2 = push_message clock room_id
                         (lit ''Subscribed to room #'' @ show_word room_id) System s1;
                  s3 = send_command tx (Subscribe room_id) s2
              in and_then (add_toast p (lit ''success'')
                            (lit ''Subscribed to room #'' @ show_word room_id) s3) (\<lambda>s4.
                 Inr (s4, [])))"

definition click_disconnect :: "app_state \<Rightarrow> app_state" where
  "click_disconnect s =
     (let s1 = (case cmd_tx s of None \<Rightarrow> s | Some tx \<Rightarrow> send_command tx Disconnect s)
      in s1\<lparr>connection_status := Disconnected\<rparr>)"

definition select_room :: "u64 \<Rightarrow> app_state \<Rightarrow> app_state" where
  "select_room room_id s =
     s\<lparr>active_room_id := Some room_id,
       rooms := update_first (\<lambda>r. rm_id r = room_id) (\<lambda>r. r\<lparr>rm_unread := 0\<rparr>) (rooms s)\<rparr>"

text \<open>Removing a room and its messages, which both unsubscribe buttons do.\<close>

definition remove_room :: "u64 \<Rightarrow> app_state \<Rightarrow> app_state" where
  "remove_room room_id s =
     s\<lparr>rooms := filter (\<lambda>r. rm_id r \<noteq> room_id) (rooms s),
       messages := filter (\<lambda>m. msg_room_id m \<noteq> room_id) (messages s)\<rparr>"

definition unsubscribe_item :: "profile \<Rightarrow> u64 \<Rightarrow> app_state \<Rightarrow> app_state result" where
  "unsubscribe_item p room_id s =
     (let name = unwrap_or (map_option rm_name (find_room room_id s)) [];
          s1 = remove_room room_id s;
          s2 = (if active_room_id s1 = Some room_id then s1\<lparr>active_room_id := None\<rparr> else s1)
      in add_toast p (lit ''info'') (lit ''Unsubscribed from '' @ quoted name) s2)"

end
