(* ===== verification/Chat_Panel.thy ===== *)
theory Chat_Panel
  imports Sidebar
begin

text \<open>
  \<open>ui/src/components/chat.rs\<close>: which room the panel shows, the messages it lists, the header's
  unsubscribe button and the message input.
\<close>

definition active_room :: "app_state \<Rightarrow> chat_room option" where
  "active_room s = Option.bind (active_room_id s) (\<lambda>i. find_room i s)"

definition room_messages :: "u64 \<Rightarrow> app_state \<Rightarrow> chat_message list" where
  "room_messages room_id s = filter (\<lambda>m. msg_room_id m = room_id) (messages s)"

definition unsubscribe_header :: "profile \<Rightarrow> u64 \<Rightarrow> ustring \<Rightarrow> app_state \<Rightarrow> app_state result" where
  "unsubscribe_header p room_id room_name s =
     add_toast p (lit ''info'') (lit ''Unsubscribed from '' @ quoted room_name)
       ((remove_room room_id s)\<lparr>active_room_id := None\<rparr>)"

definition do_send :: "int \<Rightarrow> u64 \<Rightarrow> ustring \<Rightarrow> app_state \<Rightarrow> app_state \<times> ustring" where
  "do_send clock room_id input_text s =
     (let text = trim input_text in
      if text = [] then (s, input_text)
      else let s1 = push_message clock room_id text Me s;
               s2 = (case cmd_tx s1 of
                       None \<Rightarrow> s1
                     | Some tx \<Rightarrow> send_command tx (SendMessage room_id text) s1)
           in (s2, []))"

end
