(* ===== verification/Connect_Screen.thy ===== *)
theory Connect_Screen
  imports App_State
begin

text \<open>
  \<open>ui/src/components/connect_screen.rs\<close>: the connect button. It leaves the address of the
  connection it starts and the message of its error line; the new connection gets the number
  \<open>fresh\<close>, and with it a pair of channels.
\<close>

definition click_connect ::
  "nat \<Rightarrow> ustring \<Rightarrow> ustring \<Rightarrow> app_state \<Rightarrow> app_state \<times> ustring \<times> (ustring \<times> u16) option" where
  "click_connect fresh host port s =
     (case parse_word port of
        None \<Rightarrow> (s, lit ''Invalid port number'', None)
      | Some port_num \<Rightarrow>
          (s\<lparr>connection_status := Connecting, rooms := [], messages := [], active_room_id := None,
             cmd_tx := Some fresh, event_rx := Some fresh\<rparr>,
           [], Some (host, port_num)))"

end
