(* ===== verification/Client_Machine.thy ===== *)
theory Client_Machine
  imports Chat_Panel Connect_Screen
begin

text \<open>
  The client as one machine: every event of the poller, every handler of the screen and every
  step of a background task is an input, \<open>offered\<close> says which inputs the screen can produce in
  a state, and \<open>client_step\<close> runs the handler. The invariants of the shared state follow.
\<close>

section \<open>Inputs\<close>

datatype client_input =
    Event from_server
  | CreateClick ustring
  | SubscribeClick ustring
  | DisconnectClick
  | SelectClick u64
  | UnsubscribeItemClick u64
  | UnsubscribeHeaderClick
  | SendClick ustring
  | ConnectClick nat ustring ustring
  | ToastTimer u64
  | ToastTaskDropped u64
  | SpawnedSend nat

text \<open>
  \<open>App\<close> shows the sidebar and the chat panel while connected and the connect screen otherwise,
  whose button is disabled while connecting. A room item belongs to a room of the list; header
  and message input are shown for the active room.
\<close>

fun offered :: "client_input \<Rightarrow> app_state \<Rightarrow> bool" where
  "offered (CreateClick t) s \<longleftrightarrow> connection_status s = Connected"
| "offered (SubscribeClick t) s \<longleftrightarrow> connection_status s = Connected"
| "offered DisconnectClick s \<longleftrightarrow> connection_status s = Connected"
| "offered (SelectClick i) s \<longleftrightarrow> connection_status s = Connected \<and> i \<in> set (room_ids s)"
| "offered (UnsubscribeItemClick i) s \<longleftrightarrow> connection_status s = Connected \<and> i \<in> set (room_ids s)"
| "offered UnsubscribeHeaderClick s \<longleftrightarrow> connection_status s = Connected \<and> active_room s \<noteq> None"
| "offered (SendClick t) s \<longleftrightarrow> connection_status s = Connected \<and> active_room s \<noteq> None"
| "offered (ConnectClick k h q) s \<longleftrightarrow> connection_status s = Disconnected"
| "offered _ s \<longleftrightarrow> True"

fun client_step :: "profile \<Rightarrow> int \<Rightarrow> client_input \<Rightarrow> app_state \<Rightarrow> app_state result" where
  "client_step p clock (Event ev) s = handle_event p clock ev s"
| "client_step p clock (CreateClick t) s = map_sum id fst (do_create p clock t s)"
| "client_step p clock (SubscribeClick t) s = map_sum id fst (do_subscribe p clock t s)"
| "client_step p clock DisconnectClick s = Inr (click_disconnect s)"
| "client_step p clock (SelectClick i) s = Inr (select_room i s)"
| "client_step p clock (UnsubscribeItemClick i) s = unsubscribe_item p i s"
| "client_step p clock UnsubscribeHeaderClick s =
     (case active_room s of
        None \<Rightarrow> Inr s
      | Some r \<Rightarrow> unsubscribe_header p (rm_id r) (rm_name r) s)"
| "client_step p clock (SendClick t) s =
     (case active_room s of None \<Rightarrow> Inr s | Some r \<Rightarrow> Inr (fst (do_send clock (rm_id r) t s)))"
| "client_step p clock (ConnectClick k h q) s = Inr (fst (click_connect k h q s))"
| "client_step p clock (ToastTimer i) s = Inr (expire_toast i s)"
| "client_step p clock (ToastTaskDropped i) s = Inr (drop_toast_task i s)"
| "client_step p clock (SpawnedSend n) s =
     Inr (s\<lparr>outbox := take n (outbox s) @ drop (Suc n) (outbox s)\<rparr>)"

section \<open>Machines with guarded inputs\<close>

text \<open>
  An input that is not offered has no effect. A run stops at the first panic.
\<close>

fun run_inputs ::
  "('i \<Rightarrow> 's \<Rightarrow> bool) \<Rightarrow> ('i \<Rightarrow> 's \<Rightarrow> 'e + 's) \<Rightarrow> 'i list \<Rightarrow> 's \<Rightarrow> 'e + 's" where
  "run_inputs guard step [] s = Inr s"
| "run_inputs guard step (i # is) s =
     (if guard i s
      then case step i s of Inl e \<Rightarrow> Inl e | Inr s' \<Rightarrow> run_inputs guard step is s'
      else run_inputs guard step is s)"

locale guarded_machine =
  fixes guard :: "'i \<Rightarrow> 's \<Rightarrow> bool"
    and step :: "'i \<Rightarrow> 's \<Rightarrow> 'e + 's"
    and inv :: "'s \<Rightarrow> bool"
  assumes step_inv: "inv s \<Longrightarrow> guard i s \<Longrightarrow> step i s = Inr s' \<Longrightarrow> inv s'"
begin

lemma run_inv: "inv s \<Longrightarrow> run_inputs guard step is s = Inr s' \<Longrightarrow> inv s'"
proof (induction "is" arbitrary: s)
  case (Cons i "is")
  then show ?case
    by (auto split: if_splits sum.splits intro: Cons.IH step_inv)
qed simp

lemma run_prefix_inv:
  "inv s \<Longrightarrow> run_inputs guard step (is @ js) s = Inr s' \<Longrightarrow>
   \<exists>s1. run_inputs guard step is s = Inr s1 \<and> inv s1 \<and> run_inputs guard step js s1 = Inr s'"
proof (induction "is" arbitrary: s)
  case (Cons i "is")
  then show ?case
    by (cases "guard i s"; cases "step i s") (auto intro: step_inv)
qed simp

end

section \<open>References stay valid\<close>

text \<open>
  Every message and the selection refer to a room of the list, and the toasts keep their
  invariant.
\<close>

definition refs_ok :: "app_state \<Rightarrow> bool" where
  "refs_ok s \<longleftrightarrow>
     msg_room_id ` set (messages s) \<subseteq> set (room_ids s) \<and>
     set_option (active_room_id s) \<subseteq> set (room_ids s)"

lemma refs_ok_cong:
  "rooms s' = rooms s \<Longrightarrow> messages s' = messages s \<Longrightarrow> active_room_id s' = active_room_id s \<Longrightarrow>
   refs_ok s' = refs_ok s"
  by (simp add: refs_ok_def)

lemma add_toast_app:
  assumes "add_toast p k m s = Inr s'"
  shows "rooms s' = rooms s" "messages s' = messages s" "active_room_id s' = active_room_id s"
    "cmd_tx s' = cmd_tx s" "event_rx s' = event_rx s" "outbox s' = outbox s"
    "connection_status s' = connection_status s"
  using assms by (auto simp: add_toast_def Let_def res_simps)

lemma add_toast_refs_ok: "add_toast p k m s = Inr s' \<Longrightarrow> refs_ok s' = refs_ok s"
  by (rule refs_ok_cong) (simp_all add: add_toast_app)

lemma update_first_ids [find_simps]:
  "map rm_id (update_first P (\<lambda>r. r\<lparr>rm_name := n\<rparr>) rs) = map rm_id rs"
  "map rm_id (update_first P (\<lambda>r. r\<lparr>rm_unread := u\<rparr>) rs) = map rm_id rs"
  by (simp_all add: map_update_first_same)

lemma refs_ok_status [simp]: "refs_ok (s\<lparr>connection_status := c\<rparr>) = refs_ok s"
  by (rule refs_ok_cong) simp_all

lemma confirm_created_refs_ok:
  assumes "refs_ok s"
  shows "refs_ok (confirm_created sid name s)"
proof (cases "find (\<lambda>r. rm_name r = name) (rooms s)")
  case None
  with assms show ?thesis by (simp add: confirm_created_def)
next
  case (Some room)
  then obtain ys zs where s: "rooms s = ys @ room # zs" "rm_name room = name"
      "\<forall>y\<in>set ys. rm_name y \<noteq> name"
    by (auto simp: find_split)
  with assms Some show ?thesis
    by (auto simp: confirm_created_def Let_def refs_ok_def update_first_split image_iff)
qed

lemma confirm_subscribed_refs_ok: "refs_ok s \<Longrightarrow> refs_ok (confirm_subscribed sid name s)"
  by (simp add: confirm_subscribed_def refs_ok_def find_simps del: set_map)

lemma receive_message_refs_ok:
  "refs_ok s \<Longrightarrow> receive_message p clock g t s = Inr s' \<Longrightarrow> refs_ok s'"
  by (auto simp: receive_message_def refs_ok_def Let_def res_simps find_simps dest: find_SomeD
      split: option.splits if_splits simp del: set_map) (auto dest!: find_SomeD)

lemma max_id_upper: "max_id is = Some m \<Longrightarrow> i \<in> set is \<Longrightarrow> i \<le> m"
proof (cases "is")
  case (Cons j js)
  have "i \<in> set (j # js) \<Longrightarrow> i \<le> fold max js j"
    by (simp add: Max.set_eq_fold [symmetric] del: set_simps) 
  then show "max_id is = Some m \<Longrightarrow> i \<in> set is \<Longrightarrow> i \<le> m" by (simp add: Cons)
qed simp

lemma next_id_fresh:
  assumes "add_arith p (unwrap_or (max_id is) 0) 1 = Inr n"
    and "p = Debug \<or> max_id is \<noteq> Some (- 1)"
  shows "n \<notin> set is"
proof
  assume n: "n \<in> set is"
  then obtain m where m: "max_id is = Some m" by (cases "is") auto
  with assms have "m < n" by (intro add_arith_one_less [of p]) auto
  with max_id_upper [OF m n] show False by simp
qed

text \<open>The two handlers that add a room differ in where the room's name and number come from.\<close>

definition join_room :: "int \<Rightarrow> nat \<Rightarrow> u64 \<Rightarrow> ustring \<Rightarrow> ustring \<Rightarrow> to_server \<Rightarrow> app_state \<Rightarrow> app_state" where
  "join_room clock tx rid name text c s =
     send_command tx c (push_message clock rid text System (push_room rid name s))"

lemma do_create_cases:
  assumes "do_create p clock t s = Inr (s', t')"
  obtains (blank) "trim t = []" "s' = s" "t' = t"
  | (offline) "trim t \<noteq> []" "cmd_tx s = None" "s' = s" "t' = []"
  | (joined) tx n where "trim t \<noteq> []" "cmd_tx s = Some tx" "t' = []"
      "add_arith p (unwrap_or (max_id (room_ids s)) 0) 1 = Inr n"
      "add_toast p (lit ''success'') (lit ''Created room '' @ quoted (trim t))
         (join_room clock tx n (trim t) (lit ''Created and joined room '' @ quoted (trim t))
            (CreateAndSubscribe (trim t)) s) = Inr s'"
  using assms by (auto simp: do_create_def join_room_def Let_def res_simps split: if_splits option.splits)

lemma do_subscribe_cases:
  assumes "do_subscribe p clock t s = Inr (s', t')"
  obtains (blank) "trim t = []" "s' = s" "t' = t"
  | (refused) m where "add_toast p (lit ''error'') m s = Inr s'" "t' = t"
  | (offline) "cmd_tx s = None" "s' = s" "t' = []"
  | (joined) tx i where "parse_word (trim t) = Some i" "i \<notin> set (room_ids s)" "cmd_tx s = Some tx"
      "t' = []"
      "add_toast p (lit ''success'') (lit ''Subscribed to room #'' @ show_word i)
         (join_room clock tx i (lit ''Room #'' @ show_word i)
            (lit ''Subscribed to room #'' @ show_word i) (Subscribe i) s) = Inr s'"
proof (cases "trim t = []")
  case True
  with assms show thesis by (intro blank) (auto simp: do_subscribe_def)
next
  case ne: False
  show thesis
  proof (cases "parse_word (trim t) :: u64 option")
    case None
    with ne assms obtain s1 where
      "add_toast p (lit ''error'') (lit ''Room ID must be a number'') s = Inr s1" "s1 = s'" "t' = t"
      by (auto simp: do_subscribe_def res_simps)
    then show thesis by (intro refused) auto
  next
    case (Some i)
    show thesis
    proof (cases "\<exists>r\<in>set (rooms s). rm_id r = i")
      case True
      with ne Some assms obtain s1 where
        "add_toast p (lit ''error'') (lit ''Already subscribed to room #'' @ show_word i) s = Inr s1"
        "s1 = s'" "t' = t"
        by (auto simp: do_subscribe_def res_simps)
      then show thesis by (intro refused) auto
    next
      case False
      then have i: "i \<notin> set (room_ids s)" by auto
      show thesis
      proof (cases "cmd_tx s")
        case None
        with ne Some False assms show thesis by (intro offline) (simp_all add: do_subscribe_def)
      next
        case (Some tx)
        with ne \<open>parse_word (trim t) = Some i\<close> False assms show thesis
          by (intro joined [OF _ i])
            (auto simp: do_subscribe_def Let_def res_simps join_room_def)
      qed
    qed
  qed
qed

lemma join_room_fields [simp]:
  "rooms (join_room clock tx rid name text c s) =
     rooms s @ [\<lparr>rm_id = rid, rm_name = name, rm_unread = 0\<rparr>]"
  "messages (join_room clock tx rid name text c s) =
     messages s @ [\<lparr>msg_room_id = rid, msg_text = text, msg_sender = System,
                     msg_timestamp = current_time_str clock\<rparr>]"
  "active_room_id (join_room clock tx rid name text c s) = active_room_id s"
  "outbox (join_room clock tx rid name text c s) = outbox s @ [(tx, c)]"
  "toast_counter (join_room clock tx rid name text c s) = toast_counter s"
  "toasts (join_room clock tx rid name text c s) = toasts s"
  "toast_tasks (join_room clock tx rid name text c s) = toast_tasks s"
  by (simp_all add: join_room_def send_command_def push_message_def push_room_def)

lemma join_room_refs_ok: "refs_ok s \<Longrightarrow> refs_ok (join_room clock tx rid name text c s)"
  by (auto simp: refs_ok_def)

lemma remove_room_ids: "room_ids (remove_room i s) = filter (\<lambda>j. j \<noteq> i) (room_ids s)"
  by (simp add: remove_room_def filter_map comp_def)

lemma remove_room_active [simp]: "active_room_id (remove_room i s) = active_room_id s"
  by (simp add: remove_room_def)

lemma remove_room_refs_ok:
  assumes "refs_ok s"
  shows "refs_ok ((remove_room i s)\<lparr>active_room_id := None\<rparr>)"
    and "active_room_id s \<noteq> Some i \<Longrightarrow> refs_ok (remove_room i s)"
  using assms by (auto simp: remove_room_def refs_ok_def)

lemma unsubscribe_item_refs_ok:
  "refs_ok s \<Longrightarrow> unsubscribe_item p i s = Inr s' \<Longrightarrow> refs_ok s'"
  by (auto simp: unsubscribe_item_def Let_def add_toast_refs_ok remove_room_refs_ok
      split: if_splits)

lemma unsubscribe_header_refs_ok:
  "refs_ok s \<Longrightarrow> unsubscribe_header p i n s = Inr s' \<Longrightarrow> refs_ok s'"
  by (auto simp: unsubscribe_header_def add_toast_refs_ok remove_room_refs_ok)

lemma select_room_refs_ok: "refs_ok s \<Longrightarrow> i \<in> set (room_ids s) \<Longrightarrow> refs_ok (select_room i s)"
  by (simp add: select_room_def refs_ok_def update_first_ids del: set_map)

lemma do_create_refs_ok: "refs_ok s \<Longrightarrow> do_create p clock t s = Inr (s', t') \<Longrightarrow> refs_ok s'"
  by (erule do_create_cases) (auto simp: add_toast_refs_ok join_room_refs_ok)

lemma do_subscribe_refs_ok: "refs_ok s \<Longrightarrow> do_subscribe p clock t s = Inr (s', t') \<Longrightarrow> refs_ok s'"
  by (erule do_subscribe_cases) (auto simp: add_toast_refs_ok join_room_refs_ok)

lemma do_send_refs_ok:
  "refs_ok s \<Longrightarrow> i \<in> set (room_ids s) \<Longrightarrow> refs_ok (fst (do_send clock i t s))"
  by (auto simp: do_send_def Let_def push_message_def send_command_def refs_ok_def
      split: option.splits)

lemma handle_event_refs_ok: "refs_ok s \<Longrightarrow> handle_event p clock ev s = Inr s' \<Longrightarrow> refs_ok s'"
proof (cases ev)
  case (FS_RoomConfirmed sid name c)
  then show "refs_ok s \<Longrightarrow> handle_event p clock ev s = Inr s' \<Longrightarrow> refs_ok s'"
    by (auto simp: confirm_created_refs_ok confirm_subscribed_refs_ok split: if_splits)
next
  case (FS_Message g t)
  then show "refs_ok s \<Longrightarrow> handle_event p clock ev s = Inr s' \<Longrightarrow> refs_ok s'"
    by (auto intro: receive_message_refs_ok)
qed (auto simp: add_toast_refs_ok)

lemma active_room_SomeD:
  "active_room s = Some r \<Longrightarrow> r \<in> set (rooms s) \<and> active_room_id s = Some (rm_id r)"
  by (auto simp: active_room_def bind_eq_Some_conv dest: find_SomeD)

text \<open>An input step from the outside: the clock and the input.\<close>

abbreviation offered_at :: "int \<times> client_input \<Rightarrow> app_state \<Rightarrow> bool" where
  "offered_at i s \<equiv> offered (snd i) s"

abbreviation step_at :: "profile \<Rightarrow> int \<times> client_input \<Rightarrow> app_state \<Rightarrow> app_state result" where
  "step_at p i s \<equiv> client_step p (fst i) (snd i) s"

abbreviation run_client :: "profile \<Rightarrow> (int \<times> client_input) list \<Rightarrow> app_state \<Rightarrow> app_state result" where
  "run_client p \<equiv> run_inputs offered_at (step_at p)"

lemma map_sum_fst_Inr: "map_sum id fst x = Inr s \<longleftrightarrow> (\<exists>t. x = Inr (s, t))"
  by (cases x) (auto simp: prod_eq_iff)

lemma client_step_refs_ok:
  assumes "refs_ok s" "offered i s" "client_step p clock i s = Inr s'"
  shows "refs_ok s'"
proof (cases i)
  case (Event ev)
  with assms show ?thesis by (auto intro: handle_event_refs_ok)
next
  case (CreateClick t)
  with assms show ?thesis by (auto simp: map_sum_fst_Inr intro: do_create_refs_ok)
next
  case (SubscribeClick t)
  with assms show ?thesis by (auto simp: map_sum_fst_Inr intro: do_subscribe_refs_ok)
next
  case (SelectClick j)
  with assms show ?thesis by (auto intro: select_room_refs_ok simp del: set_map)
next
  case (UnsubscribeItemClick j)
  with assms show ?thesis by (auto intro: unsubscribe_item_refs_ok)
next
  case UnsubscribeHeaderClick
  with assms show ?thesis by (auto intro: unsubscribe_header_refs_ok)
next
  case (SendClick t)
  with assms show ?thesis
    by (auto split: option.splits dest: active_room_SomeD intro!: do_send_refs_ok)
next
  case (ConnectClick k h q)
  with assms show ?thesis by (auto simp: click_connect_def refs_ok_def split: option.splits)
qed (use assms in \<open>auto simp: click_disconnect_def send_command_def expire_toast_def
    drop_toast_task_def intro!: refs_ok_cong [of _ s, THEN iffD2] split: option.splits\<close>)

interpretation refs: guarded_machine offered_at "step_at p" refs_ok for p
  by unfold_locales (rule client_step_refs_ok)

end
