(* ===== verification/Client_Invariants.thy ===== *)
theory Client_Invariants
  imports Client_Machine
begin

text \<open>
  Stronger invariants of the client: the identifiers of the toasts, the identifiers of the rooms
  and the unread count of the open room. The last two need the server's identifier of a created
  room to be new to the client, which the client does not check.
\<close>

section \<open>Toasts\<close>

definition toast_part :: "app_state \<Rightarrow> toast list \<times> u64 \<times> u64 list" where
  "toast_part s = (toasts s, toast_counter s, toast_tasks s)"

text \<open>Every input leaves the toasts alone, adds one, or ends a task.\<close>

definition toast_step :: "profile \<Rightarrow> app_state \<Rightarrow> app_state \<Rightarrow> bool" where
  "toast_step p s s' \<longleftrightarrow>
     toast_part s' = toast_part s \<or>
     (\<exists>k m s0. toast_part s0 = toast_part s \<and> add_toast p k m s0 = Inr s') \<or>
     (\<exists>i. s' = expire_toast i s \<or> s' = drop_toast_task i s)"

lemma toast_part_simps [simp]:
  "toast_part (s\<lparr>connection_status := c\<rparr>) = toast_part s"
  "toast_part (s\<lparr>rooms := rs\<rparr>) = toast_part s"
  "toast_part (s\<lparr>messages := ms\<rparr>) = toast_part s"
  "toast_part (s\<lparr>active_room_id := a\<rparr>) = toast_part s"
  "toast_part (s\<lparr>cmd_tx := k\<rparr>) = toast_part s"
  "toast_part (s\<lparr>event_rx := rx\<rparr>) = toast_part s"
  "toast_part (s\<lparr>outbox := ob\<rparr>) = toast_part s"
  "toast_part (join_room clock tx i n x cm s) = toast_part s"
  "toast_part (remove_room i s) = toast_part s"
  by (simp_all add: toast_part_def remove_room_def)

lemma toast_step_same: "toast_part s' = toast_part s \<Longrightarrow> toast_step p s s'"
  by (simp add: toast_step_def)

lemma toast_step_add:
  "add_toast p k m s0 = Inr s' \<Longrightarrow> toast_part s0 = toast_part s \<Longrightarrow> toast_step p s s'"
  by (auto simp: toast_step_def)

lemma receive_message_toasts:
  "receive_message p clock g t s = Inr s' \<Longrightarrow> toast_part s' = toast_part s"
  by (auto simp: receive_message_def Let_def res_simps split: option.splits if_splits)

lemma handle_event_toasts: "handle_event p clock ev s = Inr s' \<Longrightarrow> toast_step p s s'"
proof (cases ev)
  case (FS_RoomConfirmed sid name c)
  then show "handle_event p clock ev s = Inr s' \<Longrightarrow> toast_step p s s'"
    by (auto intro!: toast_step_same simp: confirm_created_def confirm_subscribed_def Let_def
        split: option.splits)
qed (auto intro: toast_step_add toast_step_same receive_message_toasts)

lemma client_step_toasts: "client_step p clock i s = Inr s' \<Longrightarrow> toast_step p s s'"
proof (induction p clock i s rule: client_step.induct)
  case (1 p clock ev s)
  then show ?case by (auto intro: handle_event_toasts)
next
  case (2 p clock t s)
  then show ?case
    by (auto simp: map_sum_fst_Inr elim!: do_create_cases intro: toast_step_same toast_step_add)
next
  case (3 p clock t s)
  then show ?case
    by (auto simp: map_sum_fst_Inr elim!: do_subscribe_cases intro: toast_step_same toast_step_add)
next
  case (6 p clock i s)
  then show ?case
    by (auto simp: unsubscribe_item_def Let_def intro: toast_step_add)
next
  case (7 p clock s)
  then show ?case
    by (auto simp: unsubscribe_header_def intro: toast_step_same toast_step_add split: option.splits)
next
  case (10 p clock i s)
  then show ?case by (auto simp: toast_step_def)
next
  case (11 p clock i s)
  then show ?case by (auto simp: toast_step_def)
qed (auto simp: click_disconnect_def send_command_def select_room_def do_send_def Let_def
    push_message_def click_connect_def intro!: toast_step_same split: option.splits)

lemma toasts_ok_part: "toast_part s = toast_part t \<Longrightarrow> toasts_ok s = toasts_ok t"
  by (simp add: toast_part_def toasts_ok_def)

lemma toast_step_ok:
  assumes "toast_step p s s'" "toasts_ok s" "p = Debug \<or> toast_counter s \<noteq> - 1"
  shows "toasts_ok s' \<and> unat (toast_counter s') \<le> Suc (unat (toast_counter s))"
  using assms(1) unfolding toast_step_def
proof (elim disjE exE conjE)
  fix k m s0
  assume s0: "toast_part s0 = toast_part s" "add_toast p k m s0 = Inr s'"
  from toasts_ok_part [OF s0(1)] assms(2) have "toasts_ok s0" by simp
  moreover from s0(1) have c: "toast_counter s0 = toast_counter s" by (simp add: toast_part_def)
  ultimately have "toasts_ok s'" using add_toast_ok [OF s0(2)] assms(3) by simp
  moreover have "unat (toast_counter s') = Suc (unat (toast_counter s0))"
    using s0(2) assms(3) c by (intro add_arith_one [of p]) (simp_all add: add_toast_Inr)
  ultimately show ?thesis using c by simp
next
  assume "toast_part s' = toast_part s"
  then show ?thesis using assms(2) by (auto simp: toast_part_def toasts_ok_def)
next
  fix i
  assume "s' = expire_toast i s"
  then show ?thesis using expire_toast_ok [OF assms(2)] by (simp add: expire_toast_def)
next
  fix i
  assume "s' = drop_toast_task i s"
  then show ?thesis using drop_toast_task_ok [OF assms(2)] by (simp add: drop_toast_task_def)
qed

lemma run_toasts_ok:
  "run_client p is s = Inr s' \<Longrightarrow> toasts_ok s \<Longrightarrow>
   p = Debug \<or> unat (toast_counter s) + length is < 2 ^ 64 \<Longrightarrow> toasts_ok s'"
proof (induction "is" arbitrary: s)
  case (Cons i "is")
  show ?case
  proof (cases "offered_at i s")
    case True
    with Cons.prems(1) obtain s1 where s1: "step_at p i s = Inr s1" "run_client p is s1 = Inr s'"
      by (auto split: sum.splits)
    have "p = Debug \<or> toast_counter s \<noteq> - 1"
      using Cons.prems(3) unat_below_max [of "toast_counter s"] by auto
    with toast_step_ok [OF client_step_toasts [OF s1(1)] Cons.prems(2)]
    have "toasts_ok s1" "unat (toast_counter s1) \<le> Suc (unat (toast_counter s))" by auto
    with Cons.prems(3) show ?thesis by (intro Cons.IH [OF s1(2)]) auto
  next
    case False
    with Cons.prems show ?thesis by (intro Cons.IH) auto
  qed
qed simp

section \<open>Distinct rooms, and the open room has been read\<close>

definition ids_ok :: "app_state \<Rightarrow> bool" where
  "ids_ok s \<longleftrightarrow> distinct (room_ids s)"

definition active_read :: "app_state \<Rightarrow> bool" where
  "active_read s \<longleftrightarrow>
     (\<forall>r\<in>set (rooms s). active_room_id s = Some (rm_id r) \<longrightarrow> rm_unread r = 0)"

definition session_ok :: "app_state \<Rightarrow> bool" where
  "session_ok s \<longleftrightarrow> refs_ok s \<and> ids_ok s \<and> active_read s"

text \<open>
  What the client takes for granted: the server's identifier of a created room is the one the
  room already has, or none of the list; and a local identifier can be counted up.
\<close>

fun confirm_fresh :: "client_input \<Rightarrow> app_state \<Rightarrow> bool" where
  "confirm_fresh (Event (FS_RoomConfirmed sid name True)) s \<longleftrightarrow>
     (case find (\<lambda>r. rm_name r = name) (rooms s) of
        None \<Rightarrow> True
      | Some room \<Rightarrow> rm_id room = sid \<or> sid \<notin> set (room_ids s))"
| "confirm_fresh _ s \<longleftrightarrow> True"

definition id_space :: "profile \<Rightarrow> app_state \<Rightarrow> bool" where
  "id_space p s \<longleftrightarrow> p = Debug \<or> max_id (room_ids s) \<noteq> Some (- 1)"

lemma session_ok_cong:
  "rooms s' = rooms s \<Longrightarrow> messages s' = messages s \<Longrightarrow> active_room_id s' = active_room_id s \<Longrightarrow>
   session_ok s' = session_ok s"
  by (simp add: session_ok_def ids_ok_def active_read_def refs_ok_def)

lemma add_toast_session_ok: "add_toast p k m s = Inr s' \<Longrightarrow> session_ok s' = session_ok s"
  by (rule session_ok_cong) (simp_all add: add_toast_app)

lemma session_ok_status [simp]: "session_ok (s\<lparr>connection_status := c\<rparr>) = session_ok s"
  by (rule session_ok_cong) simp_all

lemma confirm_created_session_ok:
  assumes "session_ok s" "confirm_fresh (Event (FS_RoomConfirmed sid name True)) s"
  shows "session_ok (confirm_created sid name s)"
proof (cases "find (\<lambda>r. rm_name r = name) (rooms s)")
  case None
  with assms show ?thesis by (simp add: confirm_created_def)
next
  case (Some room)
  then obtain ys zs where s: "rooms s = ys @ room # zs" "rm_name room = name"
      "\<forall>y\<in>set ys. rm_name y \<noteq> name"
    by (auto simp: find_split)
  from assms(1) have "refs_ok (confirm_created sid name s)"
    by (simp add: session_ok_def confirm_created_refs_ok)
  moreover have "active_room_id s = Some sid \<Longrightarrow> sid \<in> set (room_ids s)"
    using assms(1) by (simp add: session_ok_def refs_ok_def del: set_map)
  then have "ids_ok (confirm_created sid name s)" "active_read (confirm_created sid name s)"
    using assms Some s
    by (auto simp: session_ok_def ids_ok_def active_read_def confirm_created_def Let_def
        update_first_split)
  ultimately show ?thesis by (simp add: session_ok_def)
qed

lemma update_name_unread: "rm_unread (r\<lparr>rm_name := n\<rparr>) = rm_unread r"
  by simp

lemma confirm_subscribed_session_ok: "session_ok s \<Longrightarrow> session_ok (confirm_subscribed sid name s)"
  using confirm_subscribed_refs_ok [of s sid name]
  by (auto simp: session_ok_def ids_ok_def active_read_def confirm_subscribed_def update_first_ids
      simp del: map_map dest!: set_update_first [THEN subsetD])

lemma receive_message_rooms:
  assumes "receive_message p clock g t s = Inr s'"
  shows "room_ids s' = room_ids s" and "active_room_id s' = active_room_id s"
    and "r \<in> set (rooms s') \<Longrightarrow> active_room_id s = Some (rm_id r) \<Longrightarrow> r \<in> set (rooms s)"
  using assms
  by (auto simp: receive_message_def Let_def res_simps update_first_ids
      split: option.splits if_splits dest!: set_update_first [THEN subsetD] simp del: map_map)

lemma receive_message_session_ok:
  "session_ok s \<Longrightarrow> receive_message p clock g t s = Inr s' \<Longrightarrow> session_ok s'"
  using receive_message_rooms [of p clock g t s s'] receive_message_refs_ok [of s p clock g t s']
  by (auto simp: session_ok_def ids_ok_def active_read_def)

lemma handle_event_session_ok:
  assumes "session_ok s" "confirm_fresh (Event ev) s" "handle_event p clock ev s = Inr s'"
  shows "session_ok s'"
proof (cases ev)
  case (FS_RoomConfirmed sid name c)
  with assms show ?thesis
    by (cases c) (auto simp: confirm_created_session_ok confirm_subscribed_session_ok
        simp del: confirm_fresh.simps)
qed (use assms in \<open>auto simp: add_toast_session_ok intro: receive_message_session_ok\<close>)

lemma join_room_session_ok:
  "session_ok s \<Longrightarrow> i \<notin> set (room_ids s) \<Longrightarrow> session_ok (join_room clock tx i n x c s)"
  using join_room_refs_ok [of s clock tx i n x c]
  by (auto simp: session_ok_def ids_ok_def active_read_def)

lemma do_create_session_ok:
  assumes "session_ok s" "id_space p s" "do_create p clock t s = Inr (s', t')"
  shows "session_ok s'"
  using assms(3)
proof (cases rule: do_create_cases)
  case (joined tx n)
  then have "n \<notin> set (room_ids s)"
    using assms(2) by (intro next_id_fresh [of p]) (simp_all add: id_space_def del: set_map)
  with joined assms(1) show ?thesis
    by (simp add: add_toast_session_ok join_room_session_ok del: set_map)
qed (use assms in auto)

lemma do_subscribe_session_ok:
  "session_ok s \<Longrightarrow> do_subscribe p clock t s = Inr (s', t') \<Longrightarrow> session_ok s'"
  by (erule do_subscribe_cases)
    (auto simp: add_toast_session_ok join_room_session_ok simp del: set_map)

lemma remove_room_session_ok:
  assumes "session_ok s"
  shows "session_ok ((remove_room i s)\<lparr>active_room_id := None\<rparr>)"
    and "active_room_id s \<noteq> Some i \<Longrightarrow> session_ok (remove_room i s)"
  using assms remove_room_refs_ok [of s i] distinct_filter [of "room_ids s" "\<lambda>j. j \<noteq> i"]
  by (auto simp: session_ok_def ids_ok_def active_read_def remove_room_def filter_map comp_def)

lemma select_room_session_ok:
  assumes "session_ok s" "i \<in> set (room_ids s)"
  shows "session_ok (select_room i s)"
proof -
  have rooms: "rooms (select_room i s) =
      map (\<lambda>r. if rm_id r = i then r\<lparr>rm_unread := 0\<rparr> else r) (rooms s)"
    using assms(1) by (simp add: session_ok_def ids_ok_def select_room_def update_first_distinct)
  have "rm_unread r = 0" if "r \<in> set (rooms (select_room i s))" and "i = rm_id r" for r
    using that unfolding rooms by (simp add: image_iff) (erule bexE, simp split: if_splits)
  moreover have "active_room_id (select_room i s) = Some i" by (simp add: select_room_def)
  ultimately have "active_read (select_room i s)"
    unfolding active_read_def by (metis option.inject)
  moreover have "ids_ok (select_room i s)"
    using assms by (simp add: session_ok_def ids_ok_def select_room_def update_first_ids del: map_map)
  ultimately show ?thesis
    using assms select_room_refs_ok [of s i] by (simp add: session_ok_def)
qed

lemma do_send_session_ok:
  assumes "session_ok s" "i \<in> set (room_ids s)"
  shows "session_ok (fst (do_send clock i t s))"
proof -
  have "rooms (fst (do_send clock i t s)) = rooms s"
    "active_room_id (fst (do_send clock i t s)) = active_room_id s"
    by (auto simp: do_send_def Let_def push_message_def send_command_def split: option.splits)
  with assms do_send_refs_ok [of s i clock t] show ?thesis
    by (simp add: session_ok_def ids_ok_def active_read_def)
qed

lemma client_step_session_ok:
  assumes "session_ok s" "offered i s" "confirm_fresh i s" "\<And>t. i \<noteq> CreateClick t"
    and "client_step p clock i s = Inr s'"
  shows "session_ok s'"
proof (cases i)
  case (Event ev)
  with assms show ?thesis by (auto intro: handle_event_session_ok)
next
  case (CreateClick t)
  with assms(4) [of t] show ?thesis by simp
next
  case (SubscribeClick t)
  with assms show ?thesis by (auto simp: map_sum_fst_Inr intro: do_subscribe_session_ok)
next
  case (SelectClick j)
  with assms show ?thesis by (auto intro: select_room_session_ok simp del: set_map)
next
  case (UnsubscribeItemClick j)
  with assms show ?thesis
    by (auto simp: unsubscribe_item_def Let_def add_toast_session_ok remove_room_session_ok
        split: if_splits)
next
  case UnsubscribeHeaderClick
  with assms show ?thesis
    by (auto simp: unsubscribe_header_def add_toast_session_ok remove_room_session_ok)
next
  case (SendClick t)
  with assms show ?thesis
    by (auto split: option.splits dest: active_room_SomeD intro!: do_send_session_ok)
next
  case (ConnectClick k h q)
  with assms show ?thesis
    by (auto simp: click_connect_def session_ok_def refs_ok_def ids_ok_def active_read_def
        split: option.splits)
qed (use assms in \<open>auto simp: click_disconnect_def send_command_def expire_toast_def
    drop_toast_task_def intro!: session_ok_cong [of _ s, THEN iffD2] split: option.splits\<close>)

text \<open>
  The assumption on one input: a confirmation is fresh, and a click that makes a room finds an
  identifier to count up. \<open>ids_kept_apart\<close> is the assumption on a whole run: every input that is
  offered when its turn comes satisfies it.
\<close>

fun keeps_apart :: "profile \<Rightarrow> client_input \<Rightarrow> app_state \<Rightarrow> bool" where
  "keeps_apart p (CreateClick t) s \<longleftrightarrow> trim t = [] \<or> cmd_tx s = None \<or> id_space p s"
| "keeps_apart p i s \<longleftrightarrow> confirm_fresh i s"

lemma client_step_apart:
  assumes "session_ok s" "offered i s" "keeps_apart p i s" "client_step p clock i s = Inr s'"
  shows "session_ok s'"
proof (cases "\<exists>t. i = CreateClick t")
  case True
  then obtain t where i: "i = CreateClick t" by blast
  with assms(4) obtain t' where create: "do_create p clock t s = Inr (s', t')" by (auto simp: map_sum_fst_Inr)
  show ?thesis
  proof (cases "id_space p s")
    case True
    with do_create_session_ok [OF assms(1) _ create] show ?thesis by blast
  next
    case False
    with assms(3) i have "trim t = [] \<or> cmd_tx s = None" by simp
    with create assms(1) show ?thesis by (cases rule: do_create_cases) auto
  qed
next
  case False
  then have fresh: "confirm_fresh i s" using assms(3) by (cases i) auto
  from False assms show ?thesis
    by (intro client_step_session_ok [OF assms(1,2) fresh _ assms(4)]) auto
qed

abbreviation assumed_at :: "profile \<Rightarrow> int \<times> client_input \<Rightarrow> app_state \<Rightarrow> bool" where
  "assumed_at p i s \<equiv> offered (snd i) s \<and> keeps_apart p (snd i) s"

interpretation session: guarded_machine "assumed_at p" "step_at p" session_ok for p
  by unfold_locales (blast intro: client_step_apart)

fun ids_kept_apart :: "profile \<Rightarrow> (int \<times> client_input) list \<Rightarrow> app_state \<Rightarrow> bool" where
  "ids_kept_apart p [] s \<longleftrightarrow> True"
| "ids_kept_apart p (i # is) s \<longleftrightarrow>
     (if offered_at i s
      then keeps_apart p (snd i) s \<and>
        (case step_at p i s of Inl e \<Rightarrow> True | Inr s' \<Rightarrow> ids_kept_apart p is s')
      else ids_kept_apart p is s)"

lemma ids_kept_apart_run:
  "ids_kept_apart p is s \<Longrightarrow> run_inputs (assumed_at p) (step_at p) is s = run_client p is s"
  by (induction p "is" s rule: ids_kept_apart.induct) (auto split: sum.splits)

lemma run_session_ok:
  "session_ok s \<Longrightarrow> ids_kept_apart p is s \<Longrightarrow> run_client p is s = Inr s' \<Longrightarrow> session_ok s'"
  using session.run_inv [of s p "is" s'] ids_kept_apart_run [of p "is" s] by simp

end
