(* ===== verification/Room_View.thy ===== *)
theory Room_View
  imports Client_Invariants
begin

text \<open>
  The abstract view of the chat client: a finite map from room identifiers to what the user sees
  of the room (its name, its unread count and its log). The rooms and messages of the shared
  state are two vectors joined by an identifier; in a state with the session invariant every
  operation on the vectors is a single map operation on the view.
\<close>

type_synonym log_entry = "ustring \<times> message_sender \<times> ustring"

record room_view =
  rv_name :: ustring
  rv_unread :: u32
  rv_log :: "log_entry list"

type_synonym session_view = "u64 \<Rightarrow> room_view option"

definition entry :: "chat_message \<Rightarrow> log_entry" where
  "entry m = (msg_text m, msg_sender m, msg_timestamp m)"

definition view :: "app_state \<Rightarrow> session_view" where
  "view s i =
     map_option
       (\<lambda>r. \<lparr>rv_name = rm_name r, rv_unread = rm_unread r, rv_log = map entry (room_messages i s)\<rparr>)
       (find_room i s)"

section \<open>The operations on the view\<close>

definition view_open :: "u64 \<Rightarrow> ustring \<Rightarrow> log_entry \<Rightarrow> session_view \<Rightarrow> session_view" where
  "view_open i name e v = v(i \<mapsto> \<lparr>rv_name = name, rv_unread = 0, rv_log = [e]\<rparr>)"

definition view_close :: "u64 \<Rightarrow> session_view \<Rightarrow> session_view" where
  "view_close i v = v(i := None)"

definition view_rekey :: "u64 \<Rightarrow> u64 \<Rightarrow> session_view \<Rightarrow> session_view" where
  "view_rekey old new v = (if old = new then v else v(old := None, new := v old))"

definition view_rename :: "u64 \<Rightarrow> ustring \<Rightarrow> session_view \<Rightarrow> session_view" where
  "view_rename i name v = v(i := map_option (\<lambda>x. x\<lparr>rv_name := name\<rparr>) (v i))"

definition view_append :: "u64 \<Rightarrow> log_entry \<Rightarrow> u32 \<Rightarrow> session_view \<Rightarrow> session_view" where
  "view_append i e n v =
     v(i := map_option (\<lambda>x. x\<lparr>rv_log := rv_log x @ [e], rv_unread := rv_unread x + n\<rparr>) (v i))"

definition view_read :: "u64 \<Rightarrow> session_view \<Rightarrow> session_view" where
  "view_read i v = v(i := map_option (\<lambda>x. x\<lparr>rv_unread := 0\<rparr>) (v i))"

section \<open>Looking rooms up\<close>

lemma find_map_same_key:
  "(\<And>x. k (f x) = k x) \<Longrightarrow> find (\<lambda>x. k x = i) (map f xs) = map_option f (find (\<lambda>x. k x = i) xs)"
  by (induction xs) auto

lemma find_filter_key:
  "find (\<lambda>x. k x = i) (filter (\<lambda>x. k x \<noteq> j) xs) =
     (if i = j then None else find (\<lambda>x. k x = i) xs)"
  by (induction xs) auto

lemma find_append_none:
  "find P (xs @ ys) = (case find P xs of None \<Rightarrow> find P ys | Some x \<Rightarrow> Some x)"
  by (induction xs) auto

lemma find_key_None: "find (\<lambda>x. k x = i) xs = None \<longleftrightarrow> i \<notin> set (map k xs)"
  by (induction xs) auto

lemma view_cong:
  "rooms s' = rooms s \<Longrightarrow> messages s' = messages s \<Longrightarrow> view s' = view s"
  by (auto simp: view_def room_messages_def fun_eq_iff)

lemma add_toast_view: "add_toast p k m s = Inr s' \<Longrightarrow> view s' = view s"
  by (rule view_cong) (simp_all add: add_toast_app)

lemma dom_view: "dom (view s) = set (room_ids s)"
proof -
  have "i \<in> dom (view s) \<longleftrightarrow> find_room i s \<noteq> None" for i
    by (auto simp: view_def)
  then have "i \<in> dom (view s) \<longleftrightarrow> i \<in> set (room_ids s)" for i
    unfolding find_key_None by simp
  then show ?thesis by blast
qed

lemma refs_ok_no_messages:
  "refs_ok s \<Longrightarrow> i \<notin> set (room_ids s) \<Longrightarrow> room_messages i s = []"
  by (auto simp: refs_ok_def room_messages_def filter_empty_conv)

section \<open>Each operation on the state is the operation on the view\<close>

lemma view_join_room:
  assumes "refs_ok s" "i \<notin> set (room_ids s)"
  shows "view (join_room clock tx i name text c s) =
     view_open i name (text, System, current_time_str clock) (view s)"
proof
  fix j
  have "find_room i s = None" using assms(2) by (simp add: find_key_None)
  with refs_ok_no_messages [OF assms] show "view (join_room clock tx i name text c s) j =
      view_open i name (text, System, current_time_str clock) (view s) j"
    by (auto simp: view_def view_open_def room_messages_def entry_def find_append_none
        split: option.splits)
qed

lemma room_messages_remove: "j \<noteq> i \<Longrightarrow> room_messages j (remove_room i s) = room_messages j s"
  by (auto simp: room_messages_def remove_room_def intro!: filter_cong)

lemma view_remove_room: "view (remove_room i s) = view_close i (view s)"
proof
  fix j
  have "find_room j (remove_room i s) = (if j = i then None else find_room j s)"
    by (simp add: remove_room_def find_filter_key)
  then show "view (remove_room i s) j = view_close i (view s) j"
    by (simp add: view_def view_close_def room_messages_remove)
qed

lemma view_active [simp]: "view (s\<lparr>active_room_id := a\<rparr>) = view s"
  by (rule view_cong) simp_all

lemma view_push_message:
  "view (push_message clock i text who s) =
     view_append i (text, who, current_time_str clock) 0 (view s)"
  by (rule ext) (auto simp: view_def view_append_def push_message_def room_messages_def entry_def
      map_option_case split: option.splits)

lemma view_update_unread:
  assumes "ids_ok s"
  shows "view (s\<lparr>rooms := update_first (\<lambda>r. rm_id r = i) (\<lambda>r. r\<lparr>rm_unread := f (rm_unread r)\<rparr>) (rooms s)\<rparr>) =
     (view s)(i := map_option (\<lambda>x. x\<lparr>rv_unread := f (rv_unread x)\<rparr>) (view s i))"
proof
  fix j
  let ?g = "\<lambda>r. if rm_id r = i then r\<lparr>rm_unread := f (rm_unread r)\<rparr> else r"
  have "find (\<lambda>r. rm_id r = j) (map ?g (rooms s)) = map_option ?g (find_room j s)"
    by (rule find_map_same_key) simp
  then show "view (s\<lparr>rooms := update_first (\<lambda>r. rm_id r = i)
        (\<lambda>r. r\<lparr>rm_unread := f (rm_unread r)\<rparr>) (rooms s)\<rparr>) j =
      ((view s)(i := map_option (\<lambda>x. x\<lparr>rv_unread := f (rv_unread x)\<rparr>) (view s i))) j"
    using assms
    by (auto simp: view_def room_messages_def ids_ok_def update_first_distinct map_option_case
        split: option.splits dest!: find_SomeD)
qed

lemma view_confirm_subscribed:
  assumes "ids_ok s"
  shows "view (confirm_subscribed sid name s) = view_rename sid name (view s)"
proof
  fix j
  let ?g = "\<lambda>r. if rm_id r = sid then r\<lparr>rm_name := name\<rparr> else r"
  have "find (\<lambda>r. rm_id r = j) (map ?g (rooms s)) = map_option ?g (find_room j s)"
    by (rule find_map_same_key) simp
  then show "view (confirm_subscribed sid name s) j = view_rename sid name (view s) j"
    using assms
    by (auto simp: view_def room_messages_def ids_ok_def confirm_subscribed_def view_rename_def
        update_first_distinct map_option_case split: option.splits dest!: find_SomeD)
qed

lemma rekey_entries:
  assumes "filter (\<lambda>m. msg_room_id m = new) ms = []" "j \<noteq> old"
  shows "map entry (filter (\<lambda>m. msg_room_id m = j)
      (map (\<lambda>m. if msg_room_id m = old then m\<lparr>msg_room_id := new\<rparr> else m) ms)) =
    map entry (filter (\<lambda>m. msg_room_id m = (if j = new then old else j)) ms)"
  using assms by (induction ms) (auto simp: entry_def split: if_splits)

lemma confirm_created_split:
  assumes "rooms s = ys @ room # zs" "rm_name room = name" "\<forall>y\<in>set ys. rm_name y \<noteq> name"
    and "rm_id room \<noteq> sid"
  shows "rooms (confirm_created sid name s) = ys @ room\<lparr>rm_id := sid\<rparr> # zs"
    and "messages (confirm_created sid name s) =
      map (\<lambda>m. if msg_room_id m = rm_id room then m\<lparr>msg_room_id := sid\<rparr> else m) (messages s)"
proof -
  have "find (\<lambda>r. rm_name r = name) (rooms s) = Some room"
    unfolding find_split using assms by blast
  then show "rooms (confirm_created sid name s) = ys @ room\<lparr>rm_id := sid\<rparr> # zs"
    and "messages (confirm_created sid name s) =
      map (\<lambda>m. if msg_room_id m = rm_id room then m\<lparr>msg_room_id := sid\<rparr> else m) (messages s)"
    using assms by (simp_all add: confirm_created_def Let_def update_first_split)
qed

lemma view_confirm_created:
  assumes "session_ok s" "find (\<lambda>r. rm_name r = name) (rooms s) = Some room"
    and "rm_id room = sid \<or> sid \<notin> set (room_ids s)"
  shows "view (confirm_created sid name s) = view_rekey (rm_id room) sid (view s)"
proof (cases "rm_id room = sid")
  case True
  with assms show ?thesis by (simp add: confirm_created_def view_rekey_def)
next
  case False
  let ?old = "rm_id room" and ?s = "confirm_created sid name s"
  have sid: "sid \<notin> set (room_ids s)" using assms(3) False by simp
  obtain ys zs where s: "rooms s = ys @ room # zs" "rm_name room = name"
      "\<forall>y\<in>set ys. rm_name y \<noteq> name"
    using assms(2) by (auto simp: find_split)
  have old: "?old \<notin> rm_id ` set ys" "?old \<notin> rm_id ` set zs"
    using assms(1) s(1) by (auto simp: session_ok_def ids_ok_def)
  have new: "sid \<notin> rm_id ` set ys" "sid \<notin> rm_id ` set zs" using sid s(1) by auto
  note rooms' = confirm_created_split(1) [OF s False]
  have "room_messages sid s = []"
    using assms(1) sid by (intro refs_ok_no_messages) (auto simp: session_ok_def)
  then have log: "map entry (room_messages j ?s) =
      map entry (room_messages (if j = sid then ?old else j) s)" if "j \<noteq> ?old" for j
    using rekey_entries [OF _ that] confirm_created_split(2) [OF s False]
    by (simp add: room_messages_def)
  show ?thesis
  proof
    fix j
    consider "j = ?old" | "j = sid" | "j \<noteq> ?old" "j \<noteq> sid" by blast
    then show "view ?s j = view_rekey ?old sid (view s) j"
    proof cases
      case 1
      then have "find_room j ?s = None"
        using old False by (auto simp: rooms' find_key_None)
      with 1 False show ?thesis by (simp add: view_def view_rekey_def)
    next
      case 2
      have "find (\<lambda>r. rm_id r = sid) ys = None" "find (\<lambda>r. rm_id r = ?old) ys = None"
        using new(1) old(1) by (simp_all add: find_key_None)
      then have "find_room j ?s = Some (room\<lparr>rm_id := sid\<rparr>)" "find_room ?old s = Some room"
        using 2 by (simp_all add: rooms' s(1) find_append_none)
      with 2 False log [of j] show ?thesis by (simp add: view_def view_rekey_def)
    next
      case 3
      then have "find_room j ?s = find_room j s"
        by (auto simp: rooms' s(1) find_append_none split: option.splits)
      with 3 False log [of j] show ?thesis by (simp add: view_def view_rekey_def)
    qed
  qed
qed

lemma view_receive_message:
  assumes "ids_ok s" "find (\<lambda>r. rm_name r = g) (rooms s) = Some room"
    and "receive_message p clock g text s = Inr s'"
  shows "view s' =
    view_append (rm_id room) (text, Server, current_time_str clock)
      (if active_room_id s = Some (rm_id room) then 0 else 1) (view s)"
proof -
  let ?i = "rm_id room" and ?e = "(text, Server, current_time_str clock)"
  define s1 where "s1 = push_message clock ?i text Server s"
  have s1: "s1 = s\<lparr>messages := messages s @ [\<lparr>msg_room_id = ?i, msg_text = text,
      msg_sender = Server, msg_timestamp = current_time_str clock\<rparr>]\<rparr>"
    by (simp add: s1_def push_message_def)
  have v1: "view s1 = view_append ?i ?e 0 (view s)"
    by (simp add: s1_def view_push_message)
  show ?thesis
  proof (cases "active_room_id s = Some ?i")
    case True
    with assms(2,3) have "s' = s1" by (simp add: receive_message_def s1)
    with True v1 show ?thesis by simp
  next
    case False
    have "room \<in> set (rooms s)" using assms(2) by (auto dest: find_SomeD)
    then have "find_room ?i s = Some room"
      using assms(1) by (intro find_distinct_key) (simp_all add: ids_ok_def)
    with assms(2,3) False obtain u where u: "add_arith p (rm_unread room) 1 = Inr u"
      "s' = s1\<lparr>rooms := update_first (\<lambda>r. rm_id r = ?i) (\<lambda>r. r\<lparr>rm_unread := u\<rparr>) (rooms s1)\<rparr>"
      by (auto simp: receive_message_def s1 res_simps)
    have "u = rm_unread room + 1" using u(1) by (rule add_arith_value)
    have ids: "ids_ok s1" using assms(1) by (simp add: s1 ids_ok_def)
    have "view s' = (view s1)(?i := map_option (\<lambda>x. x\<lparr>rv_unread := u\<rparr>) (view s1 ?i))"
      unfolding u(2) by (rule view_update_unread [OF ids, where f = "\<lambda>_. u"])
    moreover have "view s ?i = Some \<lparr>rv_name = rm_name room, rv_unread = rm_unread room,
        rv_log = map entry (room_messages ?i s)\<rparr>"
      using \<open>find_room ?i s = Some room\<close> by (simp add: view_def)
    ultimately show ?thesis
      using v1 False \<open>u = rm_unread room + 1\<close> by (simp add: view_append_def fun_eq_iff)
  qed
qed

end
