(* ===== verification/Client_Properties.thy ===== *)
theory Client_Properties
  imports Room_View
begin

text \<open>
  The properties of the client: which steps can panic, the invariants over every run from the
  start, each operation as one operation on the view, and what goes wrong where the client's
  assumptions about the server's identifiers and names fail.
\<close>

section \<open>Panics\<close>

lemma add_toast_defined:
  "p = Release \<or> toast_counter s \<noteq> - 1 \<Longrightarrow> \<exists>s'. add_toast p k m s = Inr s'"
  using add_arith_one_defined [of p "toast_counter s"] by (auto simp: add_toast_def Let_def)

lemma add_toast_definedD:
  "toast_part s0 = toast_part s \<Longrightarrow> p = Release \<or> toast_counter s \<noteq> - 1 \<Longrightarrow>
   \<exists>s'. add_toast p k m s0 = Inr s'"
  by (rule add_toast_defined) (auto simp: toast_part_def)

text \<open>The counters an addition of the client increments are below their largest value.\<close>

definition counters_low :: "app_state \<Rightarrow> bool" where
  "counters_low s \<longleftrightarrow>
     toast_counter s \<noteq> - 1 \<and> list_all (\<lambda>r. rm_id r \<noteq> - 1 \<and> rm_unread r \<noteq> - 1) (rooms s)"

lemma max_id_mem: "max_id is = Some m \<Longrightarrow> m \<in> set is"
proof (cases "is")
  case (Cons j js)
  have "fold max js j \<in> set (j # js)"
    by (metis List.finite_set Max.set_eq_fold Max_in list.distinct(1) set_empty)
  then show "max_id is = Some m \<Longrightarrow> m \<in> set is" by (simp add: Cons)
qed simp

lemma next_id_defined:
  assumes "p = Release \<or> - 1 \<notin> set is"
  shows "\<exists>n. add_arith p (unwrap_or (max_id is) 0) 1 = Inr n"
proof (cases "max_id is")
  case (Some m)
  with assms max_id_mem [OF Some] show ?thesis by (auto intro!: add_arith_one_defined)
qed (auto intro!: add_arith_one_defined)

lemma toast_after_join:
  "p = Release \<or> counters_low s \<Longrightarrow> \<exists>s'. add_toast p k m (join_room clock tx n x y c s) = Inr s'"
  by (rule add_toast_definedD [of _ s]) (auto simp: counters_low_def)

lemma toast_now: "p = Release \<or> counters_low s \<Longrightarrow> \<exists>s'. add_toast p k m s = Inr s'"
  by (rule add_toast_defined) (auto simp: counters_low_def)

lemma do_create_defined:
  assumes "p = Release \<or> counters_low s"
  shows "\<exists>r. do_create p clock t s = Inr r"
proof (cases "trim t = [] \<or> cmd_tx s = None")
  case True
  then show ?thesis by (cases "trim t = []") (simp_all add: do_create_def)
next
  case False
  then obtain tx where tx: "trim t \<noteq> []" "cmd_tx s = Some tx" by auto
  have "p = Release \<or> - 1 \<notin> set (room_ids s)"
    using assms by (auto simp: counters_low_def list_all_iff)
  then obtain n where n: "add_arith p (unwrap_or (max_id (room_ids s)) 0) 1 = Inr n"
    using next_id_defined by blast
  obtain s4 where "add_toast p (lit ''success'') (lit ''Created room '' @ quoted (trim t))
      (join_room clock tx n (trim t) (lit ''Created and joined room '' @ quoted (trim t))
        (CreateAndSubscribe (trim t)) s) = Inr s4"
    using toast_after_join [OF assms] by blast
  with tx n show ?thesis by (simp add: do_create_def Let_def join_room_def)
qed

lemma do_subscribe_defined:
  assumes "p = Release \<or> counters_low s"
  shows "\<exists>r. do_subscribe p clock t s = Inr r"
proof (cases "trim t = []")
  case True
  then show ?thesis by (simp add: do_subscribe_def)
next
  case ne: False
  note toast = toast_now [OF assms]
  show ?thesis
  proof (cases "parse_word (trim t) :: u64 option")
    case None
    obtain s1 where "add_toast p (lit ''error'') (lit ''Room ID must be a number'') s = Inr s1"
      using toast by blast
    with ne None show ?thesis by (simp add: do_subscribe_def)
  next
    case (Some i)
    obtain s1 where s1: "add_toast p (lit ''error'')
        (lit ''Already subscribed to room #'' @ show_word i) s = Inr s1"
      using toast by blast
    have "\<exists>s4. add_toast p (lit ''success'') (lit ''Subscribed to room #'' @ show_word i)
        (join_room clock tx i (lit ''Room #'' @ show_word i)
          (lit ''Subscribed to room #'' @ show_word i) (Subscribe i) s) = Inr s4" for tx
      by (rule toast_after_join [OF assms])
    with ne Some s1 show ?thesis
      by (cases "cmd_tx s") (auto simp: do_subscribe_def Let_def join_room_def res_simps)
  qed
qed

lemma receive_message_defined:
  assumes "p = Release \<or> counters_low s"
  shows "\<exists>s'. receive_message p clock g t s = Inr s'"
proof -
  have "\<exists>u. add_arith p (rm_unread r) 1 = Inr u" if "find_room i s = Some r" for i r
    using assms find_SomeD [OF that]
    by (intro add_arith_one_defined) (auto simp: counters_low_def list_all_iff)
  then show ?thesis
    by (fastforce simp: receive_message_def Let_def split: option.splits)
qed

lemma client_step_defined:
  assumes "p = Release \<or> counters_low s"
  shows "\<exists>s'. client_step p clock i s = Inr s'"
proof (cases i)
  case (Event ev)
  have "\<exists>s'. add_toast p k m (s\<lparr>connection_status := c\<rparr>) = Inr s'" for k m c
    using assms by (intro add_toast_definedD [of _ s]) (auto simp: counters_low_def)
  with Event receive_message_defined [OF assms] toast_now [OF assms] show ?thesis
    by (cases ev) auto
next
  case (CreateClick t)
  from do_create_defined [OF assms] obtain r where "do_create p clock t s = Inr r" by blast
  with CreateClick show ?thesis by simp
next
  case (SubscribeClick t)
  from do_subscribe_defined [OF assms] obtain r where "do_subscribe p clock t s = Inr r" by blast
  with SubscribeClick show ?thesis by simp
next
  case (UnsubscribeItemClick j)
  have "\<exists>s'. add_toast p k m (remove_room j s) = Inr s'"
    "\<exists>s'. add_toast p k m ((remove_room j s)\<lparr>active_room_id := None\<rparr>) = Inr s'" for k m
    using assms by (auto intro!: add_toast_definedD [of _ s] simp: counters_low_def)
  with UnsubscribeItemClick show ?thesis by (simp add: unsubscribe_item_def Let_def)
next
  case UnsubscribeHeaderClick
  have "\<exists>s'. add_toast p k m ((remove_room j s)\<lparr>active_room_id := None\<rparr>) = Inr s'" for k m j
    using assms by (intro add_toast_definedD [of _ s]) (auto simp: counters_low_def)
  with UnsubscribeHeaderClick show ?thesis
    by (simp add: unsubscribe_header_def split: option.splits)
qed (simp_all split: option.splits)

lemma poll_event_defined:
  assumes "p = Release \<or> counters_low s"
  shows "\<exists>s'. poll_event p clock recv s = Inr s'"
  using client_step_defined [OF assms, of clock "Event ev" for ev]
  by (auto simp: poll_event_cases split: option.split)

text \<open>C31: A build with overflow checks panics in no state whose toast counter, room identifiers and unread counts are below the largest value of their type: neither an input nor a turn of the event poller, whose \<open>unwrap\<close> of the receiver included, can panic there.\<close>

theorem debug_panics_only_on_overflow:
  assumes "toast_counter s \<noteq> - 1"
    and "\<And>r. r \<in> set (rooms s) \<Longrightarrow> rm_id r \<noteq> - 1 \<and> rm_unread r \<noteq> - 1"
  shows "(\<exists>s'. client_step Debug clock i s = Inr s') \<and> (\<exists>s'. poll_event Debug clock recv s = Inr s')"
  using assms client_step_defined [of Debug s clock i] poll_event_defined [of Debug s clock recv]
  by (simp add: counters_low_def list_all_iff)

theorem debug_panics_only_on_overflow_witness:
  "\<exists>s'. client_step Debug 0 (CreateClick (lit ''a'')) (init_app\<lparr>connection_status := Connected,
     cmd_tx := Some 0, rooms := [\<lparr>rm_id = 7, rm_name = lit ''b'', rm_unread = 2\<rparr>]\<rparr>) = Inr s'"
  by (rule debug_panics_only_on_overflow [THEN conjunct1]) (auto simp: init_app_def)

section \<open>Invariants of every run\<close>

lemma init_refs_ok: "refs_ok init_app"
  by (simp add: refs_ok_def init_app_def)

lemma init_toasts_ok: "toasts_ok init_app"
  by (simp add: toasts_ok_def init_app_def)

lemma init_session_ok: "session_ok init_app"
  by (simp add: session_ok_def init_refs_ok ids_ok_def active_read_def) (simp add: init_app_def)

text \<open>A run that connects, makes a room, has it confirmed, opens it and receives two messages.\<close>

definition example_run :: "(int \<times> client_input) list" where
  "example_run =
     [(0, ConnectClick 0 (lit ''localhost'') (lit ''4040'')), (0, Event FS_Connected),
      (0, CreateClick (lit ''a'')), (0, Event (FS_RoomConfirmed 5 (lit ''a'') True)),
      (0, Event (FS_Message (lit ''a'') (lit ''hi''))), (0, SelectClick 5),
      (0, Event (FS_Message (lit ''a'') (lit ''ho'')))]"

definition example_end :: app_state where
  "example_end = (case run_client Debug example_run init_app of Inl e \<Rightarrow> init_app | Inr s \<Rightarrow> s)"

lemma example_run_result: "run_client Debug example_run init_app = Inr example_end"
  unfolding example_end_def by code_simp

lemma example_run_assumed: "ids_kept_apart Debug example_run init_app"
  by code_simp

text \<open>C7: In both build profiles and after any run of events, clicks and timers, whatever the server sends, every message belongs to a room of the list and the selected room is one of the list.\<close>

theorem references_never_dangle:
  assumes "run_client p is init_app = Inr s"
  shows "msg_room_id ` set (messages s) \<subseteq> rm_id ` set (rooms s)
    \<and> set_option (active_room_id s) \<subseteq> rm_id ` set (rooms s)"
  using refs.run_inv [OF init_refs_ok assms] by (simp add: refs_ok_def)

theorem references_never_dangle_witness:
  "msg_room_id ` set (messages example_end) \<subseteq> rm_id ` set (rooms example_end)
   \<and> set_option (active_room_id example_end) \<subseteq> rm_id ` set (rooms example_end)
   \<and> length (messages example_end) = 3"
proof -
  have "length (messages example_end) = 3" unfolding example_end_def by code_simp
  with references_never_dangle [OF example_run_result] show ?thesis by blast
qed

text \<open>After any run, in a build with overflow checks, or in either build of fewer than 2 to the 64 steps, the toasts on the screen have increasing and so pairwise different identifiers, and every pending removal belongs to a toast still shown.\<close>

lemma toast_ids_distinct:
  assumes "run_client p is init_app = Inr s" and "p = Debug \<or> length is < 2 ^ 64"
  shows "sorted_wrt (<) (map toast_id (toasts s)) \<and> distinct (map toast_id (toasts s))
    \<and> set (toast_tasks s) \<subseteq> toast_id ` set (toasts s)"
proof -
  have "p = Debug \<or> unat (toast_counter init_app) + length is < 2 ^ 64"
    using assms(2) by (simp add: init_app_def)
  with run_toasts_ok [OF assms(1) init_toasts_ok] have "toasts_ok s" by blast
  then show ?thesis using toasts_ok_distinct by (simp add: toasts_ok_def)
qed

text \<open>C6: As long as the server never confirms a created room under an identifier the client already uses for another room, and no room has the largest identifier when a build without overflow checks makes another, every run keeps the room identifiers pairwise different and the open room without unread messages.\<close>

theorem session_invariant:
  assumes "run_client p is init_app = Inr s" "ids_kept_apart p is init_app"
  shows "distinct (map rm_id (rooms s))
    \<and> (\<forall>r. r \<in> set (rooms s) \<and> active_room_id s = Some (rm_id r) \<longrightarrow> rm_unread r = 0)"
  using run_session_ok [OF init_session_ok assms(2,1)]
  by (simp add: session_ok_def ids_ok_def active_read_def)

theorem session_invariant_witness:
  "distinct (map rm_id (rooms example_end)) \<and> map rm_unread (rooms example_end) = [0]
   \<and> active_room_id example_end = Some 5"
proof -
  have e: "map rm_id (rooms example_end) = [5]" "active_room_id example_end = Some 5"
    unfolding example_end_def by code_simp+
  then obtain r where r: "rooms example_end = [r]" "rm_id r = 5" by (cases "rooms example_end") auto
  with session_invariant [OF example_run_result example_run_assumed] e show ?thesis by simp
qed

section \<open>Each operation is one operation on the view\<close>

text \<open>A state with two rooms, the first one open, to apply the statements to.\<close>

definition example_rooms :: app_state where
  "example_rooms =
     init_app\<lparr>connection_status := Connected, cmd_tx := Some 0, event_rx := Some 0,
       rooms := [\<lparr>rm_id = 1, rm_name = lit ''a'', rm_unread = 0\<rparr>,
                 \<lparr>rm_id = 2, rm_name = lit ''b'', rm_unread = 4\<rparr>],
       messages := [\<lparr>msg_room_id = 2, msg_text = lit ''x'', msg_sender = Me,
                     msg_timestamp = lit ''00:00''\<rparr>],
       active_room_id := Some 1\<rparr>"


lemma dom_view_example: "dom (view example_rooms) = {1, 2}"
  by (simp only: dom_view) (simp add: example_rooms_def)



text \<open>Confirming a subscription changes only the name of the room with that identifier.\<close>

lemma confirm_subscribed_renames:
  assumes "ids_ok s" and "handle_event p clock (FS_RoomConfirmed sid name False) s = Inr s'"
  shows "view s' = view_rename sid name (view s) \<and> active_room_id s' = active_room_id s"
  using assms view_confirm_subscribed [OF assms(1), of sid name]
  by (auto simp: confirm_subscribed_def)





text \<open>Subscribing to the number of a room that is not in the list opens it under that number with a placeholder name, leaves every other room as it was, asks the server once to subscribe, and empties the input field.\<close>

lemma subscribe_opens_room:
  assumes "refs_ok s" "parse_word (trim t) = Some i" "i \<notin> dom (view s)" "cmd_tx s = Some tx"
    and "do_subscribe p clock t s = Inr (s', t')"
  shows "view s' = view_open i (lit ''Room #'' @ show_word i)
        (lit ''Subscribed to room #'' @ show_word i, System, current_time_str clock) (view s)
    \<and> outbox s' = outbox s @ [(tx, Subscribe i)] \<and> t' = []"
proof -
  have i: "\<not> (\<exists>r\<in>set (rooms s). rm_id r = i)" using assms(3) by (auto simp: dom_view)
  have "trim t \<noteq> []" using assms(2) by (auto simp: parse_word_def)
  with assms(2,4,5) i have "t' = []" "add_toast p (lit ''success'')
      (lit ''Subscribed to room #'' @ show_word i)
      (join_room clock tx i (lit ''Room #'' @ show_word i)
        (lit ''Subscribed to room #'' @ show_word i) (Subscribe i) s) = Inr s'"
    by (auto simp: do_subscribe_def Let_def join_room_def res_simps)
  with assms(1,3) show ?thesis
    by (simp add: dom_view add_toast_view view_join_room add_toast_app del: set_map)
qed

text \<open>Subscribing to a number whose room is already in the list, or to text that is no 64-bit number, changes nothing but the toasts: no room, no message, no command, and the input stays for correction.\<close>

lemma subscribe_refused:
  assumes "\<And>i. parse_word (trim t) = Some i \<Longrightarrow> i \<in> dom (view s)"
    and "do_subscribe p clock t s = Inr (s', t')"
  shows "rooms s' = rooms s \<and> messages s' = messages s \<and> outbox s' = outbox s
    \<and> active_room_id s' = active_room_id s \<and> t' = t"
  using assms(2)
proof (cases rule: do_subscribe_cases)
  case (refused m)
  then show ?thesis by (simp add: add_toast_app)
next
  case offline
  show ?thesis
  proof (cases "trim t = [] \<or> parse_word (trim t) = (None :: u64 option)")
    case True
    with offline assms(2) show ?thesis
      by (cases "trim t = []") (auto simp: do_subscribe_def res_simps add_toast_app)
  next
    case False
    then obtain i :: u64 where "parse_word (trim t) = Some i" by auto
    with assms(1) [of i] False offline assms(2) show ?thesis
      by (auto simp: do_subscribe_def res_simps dom_view add_toast_app split: if_splits)
  qed
next
  case (joined tx i)
  with assms(1) [of i] show ?thesis by (simp add: dom_view del: set_map)
qed simp

text \<open>C30: Both unsubscribe buttons remove exactly the room and its log from the view, deselect the room if it was the open one, and ask the server nothing: no command is added to those that wait to be sent.\<close>

theorem unsubscribe_is_local:
  assumes "unsubscribe_item p i s = Inr s' \<or> unsubscribe_header p i n s = Inr s' \<and> active_room_id s = Some i"
  shows "view s' = view_close i (view s) \<and> outbox s' = outbox s
    \<and> active_room_id s' = (if active_room_id s = Some i then None else active_room_id s)"
  using assms
proof
  assume item: "unsubscribe_item p i s = Inr s'"
  have "outbox (remove_room i s) = outbox s" by (simp add: remove_room_def)
  with item show ?thesis
    by (auto simp: unsubscribe_item_def Let_def add_toast_view add_toast_app view_remove_room
        split: if_splits)
next
  assume "unsubscribe_header p i n s = Inr s' \<and> active_room_id s = Some i"
  moreover have "outbox (remove_room i s) = outbox s" by (simp add: remove_room_def)
  ultimately show ?thesis
    by (auto simp: unsubscribe_header_def add_toast_view add_toast_app view_remove_room)
qed

theorem unsubscribe_is_local_witness:
  "\<exists>s'. unsubscribe_item Debug 1 example_rooms = Inr s' \<and> dom (view s') = {2} \<and> outbox s' = []
     \<and> active_room_id s' = None"
proof -
  have "counters_low example_rooms" by (simp add: counters_low_def example_rooms_def init_app_def)
  then obtain s' where s': "unsubscribe_item Debug 1 example_rooms = Inr s'"
    using client_step_defined [of Debug example_rooms 0 "UnsubscribeItemClick 1"] by auto
  with unsubscribe_is_local [of Debug 1 example_rooms s' "[]"] have
    "view s' = view_close 1 (view example_rooms)" "outbox s' = outbox example_rooms"
    "active_room_id s' =
      (if active_room_id example_rooms = Some 1 then None else active_room_id example_rooms)"
    by auto
  then have "dom (view s') = {2}" "outbox s' = []" "active_room_id s' = None"
    using dom_view_example by (auto simp: view_close_def example_rooms_def init_app_def)
  with s' show ?thesis by blast
qed

text \<open>Sending text that is not blank appends the trimmed text to the log of the open room as the user's own, leaves unread counts and other rooms as they were, and asks the server once to relay it; blank text does nothing and stays in the field.\<close>

lemma send_appends:
  assumes "do_send clock i t s = (s', t')"
  shows "if trim t = [] then s' = s \<and> t' = t
    else view s' = view_append i (trim t, Me, current_time_str clock) 0 (view s)
      \<and> outbox s' = outbox s @ (case cmd_tx s of None \<Rightarrow> [] | Some tx \<Rightarrow> [(tx, SendMessage i (trim t))])
      \<and> t' = []"
proof (cases "trim t = []")
  case True
  with assms show ?thesis by (simp add: do_send_def)
next
  case False
  define s1 where "s1 = push_message clock i (trim t) Me s"
  have "outbox s1 = outbox s" "cmd_tx s1 = cmd_tx s" by (simp_all add: s1_def push_message_def)
  moreover have "view (send_command tx c s1) = view s1" for tx c
    by (rule view_cong) (simp_all add: send_command_def)
  ultimately show ?thesis
    using assms False view_push_message [of clock i "trim t" Me s]
    by (auto simp: do_send_def Let_def send_command_def simp flip: s1_def split: option.splits)
qed

text \<open>Clicking a room opens it and clears its unread count, and changes nothing else of any room.\<close>

lemma select_reads_room:
  assumes "ids_ok s"
  shows "view (select_room i s) = view_read i (view s) \<and> active_room_id (select_room i s) = Some i"
proof -
  have "view (s\<lparr>rooms := update_first (\<lambda>r. rm_id r = i) (\<lambda>r. r\<lparr>rm_unread := 0\<rparr>) (rooms s)\<rparr>) =
      view_read i (view s)"
    unfolding view_read_def by (rule view_update_unread [OF assms, where f = "\<lambda>_. 0"])
  moreover have "view (select_room i s) =
      view (s\<lparr>rooms := update_first (\<lambda>r. rm_id r = i) (\<lambda>r. r\<lparr>rm_unread := 0\<rparr>) (rooms s)\<rparr>)"
    by (rule view_cong) (simp_all add: select_room_def)
  ultimately show ?thesis by (simp add: select_room_def)
qed

end
