(* ===== verification/Client_Hazards.thy ===== *)
theory Client_Hazards
  imports Client_Properties
begin

text \<open>
  Starting a connection, and what happens where the client's assumptions fail: the server's
  identifier of a created room is already in use locally, two rooms share a name, the largest
  identifier is taken, or a subscription is refused.
\<close>

section \<open>Starting a connection\<close>

text \<open>The connect button accepts exactly the text that reads as a 16-bit number: then rooms, messages and selection are cleared, both channel ends are those of the new connection, and the connection is started to the given host and port; otherwise the state is untouched and only the error line is set.\<close>

lemma click_connect_spec:
  "case parse_word port :: u16 option of
     None \<Rightarrow> click_connect k host port s = (s, lit ''Invalid port number'', None)
   | Some n \<Rightarrow> \<exists>s'. click_connect k host port s = (s', [], Some (host, n))
       \<and> connection_status s' = Connecting \<and> view s' = Map.empty \<and> messages s' = []
       \<and> active_room_id s' = None \<and> cmd_tx s' = Some k \<and> event_rx s' = Some k
       \<and> outbox s' = outbox s \<and> toasts s' = toasts s"
  by (auto simp: click_connect_def view_def fun_eq_iff split: option.splits)

text \<open>Every port number, written in decimal, is accepted and used unchanged.\<close>

lemma click_connect_port_round_trip:
  "snd (snd (click_connect k host (show_word n) s)) = Some (host, n)"
  by (simp add: click_connect_def parse_show_word)

section \<open>Where the assumptions fail\<close>

text \<open>How a client connects.\<close>

definition connect_inputs :: "(int \<times> client_input) list" where
  "connect_inputs =
     [(0, ConnectClick 0 (lit ''localhost'') (lit ''4040'')), (0, Event FS_Connected)]"

text \<open>A room that is found by its name, while another room's identifier changes.\<close>

lemma find_update_first_same:
  "find P xs = Some x \<Longrightarrow> P (f x) \<Longrightarrow> find P (update_first P f xs) = Some (f x)"
  by (induction xs) (auto split: if_splits)

lemma find_update_first_other:
  "(\<And>x. P x \<Longrightarrow> \<not> Q x \<and> \<not> Q (f x)) \<Longrightarrow> find Q (update_first P f xs) = find Q xs"
  by (induction xs) auto

text \<open>The texts of the log of the rooms \<open>ids\<close>.\<close>

definition texts_in :: "u64 set \<Rightarrow> app_state \<Rightarrow> ustring list" where
  "texts_in ids s = map msg_text (filter (\<lambda>m. msg_room_id m \<in> ids) (messages s))"

lemma texts_rekeyed:
  assumes "messages s' = map (\<lambda>m. if msg_room_id m = a then m\<lparr>msg_room_id := b\<rparr> else m) (messages s)"
  shows "texts_in I s' = texts_in ((I - {a}) \<union> (if b \<in> I then {a} else {})) s"
proof -
  have "map msg_text (filter (\<lambda>m. msg_room_id m \<in> I) (map (\<lambda>m. if msg_room_id m = a then m\<lparr>msg_room_id := b\<rparr> else m) ms)) =
      map msg_text (filter (\<lambda>m. msg_room_id m \<in> (I - {a}) \<union> (if b \<in> I then {a} else {})) ms)" for ms
    by (induction ms) auto
  then show ?thesis unfolding texts_in_def assms by this
qed

lemma confirm_created_found:
  assumes "find (\<lambda>r. rm_name r = n) (rooms s) = Some r"
  shows "rooms (confirm_created sid n s) = update_first (\<lambda>r. rm_name r = n) (\<lambda>r. r\<lparr>rm_id := sid\<rparr>) (rooms s)"
    "messages (confirm_created sid n s) =
      map (\<lambda>m. if msg_room_id m = rm_id r then m\<lparr>msg_room_id := sid\<rparr> else m) (messages s)"
proof -
  have same: "update_first (\<lambda>r. rm_name r = n) (\<lambda>r. r\<lparr>rm_id := sid\<rparr>) rs = rs"
    if "find (\<lambda>r. rm_name r = n) rs = Some r" "rm_id r = sid" for rs
    using that by (induction rs) (auto split: if_splits)
  have id: "map (\<lambda>m. if msg_room_id m = sid then m\<lparr>msg_room_id := sid\<rparr> else m) ms = ms" for ms
    by (induction ms) auto
  show "rooms (confirm_created sid n s) = update_first (\<lambda>r. rm_name r = n) (\<lambda>r. r\<lparr>rm_id := sid\<rparr>) (rooms s)"
    using assms same [OF assms] by (simp add: confirm_created_def Let_def)
  show "messages (confirm_created sid n s) =
      map (\<lambda>m. if msg_room_id m = rm_id r then m\<lparr>msg_room_id := sid\<rparr> else m) (messages s)"
  proof (cases "rm_id r = sid")
    case True
    with assms have "confirm_created sid n s = s" by (simp add: confirm_created_def Let_def)
    with id [of "messages s"] True show ?thesis by (simp only:)
  qed (use assms in \<open>simp add: confirm_created_def Let_def\<close>)
qed

text \<open>A client that has connected and created two rooms, numbered 1 and 2 locally.\<close>

definition two_rooms :: "ustring \<Rightarrow> ustring \<Rightarrow> app_state" where
  "two_rooms a b =
     (case run_client Debug (connect_inputs @ [(0, CreateClick a), (0, CreateClick b)]) init_app of
        Inl e \<Rightarrow> init_app | Inr s \<Rightarrow> s)"

lemma two_rooms_value:
  "rooms (two_rooms (lit ''a'') (lit ''b'')) =
     [\<lparr>rm_id = 1, rm_name = lit ''a'', rm_unread = 0\<rparr>, \<lparr>rm_id = 2, rm_name = lit ''b'', rm_unread = 0\<rparr>]"
  "map (\<lambda>m. (msg_room_id m, msg_text m)) (messages (two_rooms (lit ''a'') (lit ''b''))) =
     [(1, lit ''Created and joined room '' @ quoted (lit ''a'')),
      (2, lit ''Created and joined room '' @ quoted (lit ''b''))]"
  by code_simp+

lemma texts_in_pairs: "texts_in I s = map snd (filter (\<lambda>x. fst x \<in> I) (map (\<lambda>m. (msg_room_id m, msg_text m)) (messages s)))"
  by (simp add: texts_in_def filter_map comp_def)

text \<open>C38: A confirmed creation can mix the logs of two rooms: whenever the identifier the server gives to a room is that of another local room, whose creation is confirmed next with an identifier of its own, then after the first confirmation both rooms have the same identifier, and after the second one the whole log of both is the log of the other room, while the first room keeps an identifier without a log.\<close>

theorem confirmation_mixes_logs:
  assumes "find (\<lambda>r. rm_name r = a) (rooms s) = Some ra" "find (\<lambda>r. rm_name r = b) (rooms s) = Some rb"
    and "a \<noteq> b" "rm_id rb = sid" "sid2 \<noteq> sid"
    and "handle_event p clock (FS_RoomConfirmed sid a True) s = Inr s1"
    and "handle_event p clock (FS_RoomConfirmed sid2 b True) s1 = Inr s2"
  shows "find (\<lambda>r. rm_name r = a) (rooms s1) = Some (ra\<lparr>rm_id := sid\<rparr>)
    \<and> find (\<lambda>r. rm_name r = b) (rooms s1) = Some rb
    \<and> find (\<lambda>r. rm_name r = a) (rooms s2) = Some (ra\<lparr>rm_id := sid\<rparr>)
    \<and> find (\<lambda>r. rm_name r = b) (rooms s2) = Some (rb\<lparr>rm_id := sid2\<rparr>)
    \<and> room_messages sid s2 = []
    \<and> texts_in {sid2} s2 = texts_in {rm_id ra, sid, sid2} s"
proof -
  have s1: "s1 = confirm_created sid a s" and s2: "s2 = confirm_created sid2 b s1"
    using assms(6,7) by simp_all
  have na: "rm_name ra = a" and nb: "rm_name rb = b"
    using assms(1,2) by (auto dest: find_SomeD)
  have f1: "find (\<lambda>r. rm_name r = a) (rooms s1) = Some (ra\<lparr>rm_id := sid\<rparr>)"
    using find_update_first_same [OF assms(1), of "\<lambda>r. r\<lparr>rm_id := sid\<rparr>"] na
    by (simp add: s1 confirm_created_found(1) [OF assms(1)])
  have f2: "find (\<lambda>r. rm_name r = b) (rooms s1) = Some rb"
    unfolding s1 confirm_created_found(1) [OF assms(1)] assms(2) [symmetric]
    by (rule find_update_first_other) (use assms(3) in auto)
  have g1: "find (\<lambda>r. rm_name r = a) (rooms s2) = Some (ra\<lparr>rm_id := sid\<rparr>)"
    unfolding s2 confirm_created_found(1) [OF f2] f1 [symmetric]
    by (rule find_update_first_other) (use assms(3) in auto)
  have g2: "find (\<lambda>r. rm_name r = b) (rooms s2) = Some (rb\<lparr>rm_id := sid2\<rparr>)"
    using find_update_first_same [OF f2, of "\<lambda>r. r\<lparr>rm_id := sid2\<rparr>"] nb
    by (simp add: s2 confirm_created_found(1) [OF f2])
  note m1 = texts_rekeyed [OF confirm_created_found(2) [OF assms(1), of sid, folded s1]]
  note m2 = confirm_created_found(2) [OF f2, of sid2, folded s2, unfolded assms(4)]
  have "texts_in {sid2} s2 = texts_in {rm_id ra, sid, sid2} s"
    unfolding texts_rekeyed [OF m2] m1 using assms(5) by (auto intro!: arg_cong [of _ _ "\<lambda>I. texts_in I s"])
  moreover have "room_messages sid s2 = []"
    using assms(5) by (auto simp: room_messages_def m2 filter_empty_conv)
  ultimately show ?thesis using f1 f2 g1 g2 by blast
qed

theorem confirmation_mixes_logs_witness:
  "let s2 = confirm_created 3 (lit ''b'') (confirm_created 2 (lit ''a'') (two_rooms (lit ''a'') (lit ''b'')))
   in room_messages 2 s2 = []
    \<and> texts_in {3} s2 = [lit ''Created and joined room '' @ quoted (lit ''a''),
        lit ''Created and joined room '' @ quoted (lit ''b'')]"
proof -
  let ?s = "two_rooms (lit ''a'') (lit ''b'')"
  have "lit ''a'' \<noteq> lit ''b''" by (simp add: lit_def)
  then have f: "find (\<lambda>r. rm_name r = lit ''a'') (rooms ?s) = Some \<lparr>rm_id = 1, rm_name = lit ''a'', rm_unread = 0\<rparr>"
    "find (\<lambda>r. rm_name r = lit ''b'') (rooms ?s) = Some \<lparr>rm_id = 2, rm_name = lit ''b'', rm_unread = 0\<rparr>"
    "lit ''a'' \<noteq> lit ''b''" by (simp_all add: two_rooms_value)
  have "texts_in {1, 2, 3} ?s = [lit ''Created and joined room '' @ quoted (lit ''a''),
       lit ''Created and joined room '' @ quoted (lit ''b'')]"
    unfolding texts_in_pairs two_rooms_value by simp
  moreover have e: "handle_event Debug 0 (FS_RoomConfirmed i n True) s = Inr (confirm_created i n s)" for i n s
    by simp
  have "rm_id \<lparr>rm_id = 2, rm_name = lit ''b'', rm_unread = 0\<rparr> = 2" "(3 :: u64) \<noteq> 2" by simp_all
  note confirmation_mixes_logs [OF f this e e]
  ultimately show ?thesis by (simp only: Let_def chat_room.select_convs simp_thms)
qed

text \<open>C39: Rooms of one name collapse: whenever the client has two rooms of the same name, both confirmations of the server go to the first of them, which ends with the identifier of the second and the log of all the identifiers it has had, while the second room is never confirmed and keeps its local identifier.\<close>

theorem equal_names_collapse:
  assumes "rooms s = xs @ r1 # ys @ r2 # zs" "rm_name r1 = n" "rm_name r2 = n" "n \<notin> rm_name ` set xs"
    and "handle_event p clock (FS_RoomConfirmed sid1 n True) s = Inr s1"
    and "handle_event p clock (FS_RoomConfirmed sid2 n True) s1 = Inr s2"
  shows "rooms s2 = xs @ r1\<lparr>rm_id := sid2\<rparr> # ys @ r2 # zs
    \<and> texts_in {sid2} s2 = texts_in {rm_id r1, sid1, sid2} s"
proof -
  have s1: "s1 = confirm_created sid1 n s" and s2: "s2 = confirm_created sid2 n s1"
    using assms(5,6) by simp_all
  have other: "\<forall>r\<in>set xs. \<not> rm_name r = n" using assms(4) by auto
  then have none: "find (\<lambda>r. rm_name r = n) xs = None" by (simp add: find_None_iff)
  have f: "find (\<lambda>r. rm_name r = n) (rooms s) = Some r1"
    using none assms(1,2) by (simp add: find_append_none)
  have r1: "rooms s1 = xs @ r1\<lparr>rm_id := sid1\<rparr> # ys @ r2 # zs"
    using update_first_split [of "\<lambda>r. rm_name r = n" r1 xs] other assms(1,2)
    by (simp add: s1 confirm_created_found(1) [OF f])
  then have f1: "find (\<lambda>r. rm_name r = n) (rooms s1) = Some (r1\<lparr>rm_id := sid1\<rparr>)"
    using none assms(2) by (simp add: find_append_none)
  have "rooms s2 = xs @ r1\<lparr>rm_id := sid2\<rparr> # ys @ r2 # zs"
    using update_first_split [of "\<lambda>r. rm_name r = n" "r1\<lparr>rm_id := sid1\<rparr>" xs] other r1 assms(2)
    by (simp add: s2 confirm_created_found(1) [OF f1])
  moreover have "texts_in {sid2} s2 = texts_in {rm_id r1, sid1, sid2} s"
    unfolding texts_rekeyed [OF confirm_created_found(2) [OF f1, of sid2, folded s2]]
      texts_rekeyed [OF confirm_created_found(2) [OF f, of sid1, folded s1]]
    by (auto intro!: arg_cong [of _ _ "\<lambda>I. texts_in I s"])
  ultimately show ?thesis by blast
qed
theorem equal_names_collapse_witness:
  "room_ids (confirm_created 2 (lit ''x'') (confirm_created 1 (lit ''x'') (two_rooms (lit ''x'') (lit ''x'')))) = [2, 2]"
proof -
  let ?s = "two_rooms (lit ''x'') (lit ''x'')"
  have e: "handle_event Debug 0 (FS_RoomConfirmed i n True) s = Inr (confirm_created i n s)" for i n s
    by simp
  have r: "rooms ?s = [] @ \<lparr>rm_id = 1, rm_name = lit ''x'', rm_unread = 0\<rparr> # [] @
      \<lparr>rm_id = 2, rm_name = lit ''x'', rm_unread = 0\<rparr> # []" by code_simp
  have "rooms (confirm_created 2 (lit ''x'') (confirm_created 1 (lit ''x'') ?s)) =
      [] @ \<lparr>rm_id = 1, rm_name = lit ''x'', rm_unread = 0\<rparr>\<lparr>rm_id := 2\<rparr> # [] @
      \<lparr>rm_id = 2, rm_name = lit ''x'', rm_unread = 0\<rparr> # []"
    by (rule equal_names_collapse [OF r _ _ _ e e, THEN conjunct1]) simp_all
  then show ?thesis by simp
qed

text \<open>C40: Once a room with the largest 64-bit number is in the list, which the subscribe field accepts, creating a room panics in a build with overflow checks, and in a build without them gives the new room the identifier 0, also when room 0 is already there.\<close>

theorem largest_id_breaks_create:
  assumes "max_id (room_ids s) = Some (- 1)" "cmd_tx s = Some tx" "trim t \<noteq> []"
  shows "do_create Debug clock t s = Inl AddOverflow
    \<and> (\<exists>s' t'. do_create Release clock t s = Inr (s', t') \<and> room_ids s' = room_ids s @ [0])"
proof
  have "add_arith Debug (- 1 :: u64) 1 = Inl AddOverflow"
    using add_arith_one_less [of Debug "- 1 :: u64"] by (cases "add_arith Debug (- 1 :: u64) 1")
      (auto simp: add_arith_def split: if_splits)
  with assms show "do_create Debug clock t s = Inl AddOverflow" by (simp add: do_create_def)
  have "add_arith Release (- 1 :: u64) 1 = Inr 0" by (simp add: add_arith_def)
  with assms show "\<exists>s' t'. do_create Release clock t s = Inr (s', t') \<and> room_ids s' = room_ids s @ [0]"
    by (auto simp: do_create_def add_toast_def push_room_def push_message_def send_command_def
        Let_def res_simps)
qed

theorem largest_id_breaks_create_witness:
  "do_create Debug 0 (lit ''a'') (init_app\<lparr>cmd_tx := Some 0,
     rooms := [\<lparr>rm_id = - 1, rm_name = lit ''Room #18446744073709551615'', rm_unread = 0\<rparr>]\<rparr>) =
   Inl AddOverflow"
proof -
  have "trim (lit ''a'') \<noteq> []" by (simp add: trim_def lit_def is_whitespace_def)
  with largest_id_breaks_create [of "init_app\<lparr>cmd_tx := Some 0,
      rooms := [\<lparr>rm_id = - 1, rm_name = lit ''Room #18446744073709551615'', rm_unread = 0\<rparr>]\<rparr>" 0]
  show ?thesis by simp
qed

text \<open>When the server refuses a subscription, its plain-text answer only shows a toast: the room the client opened optimistically stays in the list with its log, and the selection and the commands waiting are as they were.\<close>

lemma refused_subscription_stays:
  assumes "handle_event p clock (FS_Error e) s = Inr s'"
  shows "view s' = view s \<and> active_room_id s' = active_room_id s \<and> outbox s' = outbox s
    \<and> toasts s' = toasts s @ [(lit ''error'', e, toast_counter s)]"
  using assms add_toast_fields(1) [of p "lit ''error''" e s s'] by (simp add: add_toast_view add_toast_app)

end
