(* ===== verification/System.thy ===== *)
theory System
  imports Client_Properties Conn_Properties
begin

text \<open>
  The client and all its connections as one system. A connection is numbered by its place in the
  list of those started so far; the numbers are the channel ends the shared state holds. A label
  says who moves next: the screen, the poller, a spawned task that delivers a command, a process
  of a connection. An input that panics has no successor.

  \<open>sy_issued\<close> and \<open>sy_lost\<close> record the commands handed to a spawned task and those whose
  connection had returned when they were delivered; they influence no step.
\<close>

record ('c, 'e) system =
  sy_app :: app_state
  sy_conns :: "('c, 'e) conn_task list"
  sy_issued :: "(nat \<times> to_server) list"
  sy_lost :: "(nat \<times> to_server) list"

definition init_system :: "('c, 'e) system" where
  "init_system = \<lparr>sy_app = init_app, sy_conns = [], sy_issued = [], sy_lost = []\<rparr>"

datatype sys_label =
    Screen int client_input
  | Start ustring ustring
  | Poll int
  | Deliver nat
  | Task nat task_label
  | DropSenders nat

text \<open>What the screen and the timers do; the other inputs involve a connection.\<close>

fun ui_input :: "client_input \<Rightarrow> bool" where
  "ui_input (Event ev) = False"
| "ui_input (ConnectClick k h q) = False"
| "ui_input (SpawnedSend n) = False"
| "ui_input _ = True"

text \<open>Replacing \<open>event_rx\<close> drops the receiver of the connection it pointed to.\<close>

definition drop_receiver ::
  "nat option \<Rightarrow> ('c, 'e) conn_task list \<Rightarrow> ('c, 'e) conn_task list" where
  "drop_receiver old ts =
     (case old of None \<Rightarrow> ts
      | Some j \<Rightarrow> if j < length ts then ts[j := (ts ! j)\<lparr>tk_listening := False\<rparr>] else ts)"

definition start_connection ::
  "('c, 'e) runtime \<Rightarrow> ustring \<Rightarrow> ustring \<Rightarrow> ('c, 'e) system \<Rightarrow> ('c, 'e) system" where
  "start_connection rt host port S =
     (let (app', err, started) = click_connect (length (sy_conns S)) host port (sy_app S)
      in S\<lparr>sy_app := app',
           sy_conns := (case started of
               None \<Rightarrow> sy_conns S
             | Some addr \<Rightarrow> drop_receiver (event_rx (sy_app S)) (sy_conns S) @ [init_task rt])\<rparr>)"

text \<open>The event \<open>try_recv\<close> finds in the channel of a connection.\<close>

definition waiting_event ::
  "('c, 'e) runtime \<Rightarrow> ('c, 'e) conn_task list \<Rightarrow> nat \<Rightarrow> from_server option" where
  "waiting_event rt ts k =
     (if k < length ts then map_option fst (ch_recv (event_channel rt) (tk_events (ts ! k)))
      else None)"

definition take_waiting :: "('c, 'e) runtime \<Rightarrow> ('c, 'e) conn_task \<Rightarrow> ('c, 'e) conn_task" where
  "take_waiting rt t =
     (case ch_recv (event_channel rt) (tk_events t) of
        None \<Rightarrow> t
      | Some (ev, q) \<Rightarrow> t\<lparr>tk_events := q, tk_polled := tk_polled t @ [ev]\<rparr>)"

definition poll_system ::
  "('c, 'e) runtime \<Rightarrow> profile \<Rightarrow> int \<Rightarrow> ('c, 'e) system \<Rightarrow> ('c, 'e) system option" where
  "poll_system rt p clock S =
     (case poll_event p clock (waiting_event rt (sy_conns S)) (sy_app S) of
        Inl e \<Rightarrow> None
      | Inr app' \<Rightarrow>
          Some (S\<lparr>sy_app := app',
                  sy_conns := (case event_rx (sy_app S) of
                      None \<Rightarrow> sy_conns S
                    | Some k \<Rightarrow> (sy_conns S)[k := take_waiting rt (sy_conns S ! k)])\<rparr>))"

text \<open>
  The task spawned for the \<open>n\<close>-th waiting command sends it, waits while the channel is full, and
  loses it when the connection has returned.
\<close>

definition deliver ::
  "('c, 'e) runtime \<Rightarrow> profile \<Rightarrow> nat \<Rightarrow> ('c, 'e) system \<Rightarrow> ('c, 'e) system option" where
  "deliver rt p n S =
     (if n < length (outbox (sy_app S)) then
        (let (k, c) = outbox (sy_app S) ! n; t = sy_conns S ! k in
         case client_step p 0 (SpawnedSend n) (sy_app S) of
           Inl e \<Rightarrow> None
         | Inr app' \<Rightarrow>
             if k < length (sy_conns S) then
               if tk_main t = MainDone then
                 Some (S\<lparr>sy_app := app', sy_lost := sy_lost S @ [(k, c)]\<rparr>)
               else map_option (\<lambda>q. S\<lparr>sy_app := app', sy_conns := (sy_conns S)[k := t\<lparr>tk_cmds := q\<rparr>]\<rparr>)
                      (ch_send (command_channel rt) c (tk_cmds t))
             else None)
      else None)"

fun sys_exec ::
  "('c, 'e) runtime \<Rightarrow> profile \<Rightarrow> sys_label \<Rightarrow> ('c, 'e) system \<Rightarrow> ('c, 'e) system option" where
  "sys_exec rt p (Screen clock i) S =
     (if ui_input i \<and> offered i (sy_app S) then
        case client_step p clock i (sy_app S) of
          Inl e \<Rightarrow> None
        | Inr app' \<Rightarrow>
            Some (S\<lparr>sy_app := app',
                    sy_issued := sy_issued S @ drop (length (outbox (sy_app S))) (outbox app')\<rparr>)
      else None)"
| "sys_exec rt p (Start host port) S =
     (if offered (ConnectClick (length (sy_conns S)) host port) (sy_app S)
      then Some (start_connection rt host port S) else None)"
| "sys_exec rt p (Poll clock) S = poll_system rt p clock S"
| "sys_exec rt p (Deliver n) S = deliver rt p n S"
| "sys_exec rt p (Task k l) S =
     (if k < length (sy_conns S)
      then map_option (\<lambda>t. S\<lparr>sy_conns := (sy_conns S)[k := t]\<rparr>) (task_exec rt l (sy_conns S ! k))
      else None)"
| "sys_exec rt p (DropSenders k) S =
     (if k < length (sy_conns S) \<and> cmd_tx (sy_app S) \<noteq> Some k \<and> k \<notin> fst ` set (outbox (sy_app S))
      then Some (S\<lparr>sy_conns := (sy_conns S)[k := (sy_conns S ! k)\<lparr>tk_senders := False\<rparr>]\<rparr>)
      else None)"

inductive sys_reachable :: "('c, 'e) runtime \<Rightarrow> profile \<Rightarrow> ('c, 'e) system \<Rightarrow> bool"
  for rt :: "('c, 'e) runtime" and p :: profile where
  start: "sys_reachable rt p init_system"
| step: "sys_reachable rt p S \<Longrightarrow> sys_exec rt p l S = Some S' \<Longrightarrow> sys_reachable rt p S'"

lemma run_sys_reachable:
  "run_schedule (sys_exec rt p) ls S = Some S' \<Longrightarrow> sys_reachable rt p S \<Longrightarrow> sys_reachable rt p S'"
  by (induction ls arbitrary: S) (auto simp: bind_eq_Some_conv dest: sys_reachable.step)

section \<open>What an input does to the client's end of a connection\<close>

fun event_status :: "from_server \<Rightarrow> connection_status \<Rightarrow> connection_status" where
  "event_status FS_Connected st = Connected"
| "event_status FS_Disconnected st = Disconnected"
| "event_status _ st = st"

lemma receive_message_link:
  assumes "receive_message p clock g t s = Inr s'"
  shows "cmd_tx s' = cmd_tx s \<and> event_rx s' = event_rx s \<and> outbox s' = outbox s \<and>
    connection_status s' = connection_status s"
  using assms by (auto simp: receive_message_def Let_def res_simps split: option.splits if_splits)

lemma handle_event_link:
  assumes "handle_event p clock ev s = Inr s'"
  shows "cmd_tx s' = cmd_tx s \<and> event_rx s' = event_rx s \<and> outbox s' = outbox s \<and>
    connection_status s' = event_status ev (connection_status s)"
  using assms receive_message_link [of p clock _ _ s s']
  by (cases ev)
    (auto simp: add_toast_app confirm_created_def confirm_subscribed_def Let_def
      split: option.splits if_splits)

lemma join_room_link [simp]:
  "cmd_tx (join_room clock tx i n t c s) = cmd_tx s"
  "event_rx (join_room clock tx i n t c s) = event_rx s"
  "connection_status (join_room clock tx i n t c s) = connection_status s"
  by (simp_all add: join_room_def send_command_def push_message_def push_room_def)

definition link_step :: "app_state \<Rightarrow> app_state \<Rightarrow> bool" where
  "link_step s s' \<longleftrightarrow>
     cmd_tx s' = cmd_tx s \<and> event_rx s' = event_rx s \<and>
     (\<exists>new. outbox s' = outbox s @ new \<and> fst ` set new \<subseteq> set_option (cmd_tx s))"

lemma link_step_same:
  "cmd_tx s' = cmd_tx s \<Longrightarrow> event_rx s' = event_rx s \<Longrightarrow> outbox s' = outbox s \<Longrightarrow> link_step s s'"
  by (simp add: link_step_def)

lemma link_step_refl [simp]: "link_step s s"
  by (simp add: link_step_def)

lemma link_step_add_toast: "add_toast p k m s1 = Inr s' \<Longrightarrow> link_step s s1 \<Longrightarrow> link_step s s'"
  by (simp add: link_step_def add_toast_app)

lemma link_step_join_room: "cmd_tx s = Some tx \<Longrightarrow> link_step s (join_room clock tx i n t c s)"
  by (simp add: link_step_def)

lemma ui_step_link:
  assumes "ui_input i" "client_step p clock i s = Inr s'"
  shows "link_step s s' \<and>
    connection_status s' = (if i = DisconnectClick then Disconnected else connection_status s)"
proof (cases i)
  case (CreateClick t)
  with assms obtain t' where "do_create p clock t s = Inr (s', t')" by (auto simp: map_sum_fst_Inr)
  then show ?thesis using CreateClick
    by (cases rule: do_create_cases)
      (auto simp: add_toast_app intro: link_step_add_toast link_step_join_room)
next
  case (SubscribeClick t)
  with assms obtain t' where "do_subscribe p clock t s = Inr (s', t')" by (auto simp: map_sum_fst_Inr)
  then show ?thesis using SubscribeClick
    by (cases rule: do_subscribe_cases)
      (auto simp: add_toast_app intro: link_step_add_toast link_step_join_room)
next
  case DisconnectClick
  with assms show ?thesis
    by (auto simp: click_disconnect_def send_command_def link_step_def split: option.splits)
next
  case (SelectClick j)
  with assms show ?thesis by (auto simp: select_room_def intro: link_step_same)
next
  case (UnsubscribeItemClick j)
  with assms show ?thesis
    by (auto simp: unsubscribe_item_def Let_def remove_room_def add_toast_app
        intro!: link_step_same split: if_splits)
next
  case UnsubscribeHeaderClick
  with assms show ?thesis
    by (auto simp: unsubscribe_header_def remove_room_def add_toast_app
        intro!: link_step_same split: option.splits)
next
  case (SendClick t)
  with assms show ?thesis
    by (auto simp: do_send_def Let_def push_message_def send_command_def link_step_def
        split: option.splits)
next
  case (ToastTimer j)
  with assms show ?thesis by (auto simp: expire_toast_def intro: link_step_same)
next
  case (ToastTaskDropped j)
  with assms show ?thesis by (auto simp: drop_toast_task_def intro: link_step_same)
qed (use assms in auto)

end
