(* ===== verification/System_Invariants.thy ===== *)
theory System_Invariants
  imports System "HOL-Library.Multiset"
begin

text \<open>
  The invariants of the whole system: which connection ends the client holds, that every
  connection behaves like one of \<open>Conn_Task\<close>, that the status shown agrees with what the current
  connection has reported, and where each issued command is.
\<close>

section \<open>The ends the client holds\<close>

text \<open>
  The client sends to and listens to the same connection, it is the only one whose receiver is
  still there, and a connection with commands under way still has a sender.
\<close>

definition held :: "app_state \<Rightarrow> nat set" where
  "held a = set_option (cmd_tx a) \<union> fst ` set (outbox a)"

definition linked :: "('c, 'e) system \<Rightarrow> bool" where
  "linked S \<longleftrightarrow>
     cmd_tx (sy_app S) = event_rx (sy_app S) \<and> held (sy_app S) \<subseteq> {..<length (sy_conns S)} \<and>
     (\<forall>k<length (sy_conns S). tk_listening (sy_conns S ! k) = (event_rx (sy_app S) = Some k)) \<and>
     (\<forall>k\<in>held (sy_app S). tk_senders (sy_conns S ! k))"

lemma held_link_step:
  assumes "link_step s a"
  shows "held a = held s"
proof -
  from assms obtain new where "cmd_tx a = cmd_tx s" "outbox a = outbox s @ new"
      "fst ` set new \<subseteq> set_option (cmd_tx s)"
    by (auto simp: link_step_def)
  then show ?thesis by (simp add: held_def image_Un) blast
qed

lemma held_outbox: "set ob \<subseteq> set (outbox s) \<Longrightarrow> held (s\<lparr>outbox := ob\<rparr>) \<subseteq> held s"
  by (auto simp: held_def)

lemma held_nth: "n < length (outbox s) \<Longrightarrow> outbox s ! n = (k, c) \<Longrightarrow> k \<in> held s"
  by (force simp: held_def in_set_conv_nth)

lemma link_step_ends: "link_step s a \<Longrightarrow> cmd_tx a = cmd_tx s \<and> event_rx a = event_rx s"
  by (simp add: link_step_def)

lemma task_step_ends:
  assumes "task_step rt t t'"
  shows "tk_listening t' = tk_listening t" "tk_senders t' = tk_senders t" "tk_polled t' = tk_polled t"
  using assms by (induction rule: task_step.induct) (auto simp: leave_loop_def dest: send_event_fields)

lemma take_waiting_ends [simp]:
  "tk_listening (take_waiting rt t) = tk_listening t"
  "tk_senders (take_waiting rt t) = tk_senders t"
  "tk_main (take_waiting rt t) = tk_main t"
  "tk_cmds (take_waiting rt t) = tk_cmds t"
  "tk_taken (take_waiting rt t) = tk_taken t"
  by (auto simp: take_waiting_def split: option.splits)

lemma linked_conns:
  assumes "linked S" "tk_listening t = tk_listening (sy_conns S ! k)"
    "tk_senders t = tk_senders (sy_conns S ! k)"
  shows "linked (S\<lparr>sy_conns := (sy_conns S)[k := t]\<rparr>)"
  using assms nth_update_field [of tk_listening t] nth_update_field [of tk_senders t]
  by (simp add: linked_def)

lemma linked_app: "linked S \<Longrightarrow> link_step (sy_app S) a \<Longrightarrow> linked (S\<lparr>sy_app := a\<rparr>)"
  by (simp add: linked_def held_link_step link_step_ends)

lemma linked_outbox:
  "linked S \<Longrightarrow> set ob \<subseteq> set (outbox (sy_app S)) \<Longrightarrow>
   linked (S\<lparr>sy_app := (sy_app S)\<lparr>outbox := ob\<rparr>\<rparr>)"
  using held_outbox [of ob "sy_app S"] by (auto simp: linked_def)

lemma linked_records [simp]:
  "linked (S\<lparr>sy_issued := xs\<rparr>) = linked S"
  "linked (S\<lparr>sy_lost := xs\<rparr>) = linked S"
  by (simp_all add: linked_def)

lemma drop_receiver_length [simp]: "length (drop_receiver old ts) = length ts"
  by (simp add: drop_receiver_def split: option.splits)

lemma drop_receiver_nth:
  "k < length ts \<Longrightarrow> drop_receiver old ts ! k =
     (if old = Some k then (ts ! k)\<lparr>tk_listening := False\<rparr> else ts ! k)"
  by (auto simp: drop_receiver_def split: option.splits)

lemma start_connection_cases:
  obtains (refused) "start_connection rt host port S = S"
  | (started) "start_connection rt host port S =
      S\<lparr>sy_app := (sy_app S)\<lparr>connection_status := Connecting, rooms := [], messages := [],
            active_room_id := None, cmd_tx := Some (length (sy_conns S)),
            event_rx := Some (length (sy_conns S))\<rparr>,
        sy_conns := drop_receiver (event_rx (sy_app S)) (sy_conns S) @ [init_task rt]\<rparr>"
proof (cases "parse_word port :: u16 option")
  case None
  then have "start_connection rt host port S = S"
    by (simp add: start_connection_def click_connect_def)
  then show thesis by (rule refused)
next
  case (Some n)
  then show thesis by (intro started) (simp add: start_connection_def click_connect_def)
qed

lemma start_connection_linked:
  assumes "linked S"
  shows "linked (start_connection rt host port S)"
proof (cases rule: start_connection_cases [of rt host port S])
  case started
  with assms show ?thesis
    by (force simp: linked_def held_def nth_append drop_receiver_nth init_task_def less_Suc_eq)
qed (simp add: assms)

lemma poll_system_cases:
  assumes "poll_system rt p clock S = Some S'"
  obtains (idle) "S' = S"
  | (event) k ev q app' where "event_rx (sy_app S) = Some k" "k < length (sy_conns S)"
      "ch_recv (event_channel rt) (tk_events (sy_conns S ! k)) = Some (ev, q)"
      "handle_event p clock ev (sy_app S) = Inr app'"
      "S' = S\<lparr>sy_app := app', sy_conns := (sy_conns S)[k := (sy_conns S ! k)\<lparr>tk_events := q,
                tk_polled := tk_polled (sy_conns S ! k) @ [ev]\<rparr>]\<rparr>"
proof (cases "event_rx (sy_app S)")
  case None
  with assms show thesis by (intro idle) (simp add: poll_system_def poll_event_cases)
next
  case rx: (Some k)
  show thesis
  proof (cases "k < length (sy_conns S) \<and> ch_recv (event_channel rt) (tk_events (sy_conns S ! k)) \<noteq> None")
    case True
    then obtain ev q where "ch_recv (event_channel rt) (tk_events (sy_conns S ! k)) = Some (ev, q)"
      by auto
    moreover from this assms rx True obtain app' where "handle_event p clock ev (sy_app S) = Inr app'"
      by (auto simp: poll_system_def poll_event_cases waiting_event_def split: sum.splits)
    ultimately show thesis using assms rx True
      by (intro event [OF rx])
        (auto simp: poll_system_def poll_event_cases waiting_event_def take_waiting_def)
  next
    case False
    then consider "length (sy_conns S) \<le> k"
      | "ch_recv (event_channel rt) (tk_events (sy_conns S ! k)) = None" by linarith
    then have "waiting_event rt (sy_conns S) k = None \<and>
        (sy_conns S)[k := take_waiting rt (sy_conns S ! k)] = sy_conns S"
      by cases (simp_all add: waiting_event_def take_waiting_def list_update_beyond)
    then have "S' = S" using assms rx by (simp add: poll_system_def poll_event_cases)
    then show thesis by (rule idle)
  qed
qed

lemma deliver_cases:
  assumes "deliver rt p n S = Some S'"
  obtains k c where "n < length (outbox (sy_app S))" "outbox (sy_app S) ! n = (k, c)"
      "k < length (sy_conns S)" "tk_main (sy_conns S ! k) = MainDone"
      "S' = S\<lparr>sy_app := (sy_app S)\<lparr>outbox := take n (outbox (sy_app S)) @ drop (Suc n) (outbox (sy_app S))\<rparr>,
              sy_lost := sy_lost S @ [(k, c)]\<rparr>"
  | k c q where "n < length (outbox (sy_app S))" "outbox (sy_app S) ! n = (k, c)"
      "k < length (sy_conns S)" "tk_main (sy_conns S ! k) \<noteq> MainDone"
      "ch_send (command_channel rt) c (tk_cmds (sy_conns S ! k)) = Some q"
      "S' = S\<lparr>sy_app := (sy_app S)\<lparr>outbox := take n (outbox (sy_app S)) @ drop (Suc n) (outbox (sy_app S))\<rparr>,
              sy_conns := (sy_conns S)[k := (sy_conns S ! k)\<lparr>tk_cmds := q\<rparr>]\<rparr>"
proof -
  obtain k c where kc: "outbox (sy_app S) ! n = (k, c)" by fastforce
  from assms kc have n: "n < length (outbox (sy_app S))" "k < length (sy_conns S)"
    by (auto simp: deliver_def Let_def split: if_splits)
  show thesis
  proof (cases "tk_main (sy_conns S ! k) = MainDone")
    case True
    with assms kc n show thesis by (intro that(1) [OF n(1) kc n(2) True]) (auto simp: deliver_def)
  next
    case False
    with assms kc n obtain q where
      "ch_send (command_channel rt) c (tk_cmds (sy_conns S ! k)) = Some q"
      "S' = S\<lparr>sy_app := (sy_app S)\<lparr>outbox := take n (outbox (sy_app S)) @ drop (Suc n) (outbox (sy_app S))\<rparr>,
              sy_conns := (sy_conns S)[k := (sy_conns S ! k)\<lparr>tk_cmds := q\<rparr>]\<rparr>"
      by (auto simp: deliver_def Let_def)
    with kc n False show thesis by (intro that(2))
  qed
qed

lemma set_remove_nth: "set (take n xs @ drop (Suc n) xs) \<subseteq> set xs"
  using set_take_subset [of n xs] set_drop_subset [of "Suc n" xs] by auto

lemma deliver_linked:
  assumes "linked S" "deliver rt p n S = Some S'"
  shows "linked S'"
proof -
  let ?ob = "take n (outbox (sy_app S)) @ drop (Suc n) (outbox (sy_app S))"
  have sub: "set ?ob \<subseteq> set (outbox (sy_app S))"
    using set_take_subset [of n "outbox (sy_app S)"] set_drop_subset [of "Suc n" "outbox (sy_app S)"]
    by auto
  have ob: "linked (S\<lparr>sy_app := (sy_app S)\<lparr>outbox := ?ob\<rparr>\<rparr>)"
    using assms(1) sub by (rule linked_outbox)
  from assms(2) show ?thesis
  proof (cases rule: deliver_cases)
    case (1 k c)
    with ob show ?thesis by simp
  next
    case (2 k c q)
    with linked_conns [OF ob, of "(sy_conns S ! k)\<lparr>tk_cmds := q\<rparr>" k] show ?thesis by simp
  qed
qed

lemma poll_system_linked:
  assumes "linked S" "poll_system rt p clock S = Some S'"
  shows "linked S'"
  using assms(2)
proof (cases rule: poll_system_cases)
  case idle
  with assms show ?thesis by simp
next
  case (event k ev q app')
  have "link_step (sy_app S) app'"
    using handle_event_link [OF event(4)] by (simp add: link_step_same)
  with assms(1) have "linked (S\<lparr>sy_app := app'\<rparr>)" by (rule linked_app)
  then have "linked (S\<lparr>sy_app := app', sy_conns := (sy_conns S)[k := (sy_conns S ! k)\<lparr>tk_events := q,
      tk_polled := tk_polled (sy_conns S ! k) @ [ev]\<rparr>]\<rparr>)"
    using linked_conns [of "S\<lparr>sy_app := app'\<rparr>" "(sy_conns S ! k)\<lparr>tk_events := q,
      tk_polled := tk_polled (sy_conns S ! k) @ [ev]\<rparr>" k] by simp
  with event(5) show ?thesis by simp
qed

lemma sys_exec_linked:
  assumes "linked S" "sys_exec rt p l S = Some S'"
  shows "linked S'"
proof (cases l)
  case (Screen clock i)
  with assms obtain a where "link_step (sy_app S) a" "S' = S\<lparr>sy_app := a,
      sy_issued := sy_issued S @ drop (length (outbox (sy_app S))) (outbox a)\<rparr>"
    by (auto split: if_splits sum.splits dest: ui_step_link)
  with linked_app [OF assms(1), of a] show ?thesis by simp
next
  case (Start host port)
  with assms show ?thesis by (auto intro: start_connection_linked split: if_splits)
next
  case (Poll clock)
  with assms show ?thesis by (auto intro: poll_system_linked)
next
  case (Deliver n)
  with assms show ?thesis by (auto intro: deliver_linked)
next
  case (Task k t)
  with assms show ?thesis
    by (auto split: if_splits dest!: task_exec_sound intro!: linked_conns dest: task_step_ends)
next
  case (DropSenders k)
  with assms have "k \<notin> held (sy_app S)" "S' = S\<lparr>sy_conns := (sy_conns S)[k :=
      (sy_conns S ! k)\<lparr>tk_senders := False\<rparr>]\<rparr>"
    by (auto simp: held_def split: if_splits)
  with assms(1) nth_update_field [of tk_listening "(sy_conns S ! k)\<lparr>tk_senders := False\<rparr>"]
  show ?thesis by (auto simp: linked_def) (metis nth_list_update_neq)
qed

lemma reachable_linked: "sys_reachable rt p S \<Longrightarrow> linked S"
proof (induction rule: sys_reachable.induct)
  case start
  show ?case by (simp add: linked_def held_def init_system_def init_app_def)
qed (blast intro: sys_exec_linked)

section \<open>Every connection is one of Conn_Task\<close>

definition conns_ok :: "('c, 'e) runtime \<Rightarrow> ('c, 'e) system \<Rightarrow> bool" where
  "conns_ok rt S \<longleftrightarrow> (\<forall>t\<in>set (sy_conns S). conn_reachable rt t)"

lemma conns_ok_update:
  assumes "conns_ok rt S" "k < length (sy_conns S)" "conn_step rt (sy_conns S ! k) t"
    "sy_conns S' = (sy_conns S)[k := t]"
  shows "conns_ok rt S'"
proof -
  have "conn_reachable rt t"
    using assms by (auto simp: conns_ok_def intro: conn_reachable.step)
  with assms(1,4) show ?thesis
    using set_update_subset_insert [of "sy_conns S" k t] by (auto simp: conns_ok_def)
qed

lemma start_connection_conns_ok:
  assumes "conns_ok rt S"
  shows "conns_ok rt (start_connection rt host port S)"
proof (cases rule: start_connection_cases [of rt host port S])
  case started
  have "conns_ok rt (S\<lparr>sy_conns := drop_receiver old (sy_conns S)\<rparr>)" for old
  proof (cases "\<exists>j<length (sy_conns S). old = Some j")
    case True
    with assms show ?thesis
      by (auto simp: drop_receiver_def intro: conns_ok_update [OF assms _ conn_step.receiver_dropped])
  next
    case False
    with assms have "drop_receiver old (sy_conns S) = sy_conns S"
      by (auto simp: drop_receiver_def split: option.splits)
    with assms show ?thesis by (simp add: conns_ok_def)
  qed
  with started show ?thesis by (auto simp: conns_ok_def intro: conn_reachable.start)
qed (simp add: assms)

lemma sys_exec_conns_ok:
  assumes "linked S" "conns_ok rt S" "sys_exec rt p l S = Some S'"
  shows "conns_ok rt S'"
proof (cases l)
  case (Screen clock i)
  with assms show ?thesis by (auto simp: conns_ok_def split: if_splits sum.splits)
next
  case (Start host port)
  with assms show ?thesis by (auto intro: start_connection_conns_ok split: if_splits)
next
  case (Poll clock)
  with assms have "poll_system rt p clock S = Some S'" by simp
  then show ?thesis
  proof (cases rule: poll_system_cases)
    case (event k ev q app')
    with assms(1) have "tk_listening (sy_conns S ! k)" by (simp add: linked_def)
    with event have "conn_step rt (sy_conns S ! k) ((sy_conns S ! k)\<lparr>tk_events := q,
        tk_polled := tk_polled (sy_conns S ! k) @ [ev]\<rparr>)"
      by (intro conn_step.client_poll)
    from conns_ok_update [OF assms(2) event(2) this] event(5) show ?thesis by simp
  qed (use assms in simp)
next
  case (Deliver n)
  with assms have "deliver rt p n S = Some S'" by simp
  then show ?thesis
  proof (cases rule: deliver_cases)
    case (1 k c)
    with assms(2) show ?thesis by (simp add: conns_ok_def)
  next
    case (2 k c q)
    with assms(1) have "tk_senders (sy_conns S ! k)"
      using held_nth [of n "sy_app S" k c] by (simp add: linked_def)
    with 2 have "conn_step rt (sy_conns S ! k) ((sy_conns S ! k)\<lparr>tk_cmds := q\<rparr>)"
      by (intro conn_step.client_command)
    from conns_ok_update [OF assms(2) 2(3) this] 2(6) show ?thesis by simp
  qed
next
  case (Task k tl)
  with assms(3) obtain t where t: "k < length (sy_conns S)" "task_exec rt tl (sy_conns S ! k) = Some t"
      "S' = S\<lparr>sy_conns := (sy_conns S)[k := t]\<rparr>"
    by (auto split: if_splits)
  from conns_ok_update [OF assms(2) t(1) conn_step.task [OF task_exec_sound [OF t(2)]]] t(3)
  show ?thesis by simp
next
  case (DropSenders k)
  with assms(3) have k: "k < length (sy_conns S)"
      "S' = S\<lparr>sy_conns := (sy_conns S)[k := (sy_conns S ! k)\<lparr>tk_senders := False\<rparr>]\<rparr>"
    by (auto split: if_splits)
  from conns_ok_update [OF assms(2) k(1) conn_step.senders_dropped] k(2) show ?thesis by simp
qed

lemma reachable_conns_ok: "sys_reachable rt p S \<Longrightarrow> conns_ok rt S"
proof (induction rule: sys_reachable.induct)
  case start
  show ?case by (simp add: conns_ok_def init_system_def)
qed (blast intro: sys_exec_conns_ok reachable_linked)

lemma reachable_conn: "sys_reachable rt p S \<Longrightarrow> k < length (sy_conns S) \<Longrightarrow> conn_reachable rt (sy_conns S ! k)"
  using reachable_conns_ok [of rt p S] by (simp add: conns_ok_def)

end
