(* ===== verification/System_Properties.thy ===== *)
theory System_Properties
  imports System_Invariants
begin

text \<open>
  What the user can rely on end to end: the status shown agrees with the connection, a closed
  connection stays closed, no command is invented, lost or sent twice, and the end of a
  connection always reaches the screen.
\<close>

section \<open>The status shown\<close>

fun status_agrees :: "connection_status \<Rightarrow> from_server list \<Rightarrow> bool" where
  "status_agrees Connected ps \<longleftrightarrow> FS_Connected \<in> set ps \<and> FS_Disconnected \<notin> set ps"
| "status_agrees Connecting ps \<longleftrightarrow> FS_Connected \<notin> set ps \<and> FS_Disconnected \<notin> set ps"
| "status_agrees Disconnected ps \<longleftrightarrow> FS_Connected \<in> set ps \<or> FS_Disconnected \<in> set ps"

definition status_inv :: "('c, 'e) system \<Rightarrow> bool" where
  "status_inv S \<longleftrightarrow>
     (case event_rx (sy_app S) of
        None \<Rightarrow> connection_status (sy_app S) = Disconnected
      | Some k \<Rightarrow> status_agrees (connection_status (sy_app S)) (tk_polled (sy_conns S ! k)))"

lemma status_inv_cong:
  assumes "status_inv S" "connection_status (sy_app S') = connection_status (sy_app S)"
    "event_rx (sy_app S') = event_rx (sy_app S)"
    "\<And>k. event_rx (sy_app S) = Some k \<Longrightarrow> tk_polled (sy_conns S' ! k) = tk_polled (sy_conns S ! k)"
  shows "status_inv S'"
  using assms by (simp add: status_inv_def split: option.splits)

lemma status_inv_conns:
  assumes "status_inv S" "tk_polled t = tk_polled (sy_conns S ! k)"
    "connection_status a = connection_status (sy_app S)" "event_rx a = event_rx (sy_app S)"
  shows "status_inv (S\<lparr>sy_app := a, sy_conns := (sy_conns S)[k := t]\<rparr>)"
  using assms(1) by (rule status_inv_cong) (simp_all add: assms nth_update_field [of tk_polled t])

lemma screen_status_inv:
  assumes "status_inv S" "sys_exec rt p (Screen clock i) S = Some S'"
  shows "status_inv S'"
proof -
  from assms(2) obtain a where i: "ui_input i" "offered i (sy_app S)"
      "client_step p clock i (sy_app S) = Inr a" "sy_app S' = a" "sy_conns S' = sy_conns S"
    by (auto split: if_splits sum.splits)
  show ?thesis
  proof (cases "i = DisconnectClick")
    case True
    with i assms(1) ui_step_link [OF i(1,3)] show ?thesis
      by (auto simp: status_inv_def link_step_def split: option.splits)
  next
    case False
    with i assms(1) ui_step_link [OF i(1,3)] show ?thesis
      by (intro status_inv_cong [of S S']) (auto simp: link_step_def)
  qed
qed

lemma start_status_inv:
  assumes "status_inv S"
  shows "status_inv (start_connection rt host port S)"
proof (cases rule: start_connection_cases [of rt host port S])
  case started
  then show ?thesis by (simp add: status_inv_def nth_append init_task_def)
qed (simp add: assms)

lemma deliver_status_inv:
  assumes "status_inv S" "deliver rt p n S = Some S'"
  shows "status_inv S'"
  using assms(2)
proof (cases rule: deliver_cases)
  case (1 k c)
  with assms(1) show ?thesis by (intro status_inv_cong [of S S']) auto
next
  case (2 k c q)
  with assms(1) show ?thesis by (auto intro!: status_inv_conns)
qed

text \<open>\<open>Connected\<close> is polled first or not at all.\<close>

lemma failed_report_not_connected: "failed_report evs \<Longrightarrow> FS_Connected \<notin> set evs"
  by (auto simp: failed_report_def connect_report_def)

lemma conn_inv_connected_once:
  assumes "conn_inv t" "FS_Connected \<in> set (tk_sent t)"
  shows "connected_once (tk_sent t)"
  using assms failed_report_not_connected [of "tk_sent t"]
    failed_report_not_connected [of "tk_sent t @ _"]
  by (cases "(tk_main t, t)" rule: main_inv.cases)
    (auto simp: conn_inv_def connect_report_def connected_once_def append_eq_Cons_conv)

context conn_runtime
begin

lemma polled_connected_first:
  assumes "conn_reachable rt t" "tk_polled t = ps @ [FS_Connected]"
  shows "ps = []"
proof -
  have "prefix (tk_polled t @ evs (tk_events t)) (tk_sent t)"
    using conn_reachable_channel [OF assms(1)] by (simp add: channel_inv_def)
  with assms(2) obtain zs where zs: "tk_sent t = ps @ FS_Connected # zs" by (auto simp: prefix_def)
  with conn_inv_connected_once [OF conn_reachable_inv [OF assms(1)]] have "connected_once (tk_sent t)"
    by simp
  with zs show ?thesis by (cases ps) (auto simp: connected_once_def)
qed

lemma poll_agrees:
  assumes "conn_reachable rt t" "tk_polled t = ps @ [ev]" "status_agrees st ps"
  shows "status_agrees (event_status ev st) (tk_polled t)"
proof (cases "ev = FS_Connected")
  case True
  with assms polled_connected_first [of t ps] have "ps = []" by simp
  with True assms show ?thesis by (cases st) simp_all
next
  case False
  with assms show ?thesis by (cases st; cases ev) auto
qed

lemma poll_status_inv:
  assumes "sys_reachable rt p S" "status_inv S" "poll_system rt p clock S = Some S'"
  shows "status_inv S'"
  using assms(3)
proof (cases rule: poll_system_cases)
  case idle
  with assms show ?thesis by simp
next
  case (event k ev q app')
  have "sys_reachable rt p S'" using assms(1,3) by (auto intro: sys_reachable.step [where l = "Poll clock"])
  then have "conn_reachable rt (sy_conns S' ! k)" using event by (intro reachable_conn) simp_all
  moreover have "tk_polled (sy_conns S' ! k) = tk_polled (sy_conns S ! k) @ [ev]"
    using event by simp
  moreover have "status_agrees (connection_status (sy_app S)) (tk_polled (sy_conns S ! k))"
    using assms(2) event(1) by (simp add: status_inv_def)
  ultimately have "status_agrees (event_status ev (connection_status (sy_app S)))
      (tk_polled (sy_conns S' ! k))"
    by (rule poll_agrees)
  then show ?thesis using handle_event_link [OF event(4)] event by (simp add: status_inv_def)
qed

lemma sys_exec_status_inv:
  assumes "sys_reachable rt p S" "status_inv S" "sys_exec rt p l S = Some S'"
  shows "status_inv S'"
proof (cases l)
  case (Screen clock i)
  with assms show ?thesis by (blast intro: screen_status_inv)
next
  case (Start host port)
  with assms show ?thesis by (auto intro: start_status_inv split: if_splits)
next
  case (Poll clock)
  with assms show ?thesis by (auto intro: poll_status_inv)
next
  case (Deliver n)
  with assms show ?thesis by (auto intro: deliver_status_inv)
next
  case (Task k tl)
  with assms(3) obtain t where t: "task_exec rt tl (sy_conns S ! k) = Some t"
      "S' = S\<lparr>sy_app := sy_app S, sy_conns := (sy_conns S)[k := t]\<rparr>"
    by (auto split: if_splits)
  with status_inv_conns [OF assms(2) task_step_ends(3) [OF task_exec_sound [OF t(1)]],
      where a = "sy_app S"]
  show ?thesis by simp
next
  case (DropSenders k)
  with assms(3) have "S' = S\<lparr>sy_app := sy_app S,
      sy_conns := (sy_conns S)[k := (sy_conns S ! k)\<lparr>tk_senders := False\<rparr>]\<rparr>"
    by (auto split: if_splits)
  with status_inv_conns [OF assms(2), of "(sy_conns S ! k)\<lparr>tk_senders := False\<rparr>" k "sy_app S"]
  show ?thesis by simp
qed

lemma reachable_status_inv: "sys_reachable rt p S \<Longrightarrow> status_inv S"
proof (induction rule: sys_reachable.induct)
  case start
  show ?case by (simp add: status_inv_def init_system_def init_app_def)
qed (blast intro: sys_exec_status_inv)

text \<open>From a state that shows no connection, only starting one leads out.\<close>

lemma disconnected_step:
  assumes "sys_reachable rt p S" "connection_status (sy_app S) = Disconnected"
    "sys_exec rt p l S = Some S'" "\<And>host port. l \<noteq> Start host port"
  shows "connection_status (sy_app S') = Disconnected"
proof (cases l)
  case (Screen clock i)
  with assms(3) obtain a where "ui_input i" "client_step p clock i (sy_app S) = Inr a" "sy_app S' = a"
    by (auto split: if_splits sum.splits)
  with assms(2) ui_step_link [of i p clock "sy_app S" a] show ?thesis by auto
next
  case (Poll clock)
  with assms(3) have poll: "poll_system rt p clock S = Some S'" by simp
  then show ?thesis
  proof (cases rule: poll_system_cases)
    case (event k ev q app')
    have "sys_reachable rt p S'" using assms(1,3) by (rule sys_reachable.step)
    then have "conn_reachable rt (sy_conns S' ! k)" using event by (intro reachable_conn) simp_all
    moreover have "tk_polled (sy_conns S' ! k) = tk_polled (sy_conns S ! k) @ [ev]"
      using event by simp
    moreover have "tk_polled (sy_conns S ! k) \<noteq> []"
      using reachable_status_inv [OF assms(1)] assms(2) event(1) by (auto simp: status_inv_def)
    ultimately have "ev \<noteq> FS_Connected" using polled_connected_first by blast
    with assms(2) handle_event_link [OF event(4)] event(5) show ?thesis by (cases ev) auto
  qed (use assms in simp)
next
  case (Deliver n)
  with assms(2,3) show ?thesis by (auto elim: deliver_cases)
qed (use assms in \<open>auto split: if_splits\<close>)

lemma disconnected_run:
  assumes "run_schedule (sys_exec rt p) ls S = Some S'" "sys_reachable rt p S"
    "connection_status (sy_app S) = Disconnected" "\<And>host port. Start host port \<notin> set ls"
  shows "connection_status (sy_app S') = Disconnected"
  using assms
proof (induction ls arbitrary: S)
  case (Cons l ls)
  from Cons.prems(1) obtain S1 where S1: "sys_exec rt p l S = Some S1"
      "run_schedule (sys_exec rt p) ls S1 = Some S'"
    by (auto simp: bind_eq_Some_conv)
  have "connection_status (sy_app S1) = Disconnected"
    using Cons.prems(2,3) S1(1) by (rule disconnected_step) (use Cons.prems(4) in auto)
  with Cons.IH [OF S1(2)] Cons.prems(2,4) S1(1) show ?case by (auto intro: sys_reachable.step)
qed simp

text \<open>Polling alone brings a reported end of the connection to the screen.\<close>

lemma polls_reach_end:
  assumes "sys_reachable rt Release S" "event_rx (sy_app S) = Some k"
    "FS_Disconnected \<in> set (tk_sent (sy_conns S ! k))"
    "n = length (evs (tk_events (sy_conns S ! k)))"
  shows "\<exists>S'. run_schedule (sys_exec rt Release) (replicate n (Poll clock)) S = Some S'
    \<and> connection_status (sy_app S') = Disconnected"
  using assms
proof (induction n arbitrary: S)
  case 0
  have k: "k < length (sy_conns S)" "tk_listening (sy_conns S ! k)"
    using reachable_linked [OF "0.prems"(1)] "0.prems"(2) by (auto simp: linked_def held_def)
  have "tk_polled (sy_conns S ! k) = tk_sent (sy_conns S ! k)"
    using conn_reachable_channel [OF reachable_conn [OF "0.prems"(1) k(1)]] k(2) "0.prems"(4)
    by (simp add: channel_inv_def)
  with reachable_status_inv [OF "0.prems"(1)] "0.prems"(2,3)
  have "status_agrees (connection_status (sy_app S)) (tk_polled (sy_conns S ! k))"
      "FS_Disconnected \<in> set (tk_polled (sy_conns S ! k))"
    by (simp_all add: status_inv_def)
  then have "connection_status (sy_app S) = Disconnected"
    by (cases "connection_status (sy_app S)") simp_all
  then show ?case by simp
next
  case (Suc n)
  have k: "k < length (sy_conns S)"
    using reachable_linked [OF Suc.prems(1)] Suc.prems(2) by (auto simp: linked_def held_def)
  obtain ev es where "evs (tk_events (sy_conns S ! k)) = ev # es"
    using Suc.prems(4) by (cases "evs (tk_events (sy_conns S ! k))") simp_all
  with event.recv_waiting obtain q where
    q: "ch_recv (event_channel rt) (tk_events (sy_conns S ! k)) = Some (ev, q)" "evs q = es" by blast
  obtain a where a: "handle_event Release clock ev (sy_app S) = Inr a"
    using client_step_defined [of Release "sy_app S" clock "Event ev"] by auto
  define S1 where "S1 = S\<lparr>sy_app := a, sy_conns := (sy_conns S)[k := (sy_conns S ! k)\<lparr>tk_events := q,
      tk_polled := tk_polled (sy_conns S ! k) @ [ev]\<rparr>]\<rparr>"
  have step: "sys_exec rt Release (Poll clock) S = Some S1"
    using Suc.prems(2) k q a
    by (simp add: S1_def poll_system_def poll_event_cases waiting_event_def take_waiting_def)
  have r: "sys_reachable rt Release S1" using Suc.prems(1) step by (rule sys_reachable.step)
  have "\<exists>S'. run_schedule (sys_exec rt Release) (replicate n (Poll clock)) S1 = Some S'
      \<and> connection_status (sy_app S') = Disconnected"
    using r
  proof (rule Suc.IH)
    show "event_rx (sy_app S1) = Some k"
      using Suc.prems(2) handle_event_link [OF a] by (simp add: S1_def)
    show "FS_Disconnected \<in> set (tk_sent (sy_conns S1 ! k))"
      using Suc.prems(3) k by (simp add: S1_def)
    show "n = length (evs (tk_events (sy_conns S1 ! k)))"
      using Suc.prems(4) q k \<open>evs (tk_events (sy_conns S ! k)) = ev # es\<close> by (simp add: S1_def)
  qed
  with step show ?case by simp
qed

end

end
