(* ===== verification/System_Flow.thy ===== *)
theory System_Flow
  imports System_Properties
begin

text \<open>
  Where the commands are: every command handed to a spawned task is in exactly one place, taken by
  its connection, waiting in that connection's channel, not delivered yet, or lost because the
  connection had returned.
\<close>

definition for_conn :: "nat \<Rightarrow> (nat \<times> to_server) list \<Rightarrow> to_server list" where
  "for_conn k xs = map snd (filter (\<lambda>x. fst x = k) xs)"

lemma for_conn_simps [simp]:
  "for_conn k [] = []"
  "for_conn k (xs @ ys) = for_conn k xs @ for_conn k ys"
  "for_conn k (x # xs) = (if fst x = k then [snd x] else []) @ for_conn k xs"
  by (simp_all add: for_conn_def)

lemma for_conn_remove:
  assumes "n < length xs" "xs ! n = (j, c)"
  shows "mset (for_conn k xs) =
    mset (for_conn k (take n xs @ drop (Suc n) xs)) + (if j = k then {#c#} else {#})"
proof -
  have "xs = take n xs @ (j, c) # drop (Suc n) xs"
    using id_take_nth_drop [OF assms(1)] assms(2) by simp
  then have "mset (for_conn k xs) = mset (for_conn k (take n xs @ (j, c) # drop (Suc n) xs))" by simp
  also have "\<dots> = mset (for_conn k (take n xs @ drop (Suc n) xs)) + (if j = k then {#c#} else {#})"
    by (simp only: for_conn_simps) simp
  finally show ?thesis .
qed

lemma for_conn_absent: "k \<notin> fst ` set xs \<Longrightarrow> for_conn k xs = []"
  by (force simp: for_conn_def filter_empty_conv)

text \<open>The commands a connection has taken or holds.\<close>

definition arrived :: "('c \<Rightarrow> to_server list) \<Rightarrow> ('c, 'e) conn_task \<Rightarrow> to_server multiset" where
  "arrived cmds t = mset (tk_taken t) + mset (cmds (tk_cmds t))"

definition flow_inv :: "('c \<Rightarrow> to_server list) \<Rightarrow> ('c, 'e) system \<Rightarrow> bool" where
  "flow_inv cmds S \<longleftrightarrow>
     (\<forall>k<length (sy_conns S).
        mset (for_conn k (sy_issued S)) =
          arrived cmds (sy_conns S ! k) + mset (for_conn k (outbox (sy_app S))) +
          mset (for_conn k (sy_lost S)) \<and>
        (for_conn k (sy_lost S) = [] \<or> tk_main (sy_conns S ! k) = MainDone)) \<and>
     fst ` set (sy_issued S) \<union> fst ` set (sy_lost S) \<subseteq> {..<length (sy_conns S)}"

lemma task_step_done: "task_step rt t t' \<Longrightarrow> tk_main t = MainDone \<Longrightarrow> tk_main t' = MainDone"
  by (induction rule: task_step.induct) (auto dest: send_event_fields)

lemma flow_inv_conns:
  assumes "flow_inv cmds S" "arrived cmds t = arrived cmds (sy_conns S ! k)"
    "tk_main (sy_conns S ! k) = MainDone \<Longrightarrow> tk_main t = MainDone" "outbox a = outbox (sy_app S)"
  shows "flow_inv cmds (S\<lparr>sy_app := a, sy_conns := (sy_conns S)[k := t]\<rparr>)"
proof -
  have "tk_main (sy_conns S ! j) = MainDone \<Longrightarrow> tk_main ((sy_conns S)[k := t] ! j) = MainDone" for j
    using assms(3) by (cases "j = k"; cases "k < length (sy_conns S)") (simp_all add: list_update_beyond)
  with assms(1,4) nth_update_field [of "arrived cmds" t "sy_conns S" k, OF assms(2)]
  show ?thesis by (auto simp: flow_inv_def)
qed

lemma screen_flow:
  assumes "linked S" "flow_inv cmds S" "sys_exec rt p (Screen clock i) S = Some S'"
  shows "flow_inv cmds S'"
proof -
  from assms(3) obtain a where a: "ui_input i" "client_step p clock i (sy_app S) = Inr a"
      "S' = S\<lparr>sy_app := a, sy_issued := sy_issued S @ drop (length (outbox (sy_app S))) (outbox a)\<rparr>"
    by (auto split: if_splits sum.splits)
  from ui_step_link [OF a(1,2)] obtain new where "outbox a = outbox (sy_app S) @ new"
      "fst ` set new \<subseteq> set_option (cmd_tx (sy_app S))"
    by (auto simp: link_step_def)
  moreover from this(2) assms(1) have "fst ` set new \<subseteq> {..<length (sy_conns S)}"
    by (auto simp: linked_def held_def)
  ultimately show ?thesis using assms(2) a(3) by (simp add: flow_inv_def image_Un)
qed

lemma deliver_flow:
  assumes "flow_inv cmds S" "deliver rt p n S = Some S'"
    and sent: "\<And>c q q'. ch_send (command_channel rt) c q = Some q' \<Longrightarrow> cmds q' = cmds q @ [c]"
  shows "flow_inv cmds S'"
  using assms(2)
proof (cases rule: deliver_cases)
  case (1 k c)
  with assms(1) show ?thesis
    by (auto simp: flow_inv_def for_conn_remove [OF 1(1,2)])
next
  case (2 k c q)
  have "arrived cmds ((sy_conns S ! k)\<lparr>tk_cmds := q\<rparr>) = arrived cmds (sy_conns S ! k) + {#c#}"
    using sent [OF 2(5)] by (simp add: arrived_def)
  with assms(1) 2 show ?thesis
    by (auto simp: flow_inv_def for_conn_remove [OF 2(1,2)] nth_list_update)
qed

context conn_runtime
begin

lemma task_step_arrived: "task_step rt t t' \<Longrightarrow> arrived cmds t' = arrived cmds t"
proof (induction rule: task_step.induct)
  case (take_command t c cs w bs k t1)
  then show ?case
    using command.recv_content [of "tk_cmds t" c cs] by (auto simp: arrived_def leave_loop_def)
qed (simp_all add: arrived_def leave_loop_def send_event_fields)

lemma start_flow:
  assumes "linked S" "flow_inv cmds S"
  shows "flow_inv cmds (start_connection rt host port S)"
proof (cases rule: start_connection_cases [of rt host port S])
  case started
  let ?n = "length (sy_conns S)"
  have "?n \<notin> fst ` set (sy_issued S)" "?n \<notin> fst ` set (sy_lost S)" "?n \<notin> fst ` set (outbox (sy_app S))"
    using assms by (auto simp: flow_inv_def linked_def held_def)
  then have new: "for_conn ?n (sy_issued S) = []" "for_conn ?n (sy_lost S) = []"
      "for_conn ?n (outbox (sy_app S)) = []" "arrived cmds (init_task rt) = {#}"
    using command.new_content by (simp_all add: for_conn_absent arrived_def init_task_def)
  have old: "arrived cmds (drop_receiver r (sy_conns S) ! k) = arrived cmds (sy_conns S ! k)"
      "tk_main (drop_receiver r (sy_conns S) ! k) = tk_main (sy_conns S ! k)"
    if "k < ?n" for k r
    using that by (simp_all add: drop_receiver_nth arrived_def)
  have sub: "fst ` set (sy_issued S) \<union> fst ` set (sy_lost S) \<subseteq> {..<Suc ?n}"
    using assms(2) by (auto simp: flow_inv_def)
  show ?thesis
    using assms(2) new old sub
    by (simp add: started flow_inv_def nth_append less_Suc_eq)
qed (simp add: assms)

lemma sys_exec_flow:
  assumes "linked S" "flow_inv cmds S" "sys_exec rt p l S = Some S'"
  shows "flow_inv cmds S'"
proof (cases l)
  case (Screen clock i)
  with assms show ?thesis by (blast intro: screen_flow)
next
  case (Start host port)
  with assms show ?thesis by (auto intro: start_flow split: if_splits)
next
  case (Poll clock)
  with assms(3) have "poll_system rt p clock S = Some S'" by simp
  then show ?thesis
  proof (cases rule: poll_system_cases)
    case (event k ev q a)
    with flow_inv_conns [OF assms(2), of "(sy_conns S ! k)\<lparr>tk_events := q,
        tk_polled := tk_polled (sy_conns S ! k) @ [ev]\<rparr>" k a] handle_event_link [OF event(4)]
    show ?thesis by (simp add: arrived_def)
  qed (use assms in simp)
next
  case (Deliver n)
  with assms(2,3) show ?thesis by (auto intro: deliver_flow command.send_content)
next
  case (Task k tl)
  with assms(3) obtain t where t: "task_exec rt tl (sy_conns S ! k) = Some t"
      "S' = S\<lparr>sy_conns := (sy_conns S)[k := t]\<rparr>"
    by (auto split: if_splits)
  note step = task_exec_sound [OF t(1)]
  from flow_inv_conns [OF assms(2) task_step_arrived [OF step] task_step_done [OF step],
      where a = "sy_app S"] t(2)
  show ?thesis by simp
next
  case (DropSenders k)
  with assms(3) have "S' = S\<lparr>sy_conns := (sy_conns S)[k := (sy_conns S ! k)\<lparr>tk_senders := False\<rparr>]\<rparr>"
    by (auto split: if_splits)
  with flow_inv_conns [OF assms(2), of "(sy_conns S ! k)\<lparr>tk_senders := False\<rparr>" k "sy_app S"]
  show ?thesis by (simp add: arrived_def)
qed

lemma reachable_flow: "sys_reachable rt p S \<Longrightarrow> flow_inv cmds S"
proof (induction rule: sys_reachable.induct)
  case start
  show ?case by (simp add: flow_inv_def init_system_def)
qed (blast intro: sys_exec_flow reachable_linked)

end

end
