(* ===== verification/System_Guarantees.thy ===== *)
theory System_Guarantees
  imports System_Flow
begin

text \<open>
  The end-to-end properties of the client with its connections, and runs of the system that the
  witnesses evaluate.
\<close>

section \<open>Runs to evaluate\<close>

abbreviation vec_run ::
  "sys_label list \<Rightarrow> (to_server list, from_server list) system \<Rightarrow>
   (to_server list, from_server list) system option" where
  "vec_run \<equiv> run_schedule (sys_exec vec_runtime Release)"

text \<open>
  Connect, create a room, open it and write two messages; the task of the second one is quicker.
\<close>

definition busy_run :: "sys_label list" where
  "busy_run =
     [Start (lit ''localhost'') (lit ''4040''), Task 0 (DoConnect None), Task 0 DoMainSend,
      Task 0 DoMainGo, Poll 0, Screen 0 (CreateClick (lit ''a'')), Screen 0 (SelectClick 1),
      Screen 0 (SendClick (lit ''first'')), Screen 0 (SendClick (lit ''second'')),
      Deliver 0, Deliver 1, Deliver 0, Task 0 (DoCommand WriteOk), Task 0 (DoCommand WriteOk),
      Task 0 (DoCommand WriteOk)]"

definition busy_system :: "(to_server list, from_server list) system" where
  "busy_system = the (vec_run busy_run init_system)"

lemma busy_system_value: "vec_run busy_run init_system = Some busy_system"
  by code_simp

lemma busy_system_reachable: "sys_reachable vec_runtime Release busy_system"
  by (rule run_sys_reachable [OF busy_system_value sys_reachable.start])

text \<open>Then disconnect, with the reader still reporting a last line.\<close>

definition closing_run :: "sys_label list" where
  "closing_run =
     [Screen 0 DisconnectClick, Deliver 0, Task 0 (DoCommand WriteOk),
      Task 0 (DoRead (ReadLine (lit ''late''))), Task 0 DoReaderSend, Task 0 DoMainSend,
      Task 0 DoMainGo]"

definition closed_system :: "(to_server list, from_server list) system" where
  "closed_system = the (vec_run closing_run busy_system)"

lemma closed_system_value: "vec_run closing_run busy_system = Some closed_system"
  by code_simp

lemma closed_system_reachable: "sys_reachable vec_runtime Release closed_system"
  by (rule run_sys_reachable [OF closed_system_value busy_system_reachable])

section \<open>The status\<close>

lemma reachable_rx:
  assumes "sys_reachable rt p S" "event_rx (sy_app S) = Some k"
  shows "k < length (sy_conns S)" "cmd_tx (sy_app S) = Some k" "tk_listening (sy_conns S ! k)"
  using reachable_linked [OF assms(1)] assms(2) by (auto simp: linked_def held_def)

context conn_runtime
begin

lemma polled_sent: "conn_reachable rt t \<Longrightarrow> set (tk_polled t) \<subseteq> set (tk_sent t)"
  using conn_reachable_channel [of t] by (auto simp: channel_inv_def prefix_def)

lemma shown_connected:
  assumes "sys_reachable rt p S" "connection_status (sy_app S) = Connected"
  obtains k where "k < length (sy_conns S)" "event_rx (sy_app S) = Some k"
    "cmd_tx (sy_app S) = Some k" "hd (tk_sent (sy_conns S ! k)) = FS_Connected"
    "FS_Connected \<in> set (tk_polled (sy_conns S ! k))"
    "FS_Disconnected \<notin> set (tk_polled (sy_conns S ! k))"
proof -
  obtain k where rx: "event_rx (sy_app S) = Some k"
      "FS_Connected \<in> set (tk_polled (sy_conns S ! k))"
      "FS_Disconnected \<notin> set (tk_polled (sy_conns S ! k))"
    using reachable_status_inv [OF assms(1)] assms(2) by (auto simp: status_inv_def split: option.splits)
  note k = reachable_rx [OF assms(1) rx(1)]
  note r = reachable_conn [OF assms(1) k(1)]
  have "connected_once (tk_sent (sy_conns S ! k))"
    using polled_sent [OF r] rx(2) by (intro conn_inv_connected_once conn_reachable_inv [OF r]) blast
  then have "hd (tk_sent (sy_conns S ! k)) = FS_Connected" by (auto simp: connected_once_def)
  with rx k show thesis by (intro that)
qed

end

text \<open>A connection the client has moved on from is never polled again.\<close>

lemma superseded_step:
  assumes "sys_reachable rt p S" "sys_exec rt p l S = Some S'"
    and "j < length (sy_conns S)" "event_rx (sy_app S) \<noteq> Some j"
  shows "j < length (sy_conns S') \<and> event_rx (sy_app S') \<noteq> Some j \<and>
    tk_polled (sy_conns S' ! j) = tk_polled (sy_conns S ! j)"
proof (cases l)
  case (Screen clock i)
  with assms(2) obtain a where "ui_input i" "client_step p clock i (sy_app S) = Inr a"
      "sy_app S' = a" "sy_conns S' = sy_conns S"
    by (auto split: if_splits sum.splits)
  with assms(3,4) ui_step_link [of i p clock "sy_app S" a] show ?thesis by (auto simp: link_step_def)
next
  case (Start host port)
  with assms(2) have "S' = start_connection rt host port S" by (auto split: if_splits)
  with assms(3,4) show ?thesis
    by (cases rule: start_connection_cases [of rt host port S])
      (auto simp: nth_append drop_receiver_nth)
next
  case (Poll clock)
  with assms(2) have "poll_system rt p clock S = Some S'" by simp
  then show ?thesis
  proof (cases rule: poll_system_cases)
    case (event k ev q a)
    with assms(3,4) handle_event_link [OF event(4)] show ?thesis by auto
  qed (use assms in simp)
next
  case (Deliver n)
  with assms(2) have "deliver rt p n S = Some S'" by simp
  then show ?thesis
    using assms(3,4) by (cases rule: deliver_cases) (simp_all add: nth_update_field [of tk_polled])
next
  case (Task k tl)
  with assms(2) obtain t where t: "task_exec rt tl (sy_conns S ! k) = Some t"
      "S' = S\<lparr>sy_conns := (sy_conns S)[k := t]\<rparr>"
    by (auto split: if_splits)
  with assms(3,4) task_step_ends(3) [OF task_exec_sound [OF t(1)]] show ?thesis
    by (simp add: nth_update_field [of tk_polled])
next
  case (DropSenders k)
  with assms(2) have "S' = S\<lparr>sy_conns := (sy_conns S)[k := (sy_conns S ! k)\<lparr>tk_senders := False\<rparr>]\<rparr>"
    by (auto split: if_splits)
  with assms(3,4) show ?thesis by (simp add: nth_update_field [of tk_polled])
qed

lemma superseded_run:
  "run_schedule (sys_exec rt p) ls S = Some S' \<Longrightarrow> sys_reachable rt p S \<Longrightarrow>
   j < length (sy_conns S) \<Longrightarrow> event_rx (sy_app S) \<noteq> Some j \<Longrightarrow>
   tk_polled (sy_conns S' ! j) = tk_polled (sy_conns S ! j) \<and> event_rx (sy_app S') \<noteq> Some j"
proof (induction ls arbitrary: S)
  case (Cons l ls)
  from Cons.prems(1) obtain S1 where S1: "sys_exec rt p l S = Some S1"
      "run_schedule (sys_exec rt p) ls S1 = Some S'"
    by (auto simp: bind_eq_Some_conv)
  from superseded_step [OF Cons.prems(2) S1(1) Cons.prems(3,4)]
    Cons.IH [OF S1(2) sys_reachable.step [OF Cons.prems(2) S1(1)]]
  show ?case by simp
qed simp

text \<open>C3: Whenever the client shows that it is connected, the connection it sends to and listens to is one and the same, its task has reported the success of the connect attempt first of all, and the client has not taken a report of its end.\<close>

theorem connected_is_real:
  assumes "conn_runtime rt cmds evs" "sys_reachable rt p S"
    and "connection_status (sy_app S) = Connected"
  shows "\<exists>k. k < length (sy_conns S) \<and> event_rx (sy_app S) = Some k \<and> cmd_tx (sy_app S) = Some k
    \<and> hd (tk_sent (sy_conns S ! k)) = FS_Connected
    \<and> FS_Connected \<in> set (tk_polled (sy_conns S ! k))
    \<and> FS_Disconnected \<notin> set (tk_polled (sy_conns S ! k))"
  using conn_runtime.shown_connected [OF assms] by metis

theorem connected_is_real_witness:
  "event_rx (sy_app busy_system) = Some 0
   \<and> FS_Disconnected \<notin> set (tk_polled (sy_conns busy_system ! 0))"
proof -
  have "connection_status (sy_app busy_system) = Connected" "length (sy_conns busy_system) = 1"
    by code_simp+
  with connected_is_real [OF vec_rt.conn_runtime_axioms busy_system_reachable] show ?thesis by auto
qed

text \<open>C4: Once the client shows that it is disconnected, by the user's click or by a report of the connection, it stays so through whatever the screen, the timers, the connections and the poller do, late reports included, until the user starts a new connection.\<close>

theorem disconnected_stays:
  assumes "conn_runtime rt cmds evs" "sys_reachable rt p S"
    and "connection_status (sy_app S) = Disconnected"
    and "run_schedule (sys_exec rt p) ls S = Some S'" "\<And>host port. Start host port \<notin> set ls"
  shows "connection_status (sy_app S') = Disconnected"
  using assms(4,2,3,5) by (rule conn_runtime.disconnected_run [OF assms(1)])

theorem disconnected_stays_witness:
  "\<exists>S'. vec_run [Poll 0, Poll 1, Task 0 DoCancel] closed_system = Some S'
     \<and> connection_status (sy_app S') = Disconnected"
proof -
  have st: "connection_status (sy_app closed_system) = Disconnected" by code_simp
  have "vec_run [Poll 0, Poll 1, Task 0 DoCancel] closed_system \<noteq> None" by code_simp
  then obtain S' where run: "vec_run [Poll 0, Poll 1, Task 0 DoCancel] closed_system = Some S'" by blast
  have "connection_status (sy_app S') = Disconnected"
    by (rule disconnected_stays [OF vec_rt.conn_runtime_axioms closed_system_reachable st run]) simp
  with run show ?thesis by blast
qed

text \<open>C10: In a build without overflow checks, once the current connection has reported its end the client gets to show it: with nothing but turns of the poller it ends up disconnected.\<close>

theorem end_reaches_screen:
  assumes "conn_runtime rt cmds evs" "sys_reachable rt Release S" "event_rx (sy_app S) = Some k"
    and "FS_Disconnected \<in> set (tk_sent (sy_conns S ! k))"
  shows "\<exists>n S'. run_schedule (sys_exec rt Release) (replicate n (Poll clock)) S = Some S'
    \<and> connection_status (sy_app S') = Disconnected"
  using conn_runtime.polls_reach_end [OF assms refl] by blast

theorem end_reaches_screen_witness:
  "\<exists>n S'. vec_run (replicate n (Poll 5)) closed_system = Some S'
     \<and> connection_status (sy_app S') = Disconnected"
proof -
  have "event_rx (sy_app closed_system) = Some 0"
    "FS_Disconnected \<in> set (tk_sent (sy_conns closed_system ! 0))" by code_simp+
  from end_reaches_screen [OF vec_rt.conn_runtime_axioms closed_system_reachable this]
  show ?thesis .
qed

text \<open>C11: A connection the client has moved on from never influences it again: after a reconnect, whatever happens, no event of an earlier connection is polled and the client never listens to it again.\<close>

theorem superseded_never_polled:
  assumes "sys_reachable rt p S" "j < length (sy_conns S)" "event_rx (sy_app S) \<noteq> Some j"
    and "run_schedule (sys_exec rt p) ls S = Some S'"
  shows "tk_polled (sy_conns S' ! j) = tk_polled (sy_conns S ! j) \<and> event_rx (sy_app S') \<noteq> Some j"
  using assms(4,1-3) by (rule superseded_run)

definition reconnected_system :: "(to_server list, from_server list) system" where
  "reconnected_system =
     the (vec_run [Poll 0, Start (lit ''localhost'') (lit ''4040'')] closed_system)"

theorem superseded_never_polled_witness:
  "\<exists>S'. vec_run [Task 0 DoCancel, Poll 0, Task 1 (DoConnect None)] reconnected_system = Some S'
     \<and> tk_polled (sy_conns S' ! 0) = tk_polled (sy_conns reconnected_system ! 0)"
proof -
  have "vec_run [Poll 0, Start (lit ''localhost'') (lit ''4040'')] closed_system = Some reconnected_system"
    by code_simp
  then have r: "sys_reachable vec_runtime Release reconnected_system"
    by (rule run_sys_reachable [OF _ closed_system_reachable])
  have "0 < length (sy_conns reconnected_system)" "event_rx (sy_app reconnected_system) \<noteq> Some 0"
    by code_simp+
  note s = superseded_never_polled [OF r this]
  have "vec_run [Task 0 DoCancel, Poll 0, Task 1 (DoConnect None)] reconnected_system \<noteq> None"
    by code_simp
  then obtain S' where "vec_run [Task 0 DoCancel, Poll 0, Task 1 (DoConnect None)]
      reconnected_system = Some S'" by blast
  with s [OF this] show ?thesis by blast
qed

section \<open>The commands\<close>

text \<open>C5: No command is invented, duplicated or sent to the wrong connection: the commands the user has issued for a connection are exactly those its task has taken, those waiting in its channel, those not delivered yet and those lost because the task had returned; and its socket holds a prefix of the lines of the commands taken.\<close>

theorem commands_conserved:
  assumes "conn_runtime rt cmds evs" "sys_reachable rt p S" "k < length (sy_conns S)"
  shows "mset (for_conn k (sy_issued S)) =
      mset (tk_taken (sy_conns S ! k)) + mset (cmds (tk_cmds (sy_conns S ! k)))
      + mset (for_conn k (outbox (sy_app S))) + mset (for_conn k (sy_lost S))
    \<and> (for_conn k (sy_lost S) = [] \<or> tk_main (sy_conns S ! k) = MainDone)
    \<and> prefix (tk_wire (sy_conns S ! k))
        (concat (map (command_bytes (rt_print rt)) (tk_taken (sy_conns S ! k))))"
  using conn_runtime.reachable_flow [OF assms(1,2)] assms(3)
    conn_reachable_wire [OF reachable_conn [OF assms(2,3)]]
  by (simp add: flow_inv_def arrived_def wire_inv_def)

theorem commands_conserved_witness:
  "mset (for_conn 0 (sy_issued busy_system)) = mset (tk_taken (sy_conns busy_system ! 0))"
proof -
  have "0 < length (sy_conns busy_system)" by code_simp
  moreover have "tk_cmds (sy_conns busy_system ! 0) = []" "outbox (sy_app busy_system) = []"
      "sy_lost busy_system = []" by code_simp+
  ultimately show ?thesis
    using commands_conserved [OF vec_rt.conn_runtime_axioms busy_system_reachable, of 0] by simp
qed

context conn_runtime
begin

lemma deliver_running:
  assumes "outbox (sy_app S) = xs @ (k, c) # ys" "k < length (sy_conns S)"
    "tk_main (sy_conns S ! k) \<noteq> MainDone" "length (cmds (tk_cmds (sy_conns S ! k))) < command_capacity"
  shows "\<exists>q. cmds q = cmds (tk_cmds (sy_conns S ! k)) @ [c] \<and> sys_exec rt p (Deliver (length xs)) S =
    Some (S\<lparr>sy_app := (sy_app S)\<lparr>outbox := xs @ ys\<rparr>,
            sy_conns := (sy_conns S)[k := (sy_conns S ! k)\<lparr>tk_cmds := q\<rparr>]\<rparr>)"
proof -
  obtain q where "ch_send (command_channel rt) c (tk_cmds (sy_conns S ! k)) = Some q"
    "cmds q = cmds (tk_cmds (sy_conns S ! k)) @ [c]"
    using command.send_room [OF assms(4)] by blast
  with assms show ?thesis by (intro exI [of _ q]) (simp add: deliver_def)
qed

lemma deliver_swapped:
  assumes "outbox (sy_app S) = xs @ (k, c1) # zs @ (k, c2) # ys" "k < length (sy_conns S)"
    "tk_main (sy_conns S ! k) \<noteq> MainDone" "length (cmds (tk_cmds (sy_conns S ! k))) + 1 < command_capacity"
  shows "\<exists>S'. run_schedule (sys_exec rt p) [Deliver (length xs + 1 + length zs), Deliver (length xs)] S = Some S'
    \<and> cmds (tk_cmds (sy_conns S' ! k)) = cmds (tk_cmds (sy_conns S ! k)) @ [c2, c1]
    \<and> outbox (sy_app S') = xs @ zs @ ys"
proof -
  have "outbox (sy_app S) = (xs @ (k, c1) # zs) @ (k, c2) # ys" using assms(1) by simp
  from deliver_running [OF this assms(2,3), of p] assms(4) obtain q where
    q: "cmds q = cmds (tk_cmds (sy_conns S ! k)) @ [c2]"
    "sys_exec rt p (Deliver (length xs + 1 + length zs)) S =
      Some (S\<lparr>sy_app := (sy_app S)\<lparr>outbox := (xs @ (k, c1) # zs) @ ys\<rparr>,
              sy_conns := (sy_conns S)[k := (sy_conns S ! k)\<lparr>tk_cmds := q\<rparr>]\<rparr>)" by auto
  let ?S = "S\<lparr>sy_app := (sy_app S)\<lparr>outbox := (xs @ (k, c1) # zs) @ ys\<rparr>,
      sy_conns := (sy_conns S)[k := (sy_conns S ! k)\<lparr>tk_cmds := q\<rparr>]\<rparr>"
  have "outbox (sy_app ?S) = xs @ (k, c1) # zs @ ys" by simp
  from deliver_running [OF this, of p] assms(2-4) q(1) obtain q' where
    "cmds q' = cmds q @ [c1]" "sys_exec rt p (Deliver (length xs)) ?S =
      Some (?S\<lparr>sy_app := (sy_app ?S)\<lparr>outbox := xs @ zs @ ys\<rparr>,
              sy_conns := (sy_conns ?S)[k := (sy_conns ?S ! k)\<lparr>tk_cmds := q'\<rparr>]\<rparr>)" by auto
  with q assms(2) show ?thesis by (simp del: sys_exec.simps)
qed

end

text \<open>C33: The order is not kept: each command is sent by a task of its own, so of two commands that wait for the same running connection, with room for both in its channel, the one issued later can reach the channel, and with it the socket, before the one issued earlier, whatever else waits between them.\<close>

theorem messages_may_overtake:
  assumes "conn_runtime rt cmds evs" "outbox (sy_app S) = xs @ (k, c1) # zs @ (k, c2) # ys"
    and "k < length (sy_conns S)" "tk_main (sy_conns S ! k) \<noteq> MainDone"
    and "length (cmds (tk_cmds (sy_conns S ! k))) + 1 < command_capacity"
  shows "\<exists>S'. run_schedule (sys_exec rt p) [Deliver (length xs + 1 + length zs), Deliver (length xs)] S = Some S'
    \<and> cmds (tk_cmds (sy_conns S' ! k)) = cmds (tk_cmds (sy_conns S ! k)) @ [c2, c1]
    \<and> outbox (sy_app S') = xs @ zs @ ys"
  by (rule conn_runtime.deliver_swapped [OF assms])

text \<open>The two messages of the run above, before they are sent.\<close>

definition writing_system :: "(to_server list, from_server list) system" where
  "writing_system = the (vec_run (take 10 busy_run) init_system)"

theorem messages_may_overtake_witness:
  "\<exists>S'. vec_run [Deliver 1, Deliver 0] writing_system = Some S'
     \<and> tk_cmds (sy_conns S' ! 0) = [CreateAndSubscribe (lit ''a''), SendMessage 1 (lit ''second''),
         SendMessage 1 (lit ''first'')]"
proof -
  have h: "outbox (sy_app writing_system) =
      [] @ (0, SendMessage 1 (lit ''first'')) # [] @ (0, SendMessage 1 (lit ''second'')) # []"
    "0 < length (sy_conns writing_system)" "tk_main (sy_conns writing_system ! 0) \<noteq> MainDone"
    "tk_cmds (sy_conns writing_system ! 0) = [CreateAndSubscribe (lit ''a'')]" by code_simp+
  have "length (id (tk_cmds (sy_conns writing_system ! 0))) + 1 < command_capacity"
    by (simp add: h(4) command_capacity_def)
  from messages_may_overtake [OF vec_rt.conn_runtime_axioms h(1-3) this, of Release] show ?thesis
    by (auto simp: h(4) simp del: sys_exec.simps)
qed

end
