(* ===== verification/Vdom.thy ===== *)
theory Vdom
  imports Client_Machine
begin

text \<open>
  The trees the \<open>rsx!\<close> macro builds, and what a user can do with one. A node is text or an
  element with its attributes, its event handlers and its children; an interpolated string is the
  text it gives. A handler is the input of \<open>Client_Machine\<close> it runs, or the field of the screen
  it stores the typed text in. The text fields of the screen (signals local to a component) are
  the record \<open>fields\<close>.
\<close>

datatype field = NewRoomName | SubRoomId | InputText | HostField | PortField

datatype attr = Attr string ustring | Disabled bool | Key ustring

datatype handler =
    OnClick client_input
  | OnClickStop client_input
  | OnEnter client_input
  | OnInput field

datatype vnode = Text ustring | Elem string "attr list" "handler list" "vnode list"

record fields =
  new_room_name :: ustring
  sub_room_id :: ustring
  input_text :: ustring
  host_text :: ustring
  port_text :: ustring
  error_msg :: ustring

text \<open>The values the signals start with.\<close>

definition init_fields :: fields where
  "init_fields =
     \<lparr>new_room_name = [], sub_room_id = [], input_text = [], host_text = lit ''127.0.0.1'',
      port_text = lit ''4040'', error_msg = []\<rparr>"

abbreviation cls :: "string \<Rightarrow> attr" where
  "cls c \<equiv> Attr ''class'' (lit c)"

abbreviation plain :: "string \<Rightarrow> vnode" where
  "plain s \<equiv> Text (lit s)"

abbreviation box :: "string \<Rightarrow> vnode list \<Rightarrow> vnode" where
  "box c ns \<equiv> Elem ''div'' [cls c] [] ns"

section \<open>Events\<close>

text \<open>
  A click runs the handler of the element and then those of the elements around it, from the
  inside out, up to one that stops the propagation. A disabled element, and what it contains,
  takes no click. \<open>presses around n\<close> lists, for every place of \<open>n\<close> that can be clicked or where
  Enter can be pressed, the inputs that run; \<open>around\<close> are those of the elements around \<open>n\<close>.
\<close>

fun click_path :: "handler list \<Rightarrow> client_input list \<Rightarrow> client_input list" where
  "click_path [] around = around"
| "click_path (OnClick i # hs) around = i # around"
| "click_path (OnClickStop i # hs) around = [i]"
| "click_path (h # hs) around = click_path hs around"

fun enter_inputs :: "handler list \<Rightarrow> client_input list" where
  "enter_inputs [] = []"
| "enter_inputs (OnEnter i # hs) = i # enter_inputs hs"
| "enter_inputs (h # hs) = enter_inputs hs"

fun presses :: "client_input list \<Rightarrow> vnode \<Rightarrow> client_input list list" where
  "presses around (Text t) = []"
| "presses around (Elem tag as hs ns) =
     (if Disabled True \<in> set as then []
      else let path = click_path hs around in
        (if path = [] then [] else [path]) @ map (\<lambda>i. [i]) (enter_inputs hs) @
        concat (map (presses path) ns))"

section \<open>What is shown\<close>

fun node_text :: "vnode \<Rightarrow> ustring" where
  "node_text (Text t) = t"
| "node_text (Elem tag as hs ns) = concat (map node_text ns)"

fun node_keys :: "vnode \<Rightarrow> ustring list" where
  "node_keys (Text t) = []"
| "node_keys (Elem tag as hs ns) =
     concat (map (\<lambda>a. case a of Key k \<Rightarrow> [k] | _ \<Rightarrow> []) as)"

text \<open>The elements of a class anywhere in a tree.\<close>

fun by_class :: "ustring \<Rightarrow> vnode \<Rightarrow> vnode list" where
  "by_class c (Text t) = []"
| "by_class c (Elem tag as hs ns) =
     (if Attr ''class'' c \<in> set as then [Elem tag as hs ns] else []) @
     concat (map (by_class c) ns)"

end
