(* ===== verification/Views.thy ===== *)
theory Views
  imports Vdom
begin

text \<open>
  What the components render: \<open>ToastContainer\<close>, \<open>ConnectScreen\<close>, \<open>Sidebar\<close> with its sections and
  room items, \<open>ChatPanel\<close> with header, message list and input, and \<open>App\<close>. \<open>up\<close> is the table of
  upper-case letters, \<open>k\<close> the number a new connection would get, \<open>css\<close> the address of the style
  sheet. A component of the framework (\<open>document::Stylesheet\<close>) is an element of its name.
\<close>

section \<open>Toasts (toast.rs)\<close>

definition toast_icon :: "ustring \<Rightarrow> ustring" where
  "toast_icon kind =
     (if kind = lit ''error'' then [9888] else if kind = lit ''success'' then [10003] else [8505])"

definition toast_view :: "toast \<Rightarrow> vnode" where
  "toast_view t =
     (let (kind, message, tid) = t in
      Elem ''div'' [Attr ''class'' (lit ''toast '' @ kind), Key (show_word tid)] []
        [Elem ''span'' [cls ''toast-icon''] [] [Text (toast_icon kind)],
         Elem ''span'' [] [] [Text message]])"

definition toast_container :: "app_state \<Rightarrow> vnode list" where
  "toast_container s = [box ''toast-container'' (map toast_view (toasts s))]"

section \<open>The connect screen (connect\_screen.rs)\<close>

definition connect_button :: "nat \<Rightarrow> fields \<Rightarrow> app_state \<Rightarrow> vnode" where
  "connect_button k l s =
     Elem ''button'' [cls ''btn btn-primary w-full'', Disabled (connection_status s = Connecting)]
       [OnClick (ConnectClick k (host_text l) (port_text l))]
       (if connection_status s = Connecting
        then [box ''flex items-center justify-center gap-2''
                [box ''spinner'' [], Elem ''span'' [] [] [plain ''Connecting...'']]]
        else [Elem ''span'' [] [] [plain ''Connect to Server'']])"

definition connect_screen :: "nat \<Rightarrow> fields \<Rightarrow> app_state \<Rightarrow> vnode list" where
  "connect_screen k l s =
     [box ''connect-screen'' [box ''connect-card''
       [box ''logo'' [Text [128172]],
        Elem ''h1'' [] [] [plain ''Multicast Chat''],
        Elem ''p'' [cls ''description''] []
          [plain ''Connect to the TCP chat server to create rooms, subscribe to groups, and chat in real-time.''],
        box ''connect-form''
          ([box ''input-group''
             [Elem ''input''
                [cls ''input'', Attr ''type'' (lit ''text''), Attr ''placeholder'' (lit ''Host address''),
                 Attr ''value'' (host_text l)]
                [OnInput HostField] [],
              Elem ''input''
                [cls ''input port'', Attr ''type'' (lit ''text''), Attr ''placeholder'' (lit ''Port''),
                 Attr ''value'' (port_text l)]
                [OnInput PortField] []]] @
           (if error_msg l \<noteq> [] then [Elem ''p'' [cls ''error-text''] [] [Text (error_msg l)]] else []) @
           [connect_button k l s])]]]"

section \<open>The sidebar (sidebar.rs)\<close>

definition status_dot :: "connection_status \<Rightarrow> ustring" where
  "status_dot st =
     (case st of
        Connected \<Rightarrow> lit ''status-dot connected''
      | Connecting \<Rightarrow> lit ''status-dot connecting''
      | Disconnected \<Rightarrow> lit ''status-dot disconnected'')"

definition status_text :: "connection_status \<Rightarrow> ustring" where
  "status_text st =
     (case st of
        Connected \<Rightarrow> lit ''Connected''
      | Connecting \<Rightarrow> lit ''Connecting...''
      | Disconnected \<Rightarrow> lit ''Disconnected'')"

definition create_section :: "fields \<Rightarrow> vnode" where
  "create_section l =
     box ''sidebar-section''
       [box ''section-header'' [Elem ''h3'' [] [] [plain ''Create Room'']],
        box ''action-row''
          [Elem ''input''
             [cls ''input sm'', Attr ''type'' (lit ''text''), Attr ''placeholder'' (lit ''Room name...''),
              Attr ''value'' (new_room_name l)]
             [OnInput NewRoomName, OnEnter (CreateClick (new_room_name l))] [],
           Elem ''button''
             [cls ''btn btn-primary btn-sm'', Disabled (trim (new_room_name l) = [])]
             [OnClick (CreateClick (new_room_name l))] [plain ''+'']]]"

definition subscribe_section :: "fields \<Rightarrow> vnode" where
  "subscribe_section l =
     box ''sidebar-section''
       [box ''section-header'' [Elem ''h3'' [] [] [plain ''Subscribe by ID'']],
        box ''action-row''
          [Elem ''input''
             [cls ''input sm'', Attr ''type'' (lit ''text''),
              Attr ''placeholder'' (lit ''Room ID (e.g. 1)''), Attr ''value'' (sub_room_id l)]
             [OnInput SubRoomId, OnEnter (SubscribeClick (sub_room_id l))] [],
           Elem ''button''
             [cls ''btn btn-secondary btn-sm'', Disabled (trim (sub_room_id l) = [])]
             [OnClick (SubscribeClick (sub_room_id l))] [Text [8594]]]]"

definition disconnect_section :: vnode where
  "disconnect_section =
     box ''sidebar-section''
       [Elem ''div'' [Attr ''style'' (lit ''padding: 8px 16px 12px;'')] []
         [Elem ''button'' [cls ''btn btn-danger btn-sm w-full''] [OnClick DisconnectClick]
           [Text ([9211] @ lit ''  Disconnect'')]]]"

definition avatar :: "(rchar \<Rightarrow> ustring) \<Rightarrow> u64 \<Rightarrow> ustring \<Rightarrow> vnode" where
  "avatar up room_id room_name =
     Elem ''div'' [Attr ''class'' (lit ''room-avatar '' @ avatar_color_class room_id)] []
       [Text (room_initials up room_name)]"

definition room_item :: "(rchar \<Rightarrow> ustring) \<Rightarrow> app_state \<Rightarrow> chat_room \<Rightarrow> vnode" where
  "room_item up s room =
     (let room_id = rm_id room; unread = rm_unread room;
          is_active = (active_room_id s = Some room_id)
      in Elem ''div''
           [Attr ''class'' (if is_active then lit ''room-item active'' else lit ''room-item''),
            Key (show_word room_id)]
           [OnClick (SelectClick room_id)]
           [box ''room-info''
              [avatar up room_id (rm_name room),
               box ''room-details''
                 [box ''room-name'' [Text (rm_name room)],
                  box ''room-id'' [Text (lit ''ID: '' @ show_word room_id)]]],
            box ''flex items-center gap-2''
              ((if 0 < unread then [box ''room-unread'' [Text (show_word unread)]] else []) @
               [box ''room-actions''
                 [Elem ''button''
                    [cls ''btn btn-icon btn-danger sm'', Attr ''title'' (lit ''Unsubscribe from room'')]
                    [OnClickStop (UnsubscribeItemClick room_id)] [Text [215]]]])])"

definition sidebar :: "(rchar \<Rightarrow> ustring) \<Rightarrow> fields \<Rightarrow> app_state \<Rightarrow> vnode list" where
  "sidebar up l s =
     [box ''sidebar''
       [box ''sidebar-header''
          [Elem ''h1'' [] [] [Elem ''span'' [cls ''logo-icon''] [] [Text [128172]], plain ''Multicast Chat''],
           Elem ''p'' [cls ''subtitle''] [] [plain ''TCP Chat Client'']],
        box ''connection-status''
          [Elem ''div'' [Attr ''class'' (status_dot (connection_status s))] [] [],
           Elem ''span'' [cls ''status-text''] [] [Text (status_text (connection_status s))]],
        create_section l, subscribe_section l, disconnect_section,
        box ''sidebar-section rooms-list''
          [box ''section-header''
             (Elem ''h3'' [] [] [plain ''Subscribed Rooms''] #
              (if rooms s \<noteq> []
               then [Elem ''span'' [cls ''badge''] [] [Text (show_nat (length (rooms s)))]] else [])),
           box ''room-list''
             ((if rooms s = []
               then [Elem ''div'' [cls ''empty-state'', Attr ''style'' (lit ''padding: 20px 10px; gap: 8px;'')] []
                      [Elem ''div'' [cls ''empty-icon'', Attr ''style'' (lit ''font-size: 32px;'')] []
                         [Text [128237]],
                       Elem ''p'' [Attr ''style'' (lit ''font-size: 12px;'')] []
                         [plain ''No rooms yet. Create or subscribe to a room above.'']]]
               else []) @
              map (room_item up s) (rooms s))]]]"

section \<open>The chat panel (chat.rs)\<close>

definition no_room_selected :: vnode where
  "no_room_selected =
     box ''no-room-selected''
       [box ''icon'' [Text [128172]],
        Elem ''h2'' [] [] [plain ''Welcome to Multicast Chat''],
        Elem ''p'' [] []
          [plain ''Select a room from the sidebar to start chatting, or create a new room to get the conversation going.''],
        box ''flex gap-3''
          [box ''chip accent'' [plain ''Create rooms with +''],
           box ''chip success'' [Text (lit ''Subscribe by ID with '' @ [8594])]]]"

definition chat_header :: "(rchar \<Rightarrow> ustring) \<Rightarrow> u64 \<Rightarrow> ustring \<Rightarrow> vnode" where
  "chat_header up room_id room_name =
     box ''chat-header''
       [box ''chat-header-info''
          [avatar up room_id room_name,
           Elem ''div'' [] []
             [box ''chat-header-title'' [Text room_name],
              box ''chat-header-subtitle'' [Text (lit ''Room ID: '' @ show_word room_id)]]],
        box ''chat-header-actions''
          [Elem ''button'' [cls ''btn btn-danger btn-sm''] [OnClick UnsubscribeHeaderClick]
             [plain ''Unsubscribe'']]]"

definition message_key :: "u64 \<Rightarrow> nat \<Rightarrow> ustring" where
  "message_key room_id idx = lit ''msg-'' @ show_word room_id @ lit ''-'' @ show_nat idx"

definition message_view :: "u64 \<Rightarrow> nat \<Rightarrow> chat_message \<Rightarrow> vnode" where
  "message_view room_id idx msg =
     (case msg_sender msg of
        System \<Rightarrow>
          Elem ''div'' [cls ''system-message'', Key (message_key room_id idx)] []
            [Elem ''span'' [] [] [Text (msg_text msg)]]
      | Me \<Rightarrow>
          Elem ''div'' [cls ''message-group'', Key (message_key room_id idx)] []
            [box ''message-bubble sent'' [Text (msg_text msg)],
             box ''message-meta sent'' [Text (lit ''You '' @ [183] @ lit '' '' @ msg_timestamp msg)]]
      | Server \<Rightarrow>
          Elem ''div'' [cls ''message-group'', Key (message_key room_id idx)] []
            [box ''message-bubble received'' [Text (msg_text msg)],
             box ''message-meta received'' [Text (lit ''Remote '' @ [183] @ lit '' '' @ msg_timestamp msg)]])"

definition message_views :: "u64 \<Rightarrow> app_state \<Rightarrow> vnode list" where
  "message_views room_id s =
     map (\<lambda>(idx, msg). message_view room_id idx msg) (enumerate 0 (room_messages room_id s))"

definition message_list :: "u64 \<Rightarrow> app_state \<Rightarrow> vnode" where
  "message_list room_id s =
     box ''messages-container''
       ((if room_messages room_id s = []
         then [box ''empty-state''
                [box ''empty-icon'' [Text [128488]],
                 Elem ''h2'' [] [] [plain ''No messages yet''],
                 Elem ''p'' [] [] [plain ''Send the first message to this room!'']]]
         else []) @ message_views room_id s)"

definition message_input :: "fields \<Rightarrow> ustring \<Rightarrow> vnode" where
  "message_input l room_name =
     box ''message-input-area'' [box ''message-input-wrapper''
       [Elem ''input''
          [Attr ''type'' (lit ''text''),
           Attr ''placeholder'' (lit ''Type a message to '' @ room_name @ lit ''...''),
           Attr ''value'' (input_text l)]
          [OnInput InputText, OnEnter (SendClick (input_text l))] [],
        Elem ''button'' [cls ''send-btn'', Disabled (trim (input_text l) = [])]
          [OnClick (SendClick (input_text l))] [Text [8593]]]]"

definition chat_panel :: "(rchar \<Rightarrow> ustring) \<Rightarrow> fields \<Rightarrow> app_state \<Rightarrow> vnode list" where
  "chat_panel up l s =
     [box ''chat-area''
       (case active_room s of
          Some room \<Rightarrow>
            [chat_header up (rm_id room) (rm_name room), message_list (rm_id room) s,
             message_input l (rm_name room)]
        | None \<Rightarrow> [no_room_selected])]"

section \<open>The root (main.rs)\<close>

definition app_view ::
  "(rchar \<Rightarrow> ustring) \<Rightarrow> ustring \<Rightarrow> nat \<Rightarrow> fields \<Rightarrow> app_state \<Rightarrow> vnode list" where
  "app_view up css k l s =
     (let is_connected = (connection_status s = Connected) in
      Elem ''document::Stylesheet'' [Attr ''href'' css] [] [] # toast_container s @
      (if is_connected then [box ''app-container'' (sidebar up l s @ chat_panel up l s)]
       else connect_screen k l s))"

end
