(* ===== verification/View_Properties.thy ===== *)
theory View_Properties
  imports Views Client_Properties
begin

text \<open>
  What the screen offers and shows: the inputs a user can give are exactly those the machine of
  \<open>Client_Machine\<close> assumes, the keys of the lists are unique as the framework demands, and the
  panel and the sidebar show the abstract view.
\<close>

section \<open>What can be pressed\<close>

text \<open>The inputs with the texts the fields hold now.\<close>

fun asks :: "nat \<Rightarrow> fields \<Rightarrow> client_input \<Rightarrow> bool" where
  "asks k l (CreateClick t) \<longleftrightarrow> t = new_room_name l"
| "asks k l (SubscribeClick t) \<longleftrightarrow> t = sub_room_id l"
| "asks k l (SendClick t) \<longleftrightarrow> t = input_text l"
| "asks k l (ConnectClick k' h q) \<longleftrightarrow> k' = k \<and> h = host_text l \<and> q = port_text l"
| "asks k l (Event ev) \<longleftrightarrow> False"
| "asks k l (ToastTimer i) \<longleftrightarrow> False"
| "asks k l (ToastTaskDropped i) \<longleftrightarrow> False"
| "asks k l (SpawnedSend n) \<longleftrightarrow> False"
| "asks k l _ \<longleftrightarrow> True"

definition all_presses :: "vnode list \<Rightarrow> client_input list set" where
  "all_presses ns = (\<Union>n\<in>set ns. set (presses [] n))"

lemma all_presses_simps [simp]:
  "all_presses [] = {}"
  "all_presses (n # ns) = set (presses [] n) \<union> all_presses ns"
  "all_presses (ns @ ms) = all_presses ns \<union> all_presses ms"
  by (auto simp: all_presses_def)

lemma presses_box [simp]: "set (presses [] (box c ns)) = all_presses ns"
  by (simp add: all_presses_def)

lemma toast_container_presses: "all_presses (toast_container s) = {}"
  by (simp add: toast_container_def all_presses_def toast_view_def split: prod.splits)

lemma connect_screen_presses:
  "all_presses (connect_screen k l s) =
     (if connection_status s = Connecting then {} else {[ConnectClick k (host_text l) (port_text l)]})"
  by (auto simp: connect_screen_def connect_button_def all_presses_def Let_def)

lemma section_presses:
  "set (presses [] (create_section l)) = {[CreateClick (new_room_name l)]}"
  "set (presses [] (subscribe_section l)) = {[SubscribeClick (sub_room_id l)]}"
  "set (presses [] disconnect_section) = {[DisconnectClick]}"
  by (auto simp: create_section_def subscribe_section_def disconnect_section_def)

lemma room_item_presses:
  "set (presses [] (room_item up s r)) = {[SelectClick (rm_id r)], [UnsubscribeItemClick (rm_id r)]}"
  by (auto simp: room_item_def avatar_def Let_def)

lemma sidebar_presses:
  "all_presses (sidebar up l s) =
     {[CreateClick (new_room_name l)], [SubscribeClick (sub_room_id l)], [DisconnectClick]} \<union>
     (\<Union>r\<in>set (rooms s). {[SelectClick (rm_id r)], [UnsubscribeItemClick (rm_id r)]})"
  by (auto simp: sidebar_def section_presses room_item_presses)

lemma message_view_presses: "presses [] (message_view i idx m) = []"
  by (simp add: message_view_def split: message_sender.splits)

lemma chat_panel_presses:
  "all_presses (chat_panel up l s) =
     (if active_room s = None then {} else {[UnsubscribeHeaderClick], [SendClick (input_text l)]})"
proof -
  have "(\<Union>n\<in>set (message_views i s). set (presses [] n)) = {}" for i
    by (auto simp: message_views_def message_view_presses)
  moreover have "set (presses [] (chat_header up i n)) = {[UnsubscribeHeaderClick]}" for i n
    by (simp add: chat_header_def avatar_def)
  moreover have "set (presses [] (message_input l n)) = {[SendClick (input_text l)]}" for n
    by (auto simp: message_input_def)
  moreover have "all_presses [no_room_selected] = {}" by (simp add: no_room_selected_def)
  ultimately show ?thesis
    by (auto simp: chat_panel_def message_list_def split: option.splits)
qed

lemma app_view_presses:
  "all_presses (app_view up css k l s) =
     (if connection_status s = Connected then all_presses (sidebar up l s) \<union> all_presses (chat_panel up l s)
      else all_presses (connect_screen k l s))"
  by (simp add: app_view_def toast_container_presses all_presses_def [of "sidebar up l s"]
      all_presses_def [of "chat_panel up l s"])

lemma screen_presses:
  "set (concat (map (presses []) (app_view up css k l s))) = {[i] |i. offered i s \<and> asks k l i}"
proof -
  have "set (concat (map (presses []) (app_view up css k l s))) = all_presses (app_view up css k l s)"
    by (simp add: all_presses_def)
  moreover have "p \<in> all_presses (app_view up css k l s) \<longleftrightarrow> (\<exists>i. p = [i] \<and> offered i s \<and> asks k l i)" for p
  proof
    assume "p \<in> all_presses (app_view up css k l s)"
    then show "\<exists>i. p = [i] \<and> offered i s \<and> asks k l i"
      by (cases "connection_status s")
        (auto simp: app_view_presses sidebar_presses chat_panel_presses connect_screen_presses
          split: if_splits)
  next
    assume "\<exists>i. p = [i] \<and> offered i s \<and> asks k l i"
    then obtain i where "p = [i]" "offered i s" "asks k l i" by blast
    then show "p \<in> all_presses (app_view up css k l s)"
      by (cases i) (auto simp: app_view_presses sidebar_presses chat_panel_presses connect_screen_presses)
  qed
  ultimately show ?thesis by blast
qed

text \<open>C9: In every state and whatever the fields hold, each place of the screen that takes a click or the Enter key runs exactly one handler, and those are exactly the handlers of the inputs offered in that state, with the texts of the fields: clicking the unsubscribe button of a room does not also select it, and nothing else of the shared state can be reached from the screen.\<close>

theorem screen_offers_exactly:
  "set (concat (map (presses []) (app_view up css k l s))) = {[i] |i. offered i s \<and> asks k l i}"
  by (rule screen_presses)

section \<open>Keys\<close>

lemma show_nat_inj:
  assumes "show_nat m = show_nat n"
  shows "m = n"
proof -
  have "Some m = parse_digits (Suc (m + n)) 0 (show_nat m)"
    by (rule parse_digits_show [symmetric]) simp
  also have "\<dots> = Some n" unfolding assms by (rule parse_digits_show) simp
  finally show ?thesis by (rule option.inject [THEN iffD1])
qed

lemma map_inj_distinct: "inj f \<Longrightarrow> distinct xs \<Longrightarrow> distinct (map f xs)"
  by (simp add: distinct_map inj_on_def)

lemma room_item_keys: "node_keys (room_item up s r) = [show_word (rm_id r)]"
  by (simp add: room_item_def Let_def)

lemma toast_view_keys: "node_keys (toast_view t) = [show_word (toast_id t)]"
  by (simp add: toast_view_def split: prod.splits)

lemma message_view_keys: "node_keys (message_view i idx m) = [message_key i idx]"
  by (simp add: message_view_def split: message_sender.splits)

lemma concat_single: "concat (map (\<lambda>x. [f x]) xs) = map f xs"
  by (induction xs) simp_all

text \<open>C29: The framework needs the keys of the elements of a list to differ. Those of the messages of a room do in every state. Those of the room items do after every run in which the server never confirms a created room under an identifier the client already uses for another room and no room has the largest identifier when a build without overflow checks makes another. Those of the toasts do after every run of a build with overflow checks, and in a build without them after every run of fewer than 2 to the 64 inputs.\<close>

theorem list_keys_distinct:
  "distinct (concat (map node_keys (message_views i s)))
   \<and> (\<forall>p is. run_client p is init_app = Inr s \<and> ids_kept_apart p is init_app \<longrightarrow>
        distinct (concat (map node_keys (map (room_item up s) (rooms s)))))
   \<and> (\<forall>p is. run_client p is init_app = Inr s \<and> (p = Debug \<or> length is < 2 ^ 64) \<longrightarrow>
        distinct (concat (map node_keys (map toast_view (toasts s)))))"
proof (intro conjI allI impI; (elim conjE)?)
  have "inj (message_key i)" by (auto simp: inj_def message_key_def dest: show_nat_inj)
  then show "distinct (concat (map node_keys (message_views i s)))"
    by (simp add: message_views_def comp_def case_prod_beta message_view_keys concat_single
        map_inj_distinct flip: map_map [of "message_key i" fst, unfolded comp_def])
next
  fix p "is" assume "run_client p is init_app = Inr s" "ids_kept_apart p is init_app"
  then have "distinct (map rm_id (rooms s))"
    using run_session_ok [OF init_session_ok] by (auto simp: session_ok_def ids_ok_def)
  then show "distinct (concat (map node_keys (map (room_item up s) (rooms s))))"
    by (simp add: comp_def room_item_keys concat_single distinct_map inj_on_def)
next
  fix p "is" assume run: "run_client p is init_app = Inr s" and low: "p = Debug \<or> length is < 2 ^ 64"
  have "p = Debug \<or> unat (toast_counter init_app) + length is < 2 ^ 64"
    using low by (simp add: init_app_def)
  with run_toasts_ok [OF run init_toasts_ok] have "distinct (map toast_id (toasts s))"
    by (intro toasts_ok_distinct) blast
  then show "distinct (concat (map node_keys (map toast_view (toasts s))))"
    by (simp add: comp_def toast_view_keys concat_single distinct_map inj_on_def)
qed

theorem list_keys_distinct_witness:
  "distinct (concat (map node_keys (map (room_item (\<lambda>c. [c]) example_end) (rooms example_end))))
   \<and> distinct (concat (map node_keys (map toast_view (toasts example_end))))
   \<and> length (toasts example_end) = 2"
proof -
  have "length (toasts example_end) = 2" unfolding example_end_def by code_simp
  with list_keys_distinct [of undefined example_end "\<lambda>c. [c]"] example_run_assumed example_run_result show ?thesis by blast
qed

section \<open>What is shown\<close>

text \<open>The text of an entry of the log.\<close>

fun entry_text :: "log_entry \<Rightarrow> ustring" where
  "entry_text (t, System, ts) = t"
| "entry_text (t, Me, ts) = t @ lit ''You '' @ [183] @ lit '' '' @ ts"
| "entry_text (t, Server, ts) = t @ lit ''Remote '' @ [183] @ lit '' '' @ ts"

lemma message_view_text: "node_text (message_view i idx m) = entry_text (entry m)"
  by (simp add: message_view_def entry_def split: message_sender.splits)

lemma message_views_text:
  "map node_text (message_views i s) = map entry_text (map entry (room_messages i s))"
  by (simp add: message_views_def comp_def case_prod_beta message_view_text
      flip: map_map [of "\<lambda>m. entry_text (entry m)" snd, unfolded comp_def])

text \<open>The texts of all elements of a class, in the order of the screen.\<close>

definition texts_of :: "string \<Rightarrow> vnode list \<Rightarrow> ustring list" where
  "texts_of c ns = map node_text (concat (map (by_class (lit c)) ns))"

lemma texts_of_simps [simp]:
  "texts_of c [] = []"
  "texts_of c (n # ns) = map node_text (by_class (lit c) n) @ texts_of c ns"
  "texts_of c (ns @ ms) = texts_of c ns @ texts_of c ms"
  by (simp_all add: texts_of_def)

lemma room_item_names: "map node_text (by_class (lit ''room-name'') (room_item up s r)) = [rm_name r]"
  by (auto simp: room_item_def avatar_def Let_def avatar_color_class_def lit_def)

lemma room_item_badge:
  "map node_text (by_class (lit ''room-unread'') (room_item up s r)) =
     (if 0 < rm_unread r then [show_word (rm_unread r)] else [])"
  by (auto simp: room_item_def avatar_def Let_def avatar_color_class_def lit_def)

lemma room_items_texts:
  "texts_of ''room-name'' (map (room_item up s) rs) = map rm_name rs"
  "texts_of ''room-unread'' (map (room_item up s) rs) =
     map (\<lambda>r. show_word (rm_unread r)) (filter (\<lambda>r. 0 < rm_unread r) rs)"
  by (induction rs) (simp_all add: room_item_names room_item_badge)

lemma by_class_box:
  "map node_text (by_class (lit c) (Elem tag as hs ns)) =
     (if Attr ''class'' (lit c) \<in> set as then [concat (map node_text ns)] else []) @ texts_of c ns"
  by (simp add: texts_of_def map_concat)

lemma sidebar_texts:
  "texts_of ''room-name'' (sidebar up l s) = map rm_name (rooms s)"
  "texts_of ''room-unread'' (sidebar up l s) =
     map (\<lambda>r. show_word (rm_unread r)) (filter (\<lambda>r. 0 < rm_unread r) (rooms s))"
  by (auto simp: sidebar_def create_section_def subscribe_section_def disconnect_section_def
      status_dot_def by_class_box room_items_texts simp del: by_class.simps(2)
      split: connection_status.split)

text \<open>C28: In every state, whatever the list of rooms is, the sidebar names its rooms in their order, shows an unread count exactly for the rooms that have unread messages, and marks the open room as active. After every run in which the server never confirms a created room under an identifier the client already uses for another room and no room has the largest identifier when a build without overflow checks makes another, the open room has no unread count.\<close>

theorem sidebar_shows_rooms:
  "texts_of ''room-name'' (sidebar up l s) = map rm_name (rooms s)
   \<and> texts_of ''room-unread'' (sidebar up l s) =
       map (\<lambda>r. show_word (rm_unread r)) (filter (\<lambda>r. 0 < rm_unread r) (rooms s))
   \<and> (\<forall>r. by_class (lit ''room-item active'') (room_item up s r) \<noteq> [] \<longleftrightarrow> active_room_id s = Some (rm_id r))
   \<and> (\<forall>p is. run_client p is init_app = Inr s \<and> ids_kept_apart p is init_app \<longrightarrow>
        (\<forall>r. r \<in> set (rooms s) \<and> active_room_id s = Some (rm_id r) \<longrightarrow>
           texts_of ''room-unread'' [room_item up s r] = []))"
proof (intro conjI allI impI; (elim conjE)?)
  show "by_class (lit ''room-item active'') (room_item up s r) \<noteq> [] \<longleftrightarrow> active_room_id s = Some (rm_id r)" for r
    by (auto simp: room_item_def avatar_def Let_def avatar_color_class_def lit_def)
next
  fix p "is" r
  assume "run_client p is init_app = Inr s" "ids_kept_apart p is init_app"
    and r: "r \<in> set (rooms s)" "active_room_id s = Some (rm_id r)"
  then have "session_ok s" using run_session_ok [OF init_session_ok] by blast
  with r have "rm_unread r = 0" by (simp add: session_ok_def active_read_def)
  then show "texts_of ''room-unread'' [room_item up s r] = []"
    using room_item_badge [of up s r] by simp
qed (rule sidebar_texts)+

theorem sidebar_shows_rooms_witness:
  "texts_of ''room-name'' (sidebar (\<lambda>c. [c]) init_fields example_end) = [lit ''a'']
   \<and> texts_of ''room-unread'' (sidebar (\<lambda>c. [c]) init_fields example_end) = []
   \<and> map (\<lambda>r. texts_of ''room-unread'' [room_item (\<lambda>c. [c]) example_end r]) (rooms example_end) = [[]]"
proof -
  have "map rm_name (rooms example_end) = [lit ''a'']" "map rm_unread (rooms example_end) = [0]"
    "map Some (map rm_id (rooms example_end)) = [active_room_id example_end]"
    unfolding example_end_def by code_simp+
  then obtain r where r: "rooms example_end = [r]" "rm_name r = lit ''a''" "rm_unread r = 0"
    "active_room_id example_end = Some (rm_id r)"
    by (cases "rooms example_end") auto
  note s = sidebar_shows_rooms [of "\<lambda>c. [c]" init_fields example_end]
  have "texts_of ''room-unread'' [room_item (\<lambda>c. [c]) example_end r] = []"
    using s example_run_result example_run_assumed r(1,4) by force
  with s r(1-3) show ?thesis by simp
qed

text \<open>C27: With a room open, the chat panel shows that room of the view: the title is the room's name, and the container of the messages holds the texts of the room's log in order, each message of the user and of others with its sender and time, or the invitation to write when the log is empty.\<close>

theorem panel_shows_log:
  assumes "active_room s = Some room"
  shows "\<exists>rv. view s (rm_id room) = Some rv
    \<and> texts_of ''chat-header-title'' (chat_panel up l s) = [rv_name rv]
    \<and> texts_of ''messages-container'' (chat_panel up l s) =
        [if rv_log rv = [] then 128488 # lit ''No messages yet'' @ lit ''Send the first message to this room!''
         else concat (map entry_text (rv_log rv))]"
proof -
  let ?rv = "\<lparr>rv_name = rm_name room, rv_unread = rm_unread room,
    rv_log = map entry (room_messages (rm_id room) s)\<rparr>"
  from assms have "find_room (rm_id room) s = Some room"
    by (auto simp: active_room_def bind_eq_Some_conv dest: find_SomeD)
  then have v: "view s (rm_id room) = Some ?rv" by (simp add: view_def)
  have no_title: "texts_of ''chat-header-title'' (message_views i s) = []"
    "texts_of ''messages-container'' (message_views i s) = []" for i
    by (auto simp: message_views_def texts_of_def message_view_def split: message_sender.splits)
  have empty: "room_messages i s = [] \<Longrightarrow> message_views i s = []" for i
    by (simp add: message_views_def)
  have avatar: "texts_of ''chat-header-title'' [avatar up i n] = []"
    "texts_of ''messages-container'' [avatar up i n] = []" for i n
    by (auto simp: avatar_def avatar_color_class_def lit_def)
  have "texts_of ''chat-header-title'' (chat_panel up l s) = [rm_name room]"
    using assms no_title avatar
    by (auto simp: chat_panel_def chat_header_def message_list_def message_input_def by_class_box
        simp del: by_class.simps(2))
  moreover have "texts_of ''messages-container'' (chat_panel up l s) =
      [if room_messages (rm_id room) s = []
       then 128488 # lit ''No messages yet'' @ lit ''Send the first message to this room!''
       else concat (map node_text (message_views (rm_id room) s))]"
    using assms no_title avatar empty
    by (auto simp: chat_panel_def chat_header_def message_list_def message_input_def by_class_box
        simp del: by_class.simps(2))
  ultimately show ?thesis using v by (simp add: message_views_text comp_def)
qed

theorem panel_shows_log_witness:
  "texts_of ''chat-header-title'' (chat_panel (\<lambda>c. [c]) init_fields example_rooms) = [lit ''a'']"
proof -
  have a: "active_room example_rooms = Some \<lparr>rm_id = 1, rm_name = lit ''a'', rm_unread = 0\<rparr>"
    by (simp add: active_room_def example_rooms_def)
  then have "rv_name (the (view example_rooms 1)) = lit ''a''"
    by (simp add: view_def example_rooms_def)
  with panel_shows_log [OF a, of "\<lambda>c. [c]" init_fields] show ?thesis by auto
qed

end
