(* ===== verification/Screen.thy ===== *)
theory Screen
  imports View_Properties
begin

text \<open>
  The user in front of the screen: typing into a field, pressing one of the places the rendered
  tree offers, and what happens in the background meanwhile. A press runs the handlers of the
  place on the shared state and the fields; mounting a component again starts its fields anew.
\<close>

fun store_text :: "field \<Rightarrow> ustring \<Rightarrow> fields \<Rightarrow> fields" where
  "store_text NewRoomName t l = l\<lparr>new_room_name := t\<rparr>"
| "store_text SubRoomId t l = l\<lparr>sub_room_id := t\<rparr>"
| "store_text InputText t l = l\<lparr>input_text := t\<rparr>"
| "store_text HostField t l = l\<lparr>host_text := t\<rparr>"
| "store_text PortField t l = l\<lparr>port_text := t\<rparr>"

text \<open>A handler with the field it reads and writes; the others leave the fields alone.\<close>

fun press ::
  "profile \<Rightarrow> int \<Rightarrow> client_input \<Rightarrow> app_state \<times> fields \<Rightarrow> (app_state \<times> fields) result" where
  "press p clock (CreateClick t) (s, l) =
     and_then (do_create p clock t s) (\<lambda>(s', t'). Inr (s', l\<lparr>new_room_name := t'\<rparr>))"
| "press p clock (SubscribeClick t) (s, l) =
     and_then (do_subscribe p clock t s) (\<lambda>(s', t'). Inr (s', l\<lparr>sub_room_id := t'\<rparr>))"
| "press p clock (SendClick t) (s, l) =
     (case active_room s of
        None \<Rightarrow> Inr (s, l)
      | Some r \<Rightarrow> (let (s', t') = do_send clock (rm_id r) t s in Inr (s', l\<lparr>input_text := t'\<rparr>)))"
| "press p clock (ConnectClick k h q) (s, l) =
     (let (s', err, addr) = click_connect k h q s in Inr (s', l\<lparr>error_msg := err\<rparr>))"
| "press p clock i (s, l) = and_then (client_step p clock i s) (\<lambda>s'. Inr (s', l))"

text \<open>A press is the machine's step on the shared state.\<close>

lemma and_then_fst:
  "map_sum id fst (and_then x (\<lambda>(a, b). Inr (a, g b))) = map_sum id fst x"
  "map_sum id fst (and_then y (\<lambda>a. Inr (a, c))) = y"
  by (cases x, auto simp: res_simps) (cases y, auto simp: res_simps)

lemma press_client_step: "map_sum id fst (press p clock i (s, l)) = client_step p clock i s"
  by (cases i)
    (auto simp: and_then_fst split: option.split prod.split)

section \<open>Sessions of a user\<close>

text \<open>
  \<open>PressAt n k\<close> presses the \<open>n\<close>-th place of the rendered tree (\<open>k\<close> is the number a connection
  started now would get). \<open>Background\<close> are the events of the poller, the timers and the spawned
  tasks. \<open>MountSidebar\<close>, \<open>MountInput\<close> and \<open>MountConnect\<close> are a component appearing again, whose
  signals are then new; they may happen at any time, which covers every order of them.
\<close>

datatype user_event =
    TypeText field ustring
  | PressAt nat nat
  | Background client_input
  | MountSidebar
  | MountInput
  | MountConnect

fun background :: "client_input \<Rightarrow> bool" where
  "background (Event ev) = True"
| "background (ToastTimer i) = True"
| "background (ToastTaskDropped i) = True"
| "background (SpawnedSend n) = True"
| "background _ = False"

fun press_all ::
  "profile \<Rightarrow> int \<Rightarrow> client_input list \<Rightarrow> app_state \<times> fields \<Rightarrow> (app_state \<times> fields) result" where
  "press_all p clock [] x = Inr x"
| "press_all p clock (i # is) x = and_then (press p clock i x) (press_all p clock is)"

fun user_step ::
  "profile \<Rightarrow> (rchar \<Rightarrow> ustring) \<Rightarrow> ustring \<Rightarrow> int \<times> user_event \<Rightarrow> app_state \<times> fields \<Rightarrow>
   (app_state \<times> fields) result" where
  "user_step p up css (clock, TypeText f t) (s, l) = Inr (s, store_text f t l)"
| "user_step p up css (clock, PressAt n k) (s, l) =
     (let ps = concat (map (presses []) (app_view up css k l s))
      in if n < length ps then press_all p clock (ps ! n) (s, l) else Inr (s, l))"
| "user_step p up css (clock, Background i) (s, l) =
     (if background i then press p clock i (s, l) else Inr (s, l))"
| "user_step p up css (clock, MountSidebar) (s, l) =
     Inr (s, l\<lparr>new_room_name := new_room_name init_fields, sub_room_id := sub_room_id init_fields\<rparr>)"
| "user_step p up css (clock, MountInput) (s, l) =
     Inr (s, l\<lparr>input_text := input_text init_fields\<rparr>)"
| "user_step p up css (clock, MountConnect) (s, l) =
     Inr (s, l\<lparr>host_text := host_text init_fields, port_text := port_text init_fields,
                error_msg := error_msg init_fields\<rparr>)"

fun user_run ::
  "profile \<Rightarrow> (rchar \<Rightarrow> ustring) \<Rightarrow> ustring \<Rightarrow> (int \<times> user_event) list \<Rightarrow> app_state \<times> fields \<Rightarrow>
   (app_state \<times> fields) result" where
  "user_run p up css [] x = Inr x"
| "user_run p up css (e # es) x = and_then (user_step p up css e x) (user_run p up css es)"

lemma press_Inr: "press p clock i (s, l) = Inr (s', l') \<Longrightarrow> client_step p clock i s = Inr s'"
  using press_client_step [of p clock i s l] by simp

lemma background_offered: "background i \<Longrightarrow> offered i s"
  by (cases i) simp_all

text \<open>Every event of the user is at most one offered input of the machine.\<close>

lemma user_step_machine:
  assumes "user_step p up css e (s, l) = Inr (s', l')"
  shows "s' = s \<or> (\<exists>i. offered i s \<and> client_step p (fst e) i s = Inr s')"
proof -
  obtain clock ev where e: "e = (clock, ev)" by (cases e)
  show ?thesis
  proof (cases ev)
    case (PressAt n k)
    let ?ps = "concat (map (presses []) (app_view up css k l s))"
    show ?thesis
    proof (cases "n < length ?ps")
      case True
      then have "?ps ! n \<in> set ?ps" by (rule nth_mem)
      then obtain i where i: "?ps ! n = [i]" "offered i s" unfolding screen_presses by blast
      with assms e PressAt True have "press p clock i (s, l) = Inr (s', l')"
        by (auto simp: Let_def res_simps)
      with i e show ?thesis using press_Inr by auto
    next
      case False
      with assms e PressAt show ?thesis by (simp add: Let_def)
    qed
  next
    case (Background i)
    with assms e show ?thesis
      by (cases "background i") (auto dest: press_Inr intro: background_offered)
  qed (use assms e in auto)
qed

lemma user_run_machine:
  "user_run p up css es (s, l) = Inr (s', l') \<Longrightarrow>
   \<exists>is. run_client p is s = Inr s' \<and> length is \<le> length es"
proof (induction es arbitrary: s l)
  case Nil
  have "run_client p [] s = Inr s" by simp
  with Nil show ?case by auto
next
  case (Cons e es)
  then obtain s1 l1 where 1: "user_step p up css e (s, l) = Inr (s1, l1)"
      "user_run p up css es (s1, l1) = Inr (s', l')"
    by (auto simp: res_simps)
  from Cons.IH [OF 1(2)] obtain "is" where rest: "run_client p is s1 = Inr s'" "length is \<le> length es"
    by blast
  from user_step_machine [OF 1(1)] show ?case
  proof
    assume "s1 = s"
    with rest show ?case by auto
  next
    assume "\<exists>i. offered i s \<and> client_step p (fst e) i s = Inr s1"
    then obtain i where "offered i s" "client_step p (fst e) i s = Inr s1" by blast
    with rest(1) have "run_client p ((fst e, i) # is) s = Inr s'" by simp
    with rest(2) show ?case by (metis Suc_le_mono length_Cons)
  qed
qed

section \<open>Properties\<close>

text \<open>Every handler does to the shared state what the client machine says, whatever the fields hold.\<close>

lemma press_refines_machine:
  "map_sum id fst (press p clock i (s, l)) = client_step p clock i s"
  by (rule press_client_step)

text \<open>C8: Whatever the user types and presses on the rendered screen, interleaved in any way with the events of the server, timers and spawned tasks, and however often components are mounted anew, the shared state is one the client machine reaches with at most as many inputs, and in it no message and no selection refers to a room that is not in the list.\<close>

theorem user_session_is_machine_run:
  assumes "user_run p up css es (init_app, init_fields) = Inr (s, l)"
  shows "(\<exists>is. run_client p is init_app = Inr s \<and> length is \<le> length es) \<and> refs_ok s"
  using user_run_machine [OF assms] refs.run_inv [OF init_refs_ok] by blast

definition example_session :: "(int \<times> user_event) list" where
  "example_session =
     [(0, PressAt 0 0), (0, Background (Event FS_Connected)), (0, TypeText NewRoomName (lit ''a'')),
      (0, PressAt 0 1), (0, PressAt 0 1), (0, PressAt 3 1), (0, TypeText InputText (lit ''hi'')),
      (0, PressAt 13 1), (0, PressAt 13 1)]"

definition example_session_end :: "app_state \<times> fields" where
  "example_session_end =
     (case user_run Debug (\<lambda>c. [c]) [] example_session (init_app, init_fields) of
        Inl e \<Rightarrow> (init_app, init_fields) | Inr x \<Rightarrow> x)"

lemma example_session_value:
  "user_run Debug (\<lambda>c. [c]) [] example_session (init_app, init_fields) =
   Inr (fst example_session_end, snd example_session_end)"
  by code_simp

theorem user_session_is_machine_run_witness:
  "refs_ok (fst example_session_end)
   \<and> map msg_text (messages (fst example_session_end)) =
       [lit ''Created and joined room '' @ quoted (lit ''a''), lit ''hi'']"
proof -
  have "map msg_text (messages (fst example_session_end)) =
      [lit ''Created and joined room '' @ quoted (lit ''a''), lit ''hi'']" by code_simp
  with user_session_is_machine_run [OF example_session_value] show ?thesis by blast
qed

text \<open>Pressing the create button or the send button again, or Enter twice, does not create the room or send the message twice: after any press of one of them a second press of the same place changes neither the shared state nor the fields.\<close>

lemma second_press_harmless:
  assumes "press p clock (CreateClick (new_room_name l)) (s, l) = Inr (s1, l1)"
    and "press p clock (SendClick (input_text l)) (s, l) = Inr (s2, l2)"
  shows "press p clock' (CreateClick (new_room_name l1)) (s1, l1) = Inr (s1, l1)
    \<and> press p clock' (SendClick (input_text l2)) (s2, l2) = Inr (s2, l2)"
proof
  have blank: "trim [] = []" by (simp add: trim_def)
  from assms(1) obtain t' where t': "do_create p clock (new_room_name l) s = Inr (s1, t')"
      "l1 = l\<lparr>new_room_name := t'\<rparr>"
    by (auto simp: res_simps)
  from t'(1) have "trim t' = []" by (cases rule: do_create_cases) (simp_all add: blank)
  with t'(2) show "press p clock' (CreateClick (new_room_name l1)) (s1, l1) = Inr (s1, l1)"
    by (simp add: do_create_def)
  show "press p clock' (SendClick (input_text l2)) (s2, l2) = Inr (s2, l2)"
    using assms(2) blank
    by (auto simp: do_send_def Let_def split: option.splits if_splits)
qed

end
