(* ===== verification/Server.thy ===== *)
theory Server
  imports Server_Wire Prelude
begin

text \<open>
  The chat server the client talks to (\<open>server/src/server.cpp\<close>, \<open>channel.hpp\<close>,
  \<open>tcp_chat_room.hpp\<close>). Rooms, sessions and channels are numbered by their place in a list; a
  pointer of the code is such a number. Every session has the process that reads its lines
  (\<open>tcp_accept\<close>), one that writes to its socket (\<open>socket_writer\<close>) and one listener for each of
  its rooms (\<open>spawn_listener\<close>). A step is what a process does between two points where another
  thread can see the difference; every critical section of the code is inside one step, and the
  two of a creation (the new room, its first member) are two steps.

  A listener that is waiting when its channel is closed still takes what is in the channel; the
  model lets it take all of it. The members of a room are weak pointers: a number stays in
  \<open>tr_connections\<close> for ever, and \<open>expired\<close> says when nobody owns its channel any more.

  The parser (\<open>parse\<close>, an error message or a value) and the printer (\<open>pr\<close>) of JSON are arguments.
  Text is the text of the bytes the code moves; a line is given without what the code trims.
\<close>

section \<open>Channels (channel.hpp)\<close>

text \<open>
  The one reader of a channel is at the top of the loop of \<open>async_read\<close>, before the lock
  (\<open>Looking\<close>); or it has seen an empty queue and released the lock but does not wait for the timer
  yet (\<open>Leaving\<close>); or it waits for the timer (\<open>Asleep\<close>). To cancel the timer wakes a reader that is
  asleep, and does nothing to one that does not wait yet.
\<close>

datatype chan_reader = Looking | Leaving | Asleep

record chan =
  sc_queue :: "ustring list"
  sc_closed :: bool
  sc_reader :: chan_reader

definition new_chan :: chan where
  "new_chan = \<lparr>sc_queue = [], sc_closed = False, sc_reader = Looking\<rparr>"

definition timer_cancel :: "chan \<Rightarrow> chan" where
  "timer_cancel c = (if sc_reader c = Asleep then c\<lparr>sc_reader := Looking\<rparr> else c)"

definition chan_close :: "chan \<Rightarrow> chan" where
  "chan_close c = timer_cancel (c\<lparr>sc_closed := True\<rparr>)"

definition chan_write :: "ustring \<Rightarrow> chan \<Rightarrow> chan" where
  "chan_write m c = (if sc_closed c then c else timer_cancel (c\<lparr>sc_queue := sc_queue c @ [m]\<rparr>))"

text \<open>
  What \<open>async_read\<close> does next: at the top of its loop it returns a message, throws on a closed
  channel that is empty, or is about to wait; otherwise it starts to wait; a reader that is
  asleep does nothing.
\<close>

datatype chan_read = GotMessage ustring chan | ReadAborted | ReadWaits chan | ReadAsleep

definition chan_read :: "chan \<Rightarrow> chan_read" where
  "chan_read c =
     (case sc_reader c of
        Looking \<Rightarrow>
          (case sc_queue c of
             m # q \<Rightarrow> GotMessage m (c\<lparr>sc_queue := q\<rparr>)
           | [] \<Rightarrow> if sc_closed c then ReadAborted else ReadWaits (c\<lparr>sc_reader := Leaving\<rparr>))
      | Leaving \<Rightarrow> ReadWaits (c\<lparr>sc_reader := Asleep\<rparr>)
      | Asleep \<Rightarrow> ReadAsleep)"

section \<open>The state\<close>

record tcp_chat_room =
  tr_name :: ustring
  tr_connections :: "nat list"
  tr_id :: u64

text \<open>
  Where \<open>tcp_accept\<close> is: at the next line; having created a room, before it joins it; having
  joined a room through a channel, before it spawns the listener; before it writes the
  confirmation; returned.
\<close>

datatype session_pc =
    Reading
  | Creating nat
  | Joined nat nat bool
  | Confirming nat bool
  | Ended

record session =
  ss_pc :: session_pc
  ss_subs :: "(nat \<times> nat) list"
  ss_listeners :: "(nat \<times> nat) list"
  ss_out :: chan
  ss_writing :: bool
  ss_wire :: "nat list"
  ss_dangling :: bool

text \<open>
  \<open>sv_accepting\<close> is whether the acceptor is open; \<open>ss_writing\<close> whether the writer of a session
  still runs, \<open>ss_wire\<close> the bytes it has put on the socket, \<open>ss_dangling\<close> whether it has used the
  socket after \<open>tcp_accept\<close>, which owns it, had returned.
\<close>

record server =
  sv_rooms :: "tcp_chat_room list"
  sv_chans :: "chan list"
  sv_sessions :: "session list"
  sv_accepting :: bool

definition init_server :: server where
  "init_server = \<lparr>sv_rooms = [], sv_chans = [], sv_sessions = [], sv_accepting = True\<rparr>"

definition new_session :: session where
  "new_session = \<lparr>ss_pc = Reading, ss_subs = [], ss_listeners = [], ss_out = new_chan,
     ss_writing = True, ss_wire = [], ss_dangling = False\<rparr>"

definition set_session :: "nat \<Rightarrow> session \<Rightarrow> server \<Rightarrow> server" where
  "set_session i s sv = sv\<lparr>sv_sessions := (sv_sessions sv)[i := s]\<rparr>"

text \<open>\<open>write_chan->write\<close> of session \<open>i\<close>.\<close>

definition reply :: "nat \<Rightarrow> ustring \<Rightarrow> server \<Rightarrow> server" where
  "reply i m sv =
     (let s = sv_sessions sv ! i in set_session i (s\<lparr>ss_out := chan_write m (ss_out s)\<rparr>) sv)"

section \<open>Requests\<close>

type_synonym members = "(ustring \<times> json) list"

text \<open>
  A number of the 64 unsigned bits as it is, one of the signed bits cast; a number that is
  neither fails. \<open>NegInt\<close> holds the two's complement of the number.
\<close>

definition parse_id :: "members \<Rightarrow> ustring \<Rightarrow> u64 option" where
  "parse_id data k =
     (case map_of data k of
        Some (JNum (PosInt n)) \<Rightarrow> Some n
      | Some (JNum (NegInt n)) \<Rightarrow> Some n
      | _ \<Rightarrow> None)"

definition try_find_room :: "u64 \<Rightarrow> server \<Rightarrow> nat option" where
  "try_find_room rid sv =
     find (\<lambda>k. tr_id (sv_rooms sv ! k) = rid) [0..<length (sv_rooms sv)]"

definition sub_to_room :: "nat \<Rightarrow> server \<Rightarrow> nat \<times> server" where
  "sub_to_room k sv =
     (let c = length (sv_chans sv); room = sv_rooms sv ! k
      in (c, sv\<lparr>sv_chans := sv_chans sv @ [new_chan],
                sv_rooms := (sv_rooms sv)[k := room\<lparr>tr_connections := tr_connections room @ [c]\<rparr>]\<rparr>))"

definition handle_sub ::
  "members \<Rightarrow> (nat \<times> nat) list \<Rightarrow> server \<Rightarrow> ustring + nat \<times> nat \<times> server" where
  "handle_sub data subs sv =
     (case map_of data (lit ''grp'') of
        None \<Rightarrow> Inl (lit ''grp not found'')
      | Some v \<Rightarrow>
          (case parse_id data (lit ''grp'') of
             None \<Rightarrow> Inl (lit ''grp not valid'')
           | Some grp \<Rightarrow>
               if list_ex (\<lambda>(k, c). tr_id (sv_rooms sv ! k) = grp) subs
               then Inl (lit ''Already subscribed to this Chat Room'')
               else (case try_find_room grp sv of
                       Some k \<Rightarrow> (let (c, sv') = sub_to_room k sv in Inr (c, k, sv'))
                     | None \<Rightarrow> Inl (lit ''No such group exists''))))"

text \<open>A new room gets the number of rooms as its identifier.\<close>

definition add_room :: "ustring \<Rightarrow> server \<Rightarrow> server" where
  "add_room grp_name sv =
     sv\<lparr>sv_rooms := sv_rooms sv @ [\<lparr>tr_name = grp_name, tr_connections = [],
                                     tr_id = of_nat (length (sv_rooms sv) + 1)\<rparr>]\<rparr>"

text \<open>\<open>handle_create_and_sub\<close> up to the new room; \<open>enroll\<close> is the join that follows.\<close>

definition handle_create_and_sub :: "members \<Rightarrow> server \<Rightarrow> ustring + nat \<times> server" where
  "handle_create_and_sub data sv =
     (case map_of data (lit ''grp_name'') of
        None \<Rightarrow> Inl ([39] @ lit ''grp_name'' @ [39] @ lit '' not found'')
      | Some (JStr grp_name) \<Rightarrow> Inr (length (sv_rooms sv), add_room grp_name sv)
      | Some _ \<Rightarrow> Inl ([39] @ lit ''grp_name'' @ [39] @ lit '' in invalid format''))"

definition enroll :: "nat \<Rightarrow> server \<Rightarrow> server option" where
  "enroll i sv =
     (case ss_pc (sv_sessions sv ! i) of
        Creating k \<Rightarrow>
          (let (c, sv') = sub_to_room k sv
           in Some (set_session i ((sv_sessions sv' ! i)\<lparr>ss_pc := Joined c k True\<rparr>) sv'))
      | _ \<Rightarrow> None)"

text \<open>\<open>as_string\<close> on another kind of value throws, which ends the session.\<close>

datatype message_result = ParsedMessage ustring nat | MessageError ustring | MessageThrows

definition parse_message :: "members \<Rightarrow> server \<Rightarrow> message_result" where
  "parse_message data sv =
     (case map_of data (lit ''grp'') of
        None \<Rightarrow> MessageError (lit ''no grp found'')
      | Some g \<Rightarrow>
          (case map_of data (lit ''msg'') of
             None \<Rightarrow> MessageError (lit ''no msg found'')
           | Some m \<Rightarrow>
               (case parse_id data (lit ''grp'') of
                  None \<Rightarrow> MessageError (lit ''invalid grp'')
                | Some grp \<Rightarrow>
                    (case try_find_room grp sv of
                       None \<Rightarrow> MessageError (lit ''grp not found'')
                     | Some k \<Rightarrow>
                         (case m of JStr t \<Rightarrow> ParsedMessage t k | _ \<Rightarrow> MessageThrows)))))"

text \<open>
  \<open>cleanup\<close> and the return of \<open>tcp_accept\<close>: the channels of the subscriptions and the write
  channel are closed.
\<close>

definition end_session :: "nat \<Rightarrow> server \<Rightarrow> server" where
  "end_session i sv =
     (let s = sv_sessions sv ! i
      in set_session i (s\<lparr>ss_pc := Ended, ss_out := chan_close (ss_out s)\<rparr>)
           (sv\<lparr>sv_chans := fold (\<lambda>(k, c) cs. cs[c := chan_close (cs ! c)]) (ss_subs s) (sv_chans sv)\<rparr>))"

text \<open>
  The owners of a channel: \<open>tcp_accept\<close>, by its subscriptions and, right after the join, by a local
  variable, until it returns; and a listener, by \<open>locked\<close>. Without an owner the channel is
  destroyed and the weak pointers to it expire: \<open>lock\<close> gives nothing.
\<close>

definition owns :: "session \<Rightarrow> nat \<Rightarrow> bool" where
  "owns s c \<longleftrightarrow>
     (case ss_pc s of Joined d k b \<Rightarrow> d = c | _ \<Rightarrow> False) \<or>
     ss_pc s \<noteq> Ended \<and> list_ex (\<lambda>(k, d). d = c) (ss_subs s) \<or>
     list_ex (\<lambda>(d, k). d = c) (ss_listeners s)"

definition expired :: "server \<Rightarrow> nat \<Rightarrow> bool" where
  "expired sv c \<longleftrightarrow> \<not> list_ex (\<lambda>s. owns s c) (sv_sessions sv)"

definition broadcast :: "ustring \<Rightarrow> nat \<Rightarrow> nat \<Rightarrow> server \<Rightarrow> server" where
  "broadcast message k curr_chan sv =
     sv\<lparr>sv_chans :=
          fold (\<lambda>c cs. if \<not> expired sv c \<and> c \<noteq> curr_chan then cs[c := chan_write message (cs ! c)] else cs)
            (tr_connections (sv_rooms sv ! k)) (sv_chans sv)\<rparr>"

definition handle_msg :: "nat \<Rightarrow> members \<Rightarrow> server \<Rightarrow> server" where
  "handle_msg i data sv =
     (case parse_message data sv of
        ParsedMessage message k \<Rightarrow>
          (case map_of (ss_subs (sv_sessions sv ! i)) k of
             None \<Rightarrow> reply i (lit ''not subscribed to this room'' @ [10]) sv
           | Some curr_chan \<Rightarrow> broadcast message k curr_chan sv)
      | MessageError e \<Rightarrow> reply i (lit ''Failed to send msg: '' @ e @ [10]) sv
      | MessageThrows \<Rightarrow> end_session i sv)"

text \<open>The result of a request to join or to create a room: on to the next step, or a reply.\<close>

definition joined :: "nat \<Rightarrow> ustring + nat \<times> nat \<times> server \<Rightarrow> server \<Rightarrow> server" where
  "joined i result sv =
     (case result of
        Inl e \<Rightarrow> reply i (lit ''Failed: '' @ e @ [10]) sv
      | Inr (c, k, sv') \<Rightarrow>
          set_session i ((sv_sessions sv' ! i)\<lparr>ss_pc := Joined c k False\<rparr>) sv')"

definition created :: "nat \<Rightarrow> ustring + nat \<times> server \<Rightarrow> server \<Rightarrow> server" where
  "created i result sv =
     (case result of
        Inl e \<Rightarrow> reply i (lit ''Failed to create and subscribe: '' @ e @ [10]) sv
      | Inr (k, sv') \<Rightarrow> set_session i ((sv_sessions sv' ! i)\<lparr>ss_pc := Creating k\<rparr>) sv')"

definition invalid_json :: ustring where
  "invalid_json = lit ''Invalid JSON'' @ [10]"

definition dispatch :: "nat \<Rightarrow> members \<Rightarrow> server \<Rightarrow> server" where
  "dispatch i data sv =
     (case map_of data (lit ''type'') of
        Some (JStr ty) \<Rightarrow>
          (let value = takeWhile (\<lambda>c. c \<noteq> 0) ty in
           if value = lit ''sub'' then
             joined i (handle_sub data (ss_subs (sv_sessions sv ! i)) sv) sv
           else if value = lit ''desub'' then end_session i sv
           else if value = lit ''csub'' then
             created i (handle_create_and_sub data sv) sv
           else if value = lit ''msg'' then handle_msg i data sv
           else reply i invalid_json sv)
      | _ \<Rightarrow> reply i invalid_json sv)"

text \<open>\<open>parse_data\<close> strips what ends the line.\<close>

definition strip_line :: "ustring \<Rightarrow> ustring" where
  "strip_line l = rev (dropWhile (\<lambda>c. c = 10 \<or> c = 13) (rev l))"

definition handle_line :: "(ustring \<Rightarrow> ustring + json) \<Rightarrow> nat \<Rightarrow> ustring \<Rightarrow> server \<Rightarrow> server" where
  "handle_line parse i line sv =
     (let data = strip_line line in
      if data = [] then sv
      else case parse data of
        Inl e \<Rightarrow> reply i (lit ''Failed to parse JSON: '' @ e @ [10]) sv
      | Inr (JObj ms) \<Rightarrow> dispatch i ms sv
      | Inr _ \<Rightarrow> reply i invalid_json sv)"

section \<open>Steps\<close>

text \<open>
  \<open>Accept\<close> is a turn of \<open>accept_connections\<close> and \<open>Shutdown\<close> its end, by an error of the acceptor or by
  the signal that makes \<open>serve_async\<close> close it, which ends neither the sessions nor the threads; \<open>Line i l\<close> is a line of session \<open>i\<close>; \<open>Hangup i\<close> is the end
  or an error of its socket; \<open>Enroll i\<close> follows a creation, \<open>SpawnListener i\<close> and \<open>Confirm i\<close> a join;
  \<open>Forward i c\<close> is one message of a listener, \<open>ListenerWaits i c\<close> a step of it towards its sleep and
  \<open>LeaveRoom i c\<close> its end; \<open>WriteOut i w\<close>, \<open>WriterWaits i\<close> and \<open>WriterEnds i\<close> are those of the writer.

  \<open>async_send\<close> of the socket may send all of the bytes or, as the library documents, only the
  first of them; or it fails, which ends the writer.
\<close>

datatype send_outcome = SentAll | SentPart nat | SendFailed

datatype srv_label =
    Accept
  | Shutdown
  | Line nat ustring
  | Hangup nat
  | Enroll nat
  | SpawnListener nat
  | Confirm nat
  | Forward nat nat
  | ListenerWaits nat nat
  | LeaveRoom nat nat
  | WriteOut nat send_outcome
  | WriterWaits nat
  | WriterEnds nat

definition spawn_listener :: "nat \<Rightarrow> server \<Rightarrow> server option" where
  "spawn_listener i sv =
     (let s = sv_sessions sv ! i in
      case ss_pc s of
        Joined c k b \<Rightarrow>
          Some (set_session i
            (s\<lparr>ss_pc := Confirming k b, ss_listeners := ss_listeners s @ [(c, k)],
               ss_subs := (if k \<in> fst ` set (ss_subs s) then ss_subs s else ss_subs s @ [(k, c)])\<rparr>) sv)
      | _ \<Rightarrow> None)"

definition confirm :: "(json \<Rightarrow> ustring) \<Rightarrow> nat \<Rightarrow> server \<Rightarrow> server option" where
  "confirm pr i sv =
     (let s = sv_sessions sv ! i in
      case ss_pc s of
        Confirming k b \<Rightarrow>
          (let room = sv_rooms sv ! k;
               ok = (if b then csub_ok_json else sub_ok_json) (tr_id room) (tr_name room)
           in Some (reply i (pr ok @ [10]) (set_session i (s\<lparr>ss_pc := Reading\<rparr>) sv)))
      | _ \<Rightarrow> None)"

definition forward :: "(json \<Rightarrow> ustring) \<Rightarrow> nat \<Rightarrow> nat \<Rightarrow> server \<Rightarrow> server option" where
  "forward pr i c sv =
     (case map_of (ss_listeners (sv_sessions sv ! i)) c of
        None \<Rightarrow> None
      | Some k \<Rightarrow>
          (case chan_read (sv_chans sv ! c) of
             GotMessage m ch \<Rightarrow>
               Some (reply i (pr (relay_json m (tr_name (sv_rooms sv ! k))) @ [10])
                       (sv\<lparr>sv_chans := (sv_chans sv)[c := ch]\<rparr>))
           | _ \<Rightarrow> None))"

definition listener_waits :: "nat \<Rightarrow> nat \<Rightarrow> server \<Rightarrow> server option" where
  "listener_waits i c sv =
     (case map_of (ss_listeners (sv_sessions sv ! i)) c of
        None \<Rightarrow> None
      | Some k \<Rightarrow>
          (case chan_read (sv_chans sv ! c) of
             ReadWaits ch \<Rightarrow> Some (sv\<lparr>sv_chans := (sv_chans sv)[c := ch]\<rparr>)
           | _ \<Rightarrow> None))"

text \<open>A listener that runs ends once its channel is closed.\<close>

definition leave_room :: "nat \<Rightarrow> nat \<Rightarrow> server \<Rightarrow> server option" where
  "leave_room i c sv =
     (let s = sv_sessions sv ! i in
      if c \<in> fst ` set (ss_listeners s) \<and> sc_closed (sv_chans sv ! c) \<and>
         sc_reader (sv_chans sv ! c) = Looking
      then Some (set_session i (s\<lparr>ss_listeners := filter (\<lambda>x. fst x \<noteq> c) (ss_listeners s)\<rparr>) sv)
      else None)"

text \<open>
  The socket is a local variable of \<open>tcp_accept\<close>: a writer that still runs after it has returned
  sends through a reference to a destroyed object, which has no defined outcome. The model notes
  it and stops the writer.
\<close>

definition write_out :: "nat \<Rightarrow> send_outcome \<Rightarrow> server \<Rightarrow> server option" where
  "write_out i w sv =
     (let s = sv_sessions sv ! i in
      if ss_writing s then
        case chan_read (ss_out s) of
          GotMessage m ch \<Rightarrow>
            Some (set_session i
              (if ss_pc s = Ended then s\<lparr>ss_out := ch, ss_writing := False, ss_dangling := True\<rparr>
               else case w of
                 SentAll \<Rightarrow> s\<lparr>ss_out := ch, ss_wire := ss_wire s @ as_bytes m\<rparr>
               | SentPart n \<Rightarrow> s\<lparr>ss_out := ch, ss_wire := ss_wire s @ take n (as_bytes m)\<rparr>
               | SendFailed \<Rightarrow> s\<lparr>ss_out := ch, ss_writing := False\<rparr>) sv)
        | _ \<Rightarrow> None
      else None)"

definition writer_waits :: "nat \<Rightarrow> server \<Rightarrow> server option" where
  "writer_waits i sv =
     (let s = sv_sessions sv ! i in
      if ss_writing s then
        case chan_read (ss_out s) of
          ReadWaits ch \<Rightarrow> Some (set_session i (s\<lparr>ss_out := ch\<rparr>) sv)
        | _ \<Rightarrow> None
      else None)"

definition writer_ends :: "nat \<Rightarrow> server \<Rightarrow> server option" where
  "writer_ends i sv =
     (let s = sv_sessions sv ! i in
      if ss_writing s \<and> chan_read (ss_out s) = ReadAborted
      then Some (set_session i (s\<lparr>ss_writing := False\<rparr>) sv) else None)"

fun srv_exec ::
  "(json \<Rightarrow> ustring) \<Rightarrow> (ustring \<Rightarrow> ustring + json) \<Rightarrow> srv_label \<Rightarrow> server \<Rightarrow> server option" where
  "srv_exec pr parse Accept sv =
     (if sv_accepting sv then Some (sv\<lparr>sv_sessions := sv_sessions sv @ [new_session]\<rparr>) else None)"
| "srv_exec pr parse Shutdown sv = Some (sv\<lparr>sv_accepting := False\<rparr>)"
| "srv_exec pr parse (Line i l) sv =
     (if i < length (sv_sessions sv) \<and> ss_pc (sv_sessions sv ! i) = Reading
      then Some (handle_line parse i l sv) else None)"
| "srv_exec pr parse (Hangup i) sv =
     (if i < length (sv_sessions sv) \<and> ss_pc (sv_sessions sv ! i) = Reading
      then Some (end_session i sv) else None)"
| "srv_exec pr parse (Enroll i) sv =
     (if i < length (sv_sessions sv) then enroll i sv else None)"
| "srv_exec pr parse (SpawnListener i) sv =
     (if i < length (sv_sessions sv) then spawn_listener i sv else None)"
| "srv_exec pr parse (Confirm i) sv =
     (if i < length (sv_sessions sv) then confirm pr i sv else None)"
| "srv_exec pr parse (Forward i c) sv =
     (if i < length (sv_sessions sv) then forward pr i c sv else None)"
| "srv_exec pr parse (ListenerWaits i c) sv =
     (if i < length (sv_sessions sv) then listener_waits i c sv else None)"
| "srv_exec pr parse (LeaveRoom i c) sv =
     (if i < length (sv_sessions sv) then leave_room i c sv else None)"
| "srv_exec pr parse (WriteOut i w) sv =
     (if i < length (sv_sessions sv) then write_out i w sv else None)"
| "srv_exec pr parse (WriterWaits i) sv =
     (if i < length (sv_sessions sv) then writer_waits i sv else None)"
| "srv_exec pr parse (WriterEnds i) sv =
     (if i < length (sv_sessions sv) then writer_ends i sv else None)"

inductive srv_reachable ::
  "(json \<Rightarrow> ustring) \<Rightarrow> (ustring \<Rightarrow> ustring + json) \<Rightarrow> server \<Rightarrow> bool"
  for pr :: "json \<Rightarrow> ustring" and parse :: "ustring \<Rightarrow> ustring + json" where
  start: "srv_reachable pr parse init_server"
| step: "srv_reachable pr parse sv \<Longrightarrow> srv_exec pr parse l sv = Some sv' \<Longrightarrow> srv_reachable pr parse sv'"

end
