(* ===== verification/Server_Properties.thy ===== *)
theory Server_Properties
  imports Server Network
begin

text \<open>
  The chat server: its invariants over every interleaving of its sessions, who gets a message,
  and that it understands every command the client sends.
\<close>

section \<open>Invariants\<close>

text \<open>The channels a session holds: those of its subscriptions and the one it is joining with.\<close>

fun joining :: "session_pc \<Rightarrow> (nat \<times> nat) set" where
  "joining (Joined c k b) = {(k, c)}"
| "joining _ = {}"

text \<open>The room a session has created and not yet joined.\<close>

fun creating :: "session_pc \<Rightarrow> nat set" where
  "creating (Creating k) = {k}"
| "creating _ = {}"

definition owned :: "session \<Rightarrow> (nat \<times> nat) set" where
  "owned s = set (ss_subs s) \<union> joining (ss_pc s)"

text \<open>
  Rooms are numbered from 1 in the order of their creation; a room's connections are different
  channels; a session's channels are connections of their rooms, and no two sessions share one.
\<close>

definition room_ok :: "server \<Rightarrow> nat \<Rightarrow> bool" where
  "room_ok sv k \<longleftrightarrow>
     tr_id (sv_rooms sv ! k) = of_nat (k + 1) \<and> distinct (tr_connections (sv_rooms sv ! k)) \<and>
     set (tr_connections (sv_rooms sv ! k)) \<subseteq> {..<length (sv_chans sv)}"

definition owned_ok :: "server \<Rightarrow> session \<Rightarrow> bool" where
  "owned_ok sv s \<longleftrightarrow>
     creating (ss_pc s) \<subseteq> {..<length (sv_rooms sv)} \<and>
     (\<forall>(k, c)\<in>owned s. k < length (sv_rooms sv) \<and> c \<in> set (tr_connections (sv_rooms sv ! k)))"

text \<open>A channel that nobody owns any more has been closed.\<close>

definition chans_owned :: "server \<Rightarrow> bool" where
  "chans_owned sv \<longleftrightarrow> (\<forall>c<length (sv_chans sv). sc_closed (sv_chans sv ! c) \<or> \<not> expired sv c)"

definition srv_inv :: "server \<Rightarrow> bool" where
  "srv_inv sv \<longleftrightarrow> chans_owned sv \<and>
     (\<forall>k<length (sv_rooms sv). room_ok sv k) \<and>
     (\<forall>i<length (sv_sessions sv). owned_ok sv (sv_sessions sv ! i)) \<and>
     (\<forall>i<length (sv_sessions sv). \<forall>j<length (sv_sessions sv). i \<noteq> j \<longrightarrow>
        snd ` owned (sv_sessions sv ! i) \<inter> snd ` owned (sv_sessions sv ! j) = {})"

lemma not_expired: "\<not> expired sv c \<longleftrightarrow> (\<exists>j<length (sv_sessions sv). owns (sv_sessions sv ! j) c)"
  by (simp add: expired_def list_ex_length)

lemma owned_elsewhere:
  assumes "\<not> expired sv c" "owns (sv_sessions sv ! i) c \<Longrightarrow> owns s c"
    "sv_sessions sv' = (sv_sessions sv)[i := s]"
  shows "\<not> expired sv' c"
proof -
  from assms(1) obtain j where "j < length (sv_sessions sv)" "owns (sv_sessions sv ! j) c"
    unfolding not_expired by blast
  with assms(2) have "j < length (sv_sessions sv') \<and> owns (sv_sessions sv' ! j) c"
    by (cases "j = i") (simp_all add: assms(3))
  then show ?thesis unfolding not_expired by blast
qed

lemma chans_owned_session:
  assumes "chans_owned sv" "sv_sessions sv' = (sv_sessions sv)[i := s]" "length (sv_chans sv') = length (sv_chans sv)"
    "\<And>c. c < length (sv_chans sv) \<Longrightarrow> \<not> sc_closed (sv_chans sv' ! c) \<Longrightarrow>
       \<not> sc_closed (sv_chans sv ! c) \<and> (owns (sv_sessions sv ! i) c \<longrightarrow> owns s c)"
  shows "chans_owned sv'"
  using assms(1,3,4) owned_elsewhere [OF _ _ assms(2)] unfolding chans_owned_def by metis

text \<open>Steps that leave the rooms alone and add nothing to what the sessions hold.\<close>

definition quiet :: "server \<Rightarrow> server \<Rightarrow> bool" where
  "quiet sv sv' \<longleftrightarrow>
     sv_rooms sv' = sv_rooms sv \<and> length (sv_chans sv') = length (sv_chans sv) \<and>
     length (sv_sessions sv') = length (sv_sessions sv) \<and>
     (\<forall>i<length (sv_sessions sv). owned (sv_sessions sv' ! i) \<subseteq> owned (sv_sessions sv ! i) \<and>
        creating (ss_pc (sv_sessions sv' ! i)) \<subseteq> creating (ss_pc (sv_sessions sv ! i))) \<and>
     (\<forall>c<length (sv_chans sv). \<not> sc_closed (sv_chans sv' ! c) \<longrightarrow>
        \<not> sc_closed (sv_chans sv ! c) \<and> (\<not> expired sv c \<longrightarrow> \<not> expired sv' c))"

lemma quiet_inv:
  assumes "quiet sv sv'" "srv_inv sv"
  shows "srv_inv sv'"
proof -
  have q: "sv_rooms sv' = sv_rooms sv" "length (sv_chans sv') = length (sv_chans sv)"
    "length (sv_sessions sv') = length (sv_sessions sv)"
    "\<And>i. i < length (sv_sessions sv) \<Longrightarrow> owned (sv_sessions sv' ! i) \<subseteq> owned (sv_sessions sv ! i)"
    "\<And>i. i < length (sv_sessions sv) \<Longrightarrow> creating (ss_pc (sv_sessions sv' ! i)) \<subseteq> creating (ss_pc (sv_sessions sv ! i))"
    using assms(1) by (simp_all add: quiet_def)
  have "snd ` owned (sv_sessions sv' ! i) \<inter> snd ` owned (sv_sessions sv' ! j) = {}"
    if "i < length (sv_sessions sv)" "j < length (sv_sessions sv)" "i \<noteq> j" for i j
  proof -
    have "snd ` owned (sv_sessions sv ! i) \<inter> snd ` owned (sv_sessions sv ! j) = {}"
      using assms(2) that by (simp add: srv_inv_def)
    with q(4) [OF that(1)] q(4) [OF that(2)] show ?thesis by blast
  qed
  moreover have "owned_ok sv' (sv_sessions sv' ! i)" if "i < length (sv_sessions sv)" for i
    using assms(2) q(4,5) [OF that] that by (fastforce simp: srv_inv_def owned_ok_def q(1))
  moreover have "room_ok sv' k" if "k < length (sv_rooms sv)" for k
    using assms(2) that by (simp add: srv_inv_def room_ok_def q(1,2))
  moreover have "chans_owned sv'"
    using assms by (auto simp: srv_inv_def chans_owned_def quiet_def)
  ultimately show ?thesis by (simp add: srv_inv_def q(1,3))
qed

lemma quiet_refl [simp]: "quiet sv sv"
  by (simp add: quiet_def)

lemma quiet_set_session:
  assumes "owned s \<subseteq> owned (sv_sessions sv ! i)" "creating (ss_pc s) \<subseteq> creating (ss_pc (sv_sessions sv ! i))"
    "length cs = length (sv_chans sv)"
    "\<And>c. c < length (sv_chans sv) \<Longrightarrow> \<not> sc_closed (cs ! c) \<Longrightarrow>
       \<not> sc_closed (sv_chans sv ! c) \<and> (owns (sv_sessions sv ! i) c \<longrightarrow> owns s c)"
  shows "quiet sv (set_session i s (sv\<lparr>sv_chans := cs\<rparr>))"
proof -
  let ?sv = "set_session i s (sv\<lparr>sv_chans := cs\<rparr>)"
  have sess: "sv_sessions ?sv = (sv_sessions sv)[i := s]" by (simp add: set_session_def)
  have "owned (sv_sessions ?sv ! j) \<subseteq> owned (sv_sessions sv ! j) \<and>
      creating (ss_pc (sv_sessions ?sv ! j)) \<subseteq> creating (ss_pc (sv_sessions sv ! j))"
    if "j < length (sv_sessions sv)" for j
    using assms(1,2) that by (cases "j = i") (simp_all add: sess)
  moreover have "\<not> expired ?sv c" if "c < length (sv_chans sv)" "\<not> sc_closed (cs ! c)" "\<not> expired sv c" for c
    using owned_elsewhere [OF that(3) _ sess] assms(4) [OF that(1,2)] by blast
  ultimately show ?thesis using assms(3,4) by (simp add: quiet_def set_session_def)
qed

lemma owns_fields [simp]:
  "owns (s\<lparr>ss_out := ch\<rparr>) = owns s" "owns (s\<lparr>ss_writing := w\<rparr>) = owns s"
  "owns (s\<lparr>ss_wire := bs\<rparr>) = owns s" "owns (s\<lparr>ss_dangling := d\<rparr>) = owns s"
  by (simp_all add: owns_def fun_eq_iff)

lemma owned_fields [simp]:
  "owned (s\<lparr>ss_out := ch\<rparr>) = owned s" "owned (s\<lparr>ss_writing := w\<rparr>) = owned s"
  "owned (s\<lparr>ss_wire := bs\<rparr>) = owned s" "owned (s\<lparr>ss_dangling := d\<rparr>) = owned s"
  "owned (s\<lparr>ss_listeners := ls\<rparr>) = owned s"
  by (simp_all add: owned_def)

lemma quiet_reply_chans:
  assumes "length cs = length (sv_chans sv)" "\<And>c. sc_closed (cs ! c) = sc_closed (sv_chans sv ! c)"
  shows "quiet sv (reply i m (sv\<lparr>sv_chans := cs\<rparr>))"
proof -
  let ?s = "(sv_sessions sv ! i)\<lparr>ss_out := chan_write m (ss_out (sv_sessions sv ! i))\<rparr>"
  have "quiet sv (set_session i ?s (sv\<lparr>sv_chans := cs\<rparr>))"
    using assms by (intro quiet_set_session) simp_all
  then show ?thesis by (simp add: reply_def Let_def)
qed

lemma quiet_reply: "quiet sv (reply i m sv)"
  using quiet_reply_chans [of "sv_chans sv" sv i m] by simp

lemma length_close_all: "length (fold (\<lambda>(k, c) cs. cs[c := f (cs ! c)]) xs cs) = length cs"
  by (induction xs arbitrary: cs) auto

lemma timer_cancel_fields [simp]:
  "sc_queue (timer_cancel ch) = sc_queue ch" "sc_closed (timer_cancel ch) = sc_closed ch"
  "sc_reader (timer_cancel ch) = (if sc_reader ch = Asleep then Looking else sc_reader ch)"
  by (simp_all add: timer_cancel_def)

lemma chan_close_fields [simp]:
  "sc_closed (chan_close ch)" "sc_queue (chan_close ch) = sc_queue ch" "chan_close (chan_close ch) = chan_close ch"
  by (simp_all add: chan_close_def timer_cancel_def)

lemma chan_write_fields [simp]:
  "sc_closed (chan_write m ch) = sc_closed ch"
  "sc_queue (chan_write m ch) = (if sc_closed ch then sc_queue ch else sc_queue ch @ [m])"
  "sc_reader (chan_write m ch) = (if \<not> sc_closed ch \<and> sc_reader ch = Asleep then Looking else sc_reader ch)"
  by (simp_all add: chan_write_def)

lemma chan_read_got:
  "chan_read c = GotMessage m c' \<longleftrightarrow>
     sc_reader c = Looking \<and> (\<exists>q. sc_queue c = m # q \<and> c' = c\<lparr>sc_queue := q\<rparr>)"
  by (auto simp: chan_read_def split: list.split chan_reader.split)

lemma chan_read_waits:
  "chan_read c = ReadWaits c' \<Longrightarrow>
   sc_queue c' = sc_queue c \<and> sc_closed c' = sc_closed c \<and> sc_reader c' \<noteq> Looking \<and> sc_reader c \<noteq> Asleep"
  by (auto simp: chan_read_def split: list.splits chan_reader.splits if_splits)

lemma close_all_nth:
  "c < length cs \<Longrightarrow> fold (\<lambda>(k, c) cs. cs[c := chan_close (cs ! c)]) xs cs ! c =
     (if c \<in> snd ` set xs then chan_close (cs ! c) else cs ! c)"
proof (induction xs arbitrary: cs)
  case (Cons x xs)
  then show ?case by (cases x; cases "snd x = c") auto
qed simp

lemma owns_ended:
  "joining (ss_pc s) = {} \<Longrightarrow> owns s c \<Longrightarrow> c \<notin> snd ` set (ss_subs s) \<Longrightarrow> owns (s\<lparr>ss_pc := Ended\<rparr>) c"
  by (cases "ss_pc s") (force simp: owns_def list_ex_iff)+

lemma quiet_end_session: "joining (ss_pc (sv_sessions sv ! i)) = {} \<Longrightarrow> quiet sv (end_session i sv)"
  unfolding end_session_def Let_def
  by (rule quiet_set_session)
    (auto simp: owned_def length_close_all close_all_nth intro: owns_ended split: if_splits)

lemma length_broadcast: "length (fold (\<lambda>c cs. if P c then cs[c := g c cs] else cs) ds cs) = length cs"
  by (induction ds arbitrary: cs) simp_all

lemma broadcast_closed:
  assumes "\<And>c cs. sc_closed (g c cs) = sc_closed (cs ! c)"
  shows "sc_closed (fold (\<lambda>c cs. if P c then cs[c := g c cs] else cs) ds cs ! d) = sc_closed (cs ! d)"
proof (induction ds arbitrary: cs)
  case (Cons e ds)
  have "sc_closed (cs[e := g e cs] ! d) = sc_closed (cs ! d)"
    using assms by (cases "e = d"; cases "d < length cs") (simp_all add: list_update_beyond)
  with Cons show ?case by simp
qed simp

lemma broadcast_fields [simp]:
  "sv_rooms (broadcast m k own sv) = sv_rooms sv" "sv_sessions (broadcast m k own sv) = sv_sessions sv"
  "length (sv_chans (broadcast m k own sv)) = length (sv_chans sv)"
  "sc_closed (sv_chans (broadcast m k own sv) ! d) = sc_closed (sv_chans sv ! d)"
  "expired (broadcast m k own sv) c = expired sv c"
  by (simp_all add: broadcast_def length_broadcast broadcast_closed) (simp add: expired_def)

lemma quiet_broadcast: "quiet sv (broadcast m k c sv)"
  by (simp add: quiet_def)

lemma quiet_handle_msg: "joining (ss_pc (sv_sessions sv ! i)) = {} \<Longrightarrow> quiet sv (handle_msg i data sv)"
  by (simp add: handle_msg_def quiet_reply quiet_end_session quiet_broadcast
      split: message_result.split option.split)

lemma sub_to_room_inv:
  assumes "srv_inv sv" "k < length (sv_rooms sv)" "i < length (sv_sessions sv)"
    "joining (ss_pc (sv_sessions sv ! i)) = {}" "sub_to_room k sv = (c, sv')"
  shows "srv_inv (set_session i ((sv_sessions sv' ! i)\<lparr>ss_pc := Joined c k b\<rparr>) sv')"
proof -
  let ?n = "length (sv_chans sv)"
  let ?S = "set_session i ((sv_sessions sv' ! i)\<lparr>ss_pc := Joined c k b\<rparr>) sv'"
  have c: "c = ?n" and sv': "sv_sessions sv' = sv_sessions sv" "length (sv_chans sv') = Suc ?n"
    "sv_rooms sv' = (sv_rooms sv)[k := (sv_rooms sv ! k)\<lparr>tr_connections := tr_connections (sv_rooms sv ! k) @ [c]\<rparr>]"
    using assms(5) by (auto simp: sub_to_room_def Let_def)
  have own: "owned (sv_sessions ?S ! j) = owned (sv_sessions sv ! j) \<union> (if j = i then {(k, c)} else {})"
    if "j < length (sv_sessions sv)" for j
    using that assms(4) by (auto simp: set_session_def sv'(1) owned_def nth_list_update)
  have cre: "creating (ss_pc (sv_sessions ?S ! j)) \<subseteq> creating (ss_pc (sv_sessions sv ! j))"
    if "j < length (sv_sessions sv)" for j
    using that by (cases "j = i") (auto simp: set_session_def sv'(1))
  have fresh: "c \<notin> snd ` owned (sv_sessions sv ! j)" if "j < length (sv_sessions sv)" for j
  proof
    assume "c \<in> snd ` owned (sv_sessions sv ! j)"
    then obtain k' where "(k', c) \<in> owned (sv_sessions sv ! j)" by auto
    then have "c \<in> set (tr_connections (sv_rooms sv ! k'))" "k' < length (sv_rooms sv)"
      using assms(1) that by (auto simp: srv_inv_def owned_ok_def)
    with assms(1) c show False by (auto simp: srv_inv_def room_ok_def)
  qed
  have "room_ok ?S j" if "j < length (sv_rooms sv)" for j
  proof -
    have "room_ok sv j" using assms(1) that by (simp add: srv_inv_def)
    moreover from this have "length (sv_chans sv) \<notin> set (tr_connections (sv_rooms sv ! j))"
      by (auto simp: room_ok_def)
    ultimately show ?thesis using assms(2) c
      by (cases "j = k") (auto simp: room_ok_def set_session_def sv')
  qed
  moreover have "owned_ok ?S (sv_sessions ?S ! j)" if "j < length (sv_sessions sv)" for j
  proof -
    have "owned_ok sv (sv_sessions sv ! j)" using assms(1) that by (simp add: srv_inv_def)
    moreover have "c \<in> set (tr_connections (sv_rooms sv' ! k))" using assms(2) by (simp add: sv'(3))
    ultimately show ?thesis
      using assms(2) cre [OF that] unfolding owned_ok_def own [OF that]
      by (auto simp: set_session_def sv'(3) nth_list_update split: if_splits)
  qed
  moreover have "snd ` owned (sv_sessions ?S ! j) \<inter> snd ` owned (sv_sessions ?S ! l) = {}"
    if "j < length (sv_sessions sv)" "l < length (sv_sessions sv)" "j \<noteq> l" for j l
  proof -
    have "snd ` owned (sv_sessions sv ! j) \<inter> snd ` owned (sv_sessions sv ! l) = {}"
      using assms(1) that by (simp add: srv_inv_def)
    with fresh [OF that(1)] fresh [OF that(2)] that(3) show ?thesis
      by (auto simp: own [OF that(1)] own [OF that(2)])
  qed
  moreover have "chans_owned ?S"
    unfolding chans_owned_def
  proof (intro allI impI)
    fix d assume d: "d < length (sv_chans ?S)"
    have sess: "sv_sessions ?S = (sv_sessions sv)[i := (sv_sessions sv ! i)\<lparr>ss_pc := Joined c k b\<rparr>]"
      by (simp add: set_session_def sv'(1))
    show "sc_closed (sv_chans ?S ! d) \<or> \<not> expired ?S d"
    proof (cases "d = c")
      case True
      have "owns (sv_sessions ?S ! i) d" using assms(3) True by (simp add: sess owns_def)
      then show ?thesis using assms(3) by (auto simp: not_expired sess)
    next
      case False
      with d c assms(5) have old: "d < ?n" "sv_chans ?S ! d = sv_chans sv ! d"
        by (auto simp: sub_to_room_def Let_def set_session_def nth_append)
      have "owns (sv_sessions sv ! i) d \<Longrightarrow> owns ((sv_sessions sv ! i)\<lparr>ss_pc := Joined c k b\<rparr>) d"
        using assms(4) by (cases "ss_pc (sv_sessions sv ! i)") (auto simp: owns_def)
      with old owned_elsewhere [OF _ _ sess] assms(1) show ?thesis by (auto simp: srv_inv_def chans_owned_def)
    qed
  qed
  ultimately show ?thesis
    by (simp add: srv_inv_def set_session_def sv'(1,3))
qed

lemma new_room_inv:
  assumes "srv_inv sv"
  shows "srv_inv (add_room n sv)"
proof -
  let ?S = "add_room n sv"
  have "room_ok ?S k" if "k < Suc (length (sv_rooms sv))" for k
    using assms that by (cases "k = length (sv_rooms sv)") (auto simp: add_room_def srv_inv_def room_ok_def nth_append)
  moreover have "owned_ok ?S (sv_sessions sv ! i)" if "i < length (sv_sessions sv)" for i
  proof -
    have "owned_ok sv (sv_sessions sv ! i)" using assms that by (simp add: srv_inv_def)
    then show ?thesis by (auto simp: add_room_def owned_ok_def nth_append split: prod.splits)
  qed
  moreover have "chans_owned ?S" using assms by (simp add: srv_inv_def chans_owned_def add_room_def expired_def)
  ultimately show ?thesis using assms by (simp add: srv_inv_def add_room_def)
qed

lemma new_session_pc:
  assumes "srv_inv sv" "k < length (sv_rooms sv)" "ss_pc (sv_sessions sv ! i) = Reading"
  shows "srv_inv (set_session i ((sv_sessions sv ! i)\<lparr>ss_pc := Creating k\<rparr>) sv)"
proof -
  let ?s = "(sv_sessions sv ! i)\<lparr>ss_pc := Creating k\<rparr>"
  let ?S = "set_session i ?s sv"
  have own: "owned (sv_sessions ?S ! j) \<subseteq> owned (sv_sessions sv ! j)"
    if "j < length (sv_sessions sv)" for j
    using that by (cases "j = i") (auto simp: set_session_def owned_def)
  have "owned_ok ?S (sv_sessions ?S ! j)" if "j < length (sv_sessions sv)" for j
  proof -
    have "owned_ok sv (sv_sessions sv ! j)" using assms(1) that by (simp add: srv_inv_def)
    with own [OF that] that assms(2) show ?thesis
      by (cases "j = i") (auto simp: owned_ok_def set_session_def nth_list_update)
  qed
  moreover have "snd ` owned (sv_sessions ?S ! j) \<inter> snd ` owned (sv_sessions ?S ! l) = {}"
    if "j < length (sv_sessions sv)" "l < length (sv_sessions sv)" "j \<noteq> l" for j l
  proof -
    have "snd ` owned (sv_sessions sv ! j) \<inter> snd ` owned (sv_sessions sv ! l) = {}"
      using assms(1) that by (simp add: srv_inv_def)
    with own [OF that(1)] own [OF that(2)] show ?thesis by blast
  qed
  moreover have "owns (sv_sessions sv ! i) c \<Longrightarrow> owns ?s c" for c
    using assms(3) by (auto simp: owns_def)
  then have "chans_owned ?S"
    using assms(1) by (intro chans_owned_session [of sv ?S i ?s]) (simp_all add: set_session_def srv_inv_def)
  ultimately show ?thesis using assms(1) by (simp add: srv_inv_def set_session_def room_ok_def)
qed

lemma find_index_Some:
  "find (\<lambda>k. P k) [0..<n] = Some k \<Longrightarrow> k < n \<and> P k"
  by (auto simp: find_Some_iff)

lemma handle_sub_Inr:
  assumes "handle_sub data subs sv = Inr (c, k, sv')"
  shows "k < length (sv_rooms sv) \<and> sub_to_room k sv = (c, sv') \<and>
    parse_id data (lit ''grp'') = Some (tr_id (sv_rooms sv ! k))"
  using assms find_index_Some [of "\<lambda>k. tr_id (sv_rooms sv ! k) = _" "length (sv_rooms sv)" k]
  by (simp add: handle_sub_def try_find_room_def case_prod_beta prod_eq_iff
      split: option.splits if_splits)

lemma handle_create_Inr:
  assumes "handle_create_and_sub data sv = Inr (k, sv')"
  shows "k = length (sv_rooms sv) \<and>
    (\<exists>n. map_of data (lit ''grp_name'') = Some (JStr n) \<and> sv' = add_room n sv)"
  using assms by (auto simp: handle_create_and_sub_def split: option.splits json.splits)

lemma joined_sub_inv:
  assumes "srv_inv sv" "i < length (sv_sessions sv)" "ss_pc (sv_sessions sv ! i) = Reading"
  shows "srv_inv (joined i (handle_sub data subs sv) sv)"
proof (cases "handle_sub data subs sv")
  case (Inl x)
  then show ?thesis using quiet_inv [OF quiet_reply assms(1)] by (simp add: joined_def)
next
  case (Inr r)
  obtain c k sv' where r: "r = (c, k, sv')" by (cases r)
  with Inr handle_sub_Inr have "k < length (sv_rooms sv)" "sub_to_room k sv = (c, sv')"
    by blast+
  with Inr r sub_to_room_inv [OF assms(1) _ assms(2)] assms(3) show ?thesis by (simp add: joined_def)
qed

lemma created_inv:
  assumes "srv_inv sv" "i < length (sv_sessions sv)" "ss_pc (sv_sessions sv ! i) = Reading"
  shows "srv_inv (created i (handle_create_and_sub data sv) sv)"
proof (cases "handle_create_and_sub data sv")
  case (Inl x)
  then show ?thesis using quiet_inv [OF quiet_reply assms(1)] by (simp add: created_def)
next
  case (Inr r)
  obtain k sv' where r: "r = (k, sv')" by (cases r)
  with Inr handle_create_Inr obtain n where n: "k = length (sv_rooms sv)" "sv' = add_room n sv"
    by blast
  have len: "length (sv_rooms (add_room n sv)) = Suc (length (sv_rooms sv))"
    "sv_sessions (add_room n sv) = sv_sessions sv" by (simp_all add: add_room_def)
  from new_session_pc [OF new_room_inv [OF assms(1)], of k n i] assms(2,3) n len
  show ?thesis by (simp add: created_def Inr r)
qed

lemma enroll_inv:
  assumes "srv_inv sv" "i < length (sv_sessions sv)" "enroll i sv = Some sv'"
  shows "srv_inv sv'"
proof -
  from assms(3) obtain k c sv1 where k: "ss_pc (sv_sessions sv ! i) = Creating k"
    "sub_to_room k sv = (c, sv1)" "sv' = set_session i ((sv_sessions sv1 ! i)\<lparr>ss_pc := Joined c k True\<rparr>) sv1"
    by (auto simp: enroll_def case_prod_beta prod_eq_iff split: session_pc.splits)
  have "k < length (sv_rooms sv)" using assms(1,2) k(1) by (force simp: srv_inv_def owned_ok_def)
  from sub_to_room_inv [OF assms(1) this assms(2) _ k(2), of True] k(1,3) show ?thesis by simp
qed

lemma handle_line_inv:
  assumes "srv_inv sv" "i < length (sv_sessions sv)" "ss_pc (sv_sessions sv ! i) = Reading"
  shows "srv_inv (handle_line parse i l sv)"
proof -
  have "joining (ss_pc (sv_sessions sv ! i)) = {}" using assms(3) by simp
  then have "srv_inv (dispatch i ms sv)" for ms
    using assms joined_sub_inv created_inv
    by (simp add: dispatch_def Let_def quiet_inv [OF quiet_reply] quiet_inv [OF quiet_end_session]
        quiet_inv [OF quiet_handle_msg] split: option.split json.split)
  then show ?thesis
    using assms(1)
    by (simp add: handle_line_def Let_def quiet_inv [OF quiet_reply] split: sum.split json.split)
qed

lemma quiet_trans_session:
  "owned s \<subseteq> owned (sv_sessions sv ! i) \<Longrightarrow>
   creating (ss_pc s) \<subseteq> creating (ss_pc (sv_sessions sv ! i)) \<Longrightarrow>
   (\<And>c. \<not> sc_closed (sv_chans sv ! c) \<Longrightarrow> owns (sv_sessions sv ! i) c \<Longrightarrow> owns s c) \<Longrightarrow>
   quiet sv (set_session i s sv)"
  using quiet_set_session [of s sv i "sv_chans sv"] by simp

lemma accept_inv:
  assumes "srv_inv sv"
  shows "srv_inv (sv\<lparr>sv_sessions := sv_sessions sv @ [new_session]\<rparr>)"
proof -
  have "owned new_session = {}" "creating (ss_pc new_session) = {}"
    by (simp_all add: owned_def new_session_def)
  moreover have "chans_owned (sv\<lparr>sv_sessions := sv_sessions sv @ [new_session]\<rparr>)"
    using assms by (auto simp: srv_inv_def chans_owned_def expired_def)
  ultimately show ?thesis using assms
    by (auto simp: srv_inv_def room_ok_def owned_ok_def nth_append less_Suc_eq)
qed

lemma quiet_trans:
  assumes "quiet a b" "quiet b c"
  shows "quiet a c"
proof -
  have len: "length (sv_chans b) = length (sv_chans a)" "length (sv_sessions b) = length (sv_sessions a)"
    using assms(1) by (simp_all add: quiet_def)
  have "owned (sv_sessions c ! i) \<subseteq> owned (sv_sessions a ! i) \<and>
      creating (ss_pc (sv_sessions c ! i)) \<subseteq> creating (ss_pc (sv_sessions a ! i))"
    if "i < length (sv_sessions a)" for i
    using assms that unfolding quiet_def len by (meson order_trans)
  moreover have "\<not> sc_closed (sv_chans a ! d) \<and> (\<not> expired a d \<longrightarrow> \<not> expired c d)"
    if "d < length (sv_chans a)" "\<not> sc_closed (sv_chans c ! d)" for d
    using assms that unfolding quiet_def len by blast
  ultimately show ?thesis using assms by (simp add: quiet_def)
qed

lemma spawn_listener_quiet:
  assumes "spawn_listener i sv = Some sv'"
  shows "quiet sv sv'"
proof -
  let ?s = "sv_sessions sv ! i"
  from assms obtain c k b where pc: "ss_pc ?s = Joined c k b"
    by (auto simp: spawn_listener_def Let_def split: session_pc.splits)
  let ?s' = "?s\<lparr>ss_pc := Confirming k b, ss_listeners := ss_listeners ?s @ [(c, k)],
    ss_subs := (if k \<in> fst ` set (ss_subs ?s) then ss_subs ?s else ss_subs ?s @ [(k, c)])\<rparr>"
  have "owned ?s' \<subseteq> owned ?s" using pc by (auto simp: owned_def)
  moreover have "owns ?s d \<Longrightarrow> owns ?s' d" for d using pc by (auto simp: owns_def)
  moreover have "sv' = set_session i ?s' sv" using assms pc by (simp add: spawn_listener_def Let_def)
  ultimately show ?thesis by (simp add: quiet_trans_session)
qed

lemma confirm_quiet: "confirm pr i sv = Some sv' \<Longrightarrow> quiet sv sv'"
  by (auto simp: confirm_def Let_def owned_def owns_def
      intro!: quiet_trans [OF quiet_trans_session quiet_reply] split: session_pc.splits)

text \<open>An update of a channel that keeps what \<open>f\<close> reads of it.\<close>

lemma update_keeps: "f ch = f (cs ! c) \<Longrightarrow> f (cs[c := ch] ! d) = f (cs ! d)"
  by (cases "c = d"; cases "d < length cs") (simp_all add: list_update_beyond)

lemmas closed_update = update_keeps [of sc_closed]

lemma forward_quiet: "forward pr i c sv = Some sv' \<Longrightarrow> quiet sv sv'"
  by (auto simp: forward_def chan_read_got closed_update intro!: quiet_reply_chans
      split: option.splits chan_read.splits)

lemma quiet_chans:
  "length cs = length (sv_chans sv) \<Longrightarrow> (\<And>c. sc_closed (cs ! c) = sc_closed (sv_chans sv ! c)) \<Longrightarrow>
   quiet sv (sv\<lparr>sv_chans := cs\<rparr>)"
  by (simp add: quiet_def expired_def)

lemma listener_waits_quiet: "listener_waits i c sv = Some sv' \<Longrightarrow> quiet sv sv'"
  by (auto simp: listener_waits_def closed_update dest!: chan_read_waits intro!: quiet_chans
      split: option.splits chan_read.splits)

lemma leave_room_quiet: "leave_room i c sv = Some sv' \<Longrightarrow> quiet sv sv'"
  by (auto simp: leave_room_def Let_def owns_def list_ex_iff intro!: quiet_trans_session split: if_splits)

lemma write_out_quiet: "write_out i w sv = Some sv' \<Longrightarrow> quiet sv sv'"
  by (cases w) (auto simp: write_out_def Let_def intro!: quiet_trans_session
      split: chan_read.splits if_splits)

lemma writer_waits_quiet: "writer_waits i sv = Some sv' \<Longrightarrow> quiet sv sv'"
  by (auto simp: writer_waits_def Let_def intro!: quiet_trans_session split: chan_read.splits if_splits)

lemma writer_ends_quiet: "writer_ends i sv = Some sv' \<Longrightarrow> quiet sv sv'"
  by (auto simp: writer_ends_def Let_def intro!: quiet_trans_session split: if_splits)

lemma shutdown_quiet: "quiet sv (sv\<lparr>sv_accepting := b\<rparr>)"
  by (simp add: quiet_def expired_def)

lemmas srv_quiet = spawn_listener_quiet confirm_quiet forward_quiet listener_waits_quiet leave_room_quiet
  write_out_quiet writer_waits_quiet writer_ends_quiet

lemma srv_exec_inv:
  assumes "srv_inv sv" "srv_exec pr parse l sv = Some sv'"
  shows "srv_inv sv'"
proof (cases l)
  case Accept
  with assms show ?thesis by (auto intro: accept_inv split: if_splits)
next
  case Shutdown
  with assms show ?thesis by (auto intro: quiet_inv [OF shutdown_quiet])
next
  case (Line i t)
  with assms show ?thesis by (auto intro: handle_line_inv split: if_splits)
next
  case (Hangup i)
  with assms show ?thesis by (auto intro: quiet_inv [OF quiet_end_session] split: if_splits)
next
  case (Enroll i)
  with assms show ?thesis by (auto intro: enroll_inv split: if_splits)
qed (use assms quiet_inv [of sv sv'] srv_quiet in \<open>auto split: if_splits\<close>)

lemma srv_reachable_inv: "srv_reachable pr parse sv \<Longrightarrow> srv_inv sv"
proof (induction rule: srv_reachable.induct)
  case start
  show ?case by (simp add: srv_inv_def chans_owned_def init_server_def)
qed (blast intro: srv_exec_inv)

section \<open>Messages\<close>

lemma broadcast_chan:
  assumes "distinct ds" "set ds \<subseteq> {..<length cs}"
  shows "fold (\<lambda>c cs. if P c then cs[c := chan_write m (cs ! c)] else cs) ds cs ! d =
    (if d \<in> set ds \<and> P d then chan_write m (cs ! d) else cs ! d)"
  using assms
proof (induction ds arbitrary: cs)
  case (Cons e ds)
  then show ?case by (cases "P e") (auto simp: nth_list_update)
qed simp

text \<open>A member whose channel has expired is skipped; the channel is closed, so writing to it would do nothing.\<close>

lemma broadcast_spec:
  assumes "srv_inv sv" "k < length (sv_rooms sv)"
  shows "sv_chans (broadcast m k own sv) ! d =
    (if d \<in> set (tr_connections (sv_rooms sv ! k)) \<and> d \<noteq> own then chan_write m (sv_chans sv ! d)
     else sv_chans sv ! d)"
proof -
  have m: "distinct (tr_connections (sv_rooms sv ! k))"
    "set (tr_connections (sv_rooms sv ! k)) \<subseteq> {..<length (sv_chans sv)}"
    using assms by (simp_all add: srv_inv_def room_ok_def)
  have "chan_write m (sv_chans sv ! d) = sv_chans sv ! d"
    if "d \<in> set (tr_connections (sv_rooms sv ! k))" "expired sv d"
    using assms(1) m(2) that by (auto simp: srv_inv_def chans_owned_def chan_write_def)
  with broadcast_chan [OF m] show ?thesis by (simp add: broadcast_def)
qed

text \<open>With fewer than 2 to the 64 rooms an identifier names one room.\<close>

lemma room_id_inj:
  assumes "srv_inv sv" "length (sv_rooms sv) < 2 ^ 64" "j < length (sv_rooms sv)"
    "k < length (sv_rooms sv)" "tr_id (sv_rooms sv ! j) = tr_id (sv_rooms sv ! k)"
  shows "j = k"
proof -
  have "tr_id (sv_rooms sv ! j) = of_nat (j + 1)" "tr_id (sv_rooms sv ! k) = of_nat (k + 1)"
    using assms(1,3,4) by (simp_all add: srv_inv_def room_ok_def)
  with assms(5) have "unat (of_nat (j + 1) :: u64) = unat (of_nat (k + 1) :: u64)" by simp
  with assms(2-4) show ?thesis by (simp only: unat_of_nat) simp
qed

lemma try_find_room_id:
  assumes "srv_inv sv" "k < length (sv_rooms sv)" "length (sv_rooms sv) < 2 ^ 64"
  shows "try_find_room (tr_id (sv_rooms sv ! k)) sv = Some k"
proof -
  have "distinct (map (\<lambda>j. tr_id (sv_rooms sv ! j)) [0..<length (sv_rooms sv)])"
    unfolding distinct_map
    by (intro conjI inj_onI) (use room_id_inj [OF assms(1,3)] in auto)
  from find_distinct_key [OF this, of k] assms(2) show ?thesis by (simp add: try_find_room_def)
qed

end
