(* ===== verification/Server_Flow.thy ===== *)
theory Server_Flow
  imports Server_Properties
begin

text \<open>
  The order in which the members of a room get its messages, over whole runs of the server: what is
  said to a member goes through its channel without loss, doubling or reordering.
\<close>

section \<open>What is said to a channel and what is taken from it\<close>

text \<open>The text that a line of session \<open>i\<close> sends to the channel \<open>c\<close>, if it is such a request.\<close>

definition said_line :: "(ustring \<Rightarrow> ustring + json) \<Rightarrow> nat \<Rightarrow> nat \<Rightarrow> ustring \<Rightarrow> server \<Rightarrow> ustring list" where
  "said_line parse c i l sv =
     (case parse (strip_line l) of
        Inr (JObj ms) \<Rightarrow>
          (case (map_of ms (lit ''type''), parse_message ms sv) of
             (Some (JStr ty), ParsedMessage m k) \<Rightarrow>
               (case map_of (ss_subs (sv_sessions sv ! i)) k of
                  Some own \<Rightarrow>
                    if strip_line l \<noteq> [] \<and> takeWhile (\<lambda>c. c \<noteq> 0) ty = lit ''msg'' \<and>
                       c \<in> set (tr_connections (sv_rooms sv ! k)) - {own}
                    then [m] else []
                | None \<Rightarrow> [])
           | _ \<Rightarrow> [])
      | _ \<Rightarrow> [])"

fun said :: "(ustring \<Rightarrow> ustring + json) \<Rightarrow> nat \<Rightarrow> srv_label \<Rightarrow> server \<Rightarrow> ustring list" where
  "said parse c (Line i l) sv = said_line parse c i l sv"
| "said parse c _ sv = []"

fun taken :: "nat \<Rightarrow> srv_label \<Rightarrow> server \<Rightarrow> ustring list" where
  "taken c (Forward i d) sv = (if d = c then take 1 (sc_queue (sv_chans sv ! c)) else [])"
| "taken c _ sv = []"

text \<open>What a function of the steps collects over a run.\<close>

fun along :: "(srv_label \<Rightarrow> server \<Rightarrow> server option) \<Rightarrow> (srv_label \<Rightarrow> server \<Rightarrow> 'a list) \<Rightarrow>
    srv_label list \<Rightarrow> server \<Rightarrow> 'a list" where
  "along ex f [] sv = []"
| "along ex f (l # ls) sv = f l sv @ (case ex l sv of None \<Rightarrow> [] | Some sv' \<Rightarrow> along ex f ls sv')"

section \<open>One step\<close>

text \<open>A step that writes \<open>ms\<close> to the channel \<open>c\<close> and does nothing else to it, unless it closes it.\<close>

definition puts :: "nat \<Rightarrow> ustring list \<Rightarrow> server \<Rightarrow> server \<Rightarrow> bool" where
  "puts c ms sv sv' \<longleftrightarrow>
     c < length (sv_chans sv') \<and>
     (sc_closed (sv_chans sv ! c) \<longrightarrow> sc_closed (sv_chans sv' ! c)) \<and>
     (\<not> sc_closed (sv_chans sv' ! c) \<longrightarrow> sv_chans sv' ! c = fold chan_write ms (sv_chans sv ! c))"

lemma reply_chans [simp]: "sv_chans (reply i m sv) = sv_chans sv"
  by (simp add: reply_def set_session_def Let_def)

lemma set_session_chans [simp]: "sv_chans (set_session i s sv) = sv_chans sv"
  by (simp add: set_session_def)

lemma puts_same: "c < length (sv_chans sv) \<Longrightarrow> sv_chans sv' = sv_chans sv \<Longrightarrow> puts c [] sv sv'"
  by (simp add: puts_def)

lemma sub_to_room_chans: "sub_to_room k sv = (d, sv') \<Longrightarrow> sv_chans sv' = sv_chans sv @ [new_chan]"
  by (auto simp: sub_to_room_def Let_def)

lemma puts_new: "c < length (sv_chans sv) \<Longrightarrow> sv_chans sv' = sv_chans sv @ [new_chan] \<Longrightarrow> puts c [] sv sv'"
  by (simp add: puts_def nth_append)

lemma puts_end_session: "c < length (sv_chans sv) \<Longrightarrow> puts c [] sv (end_session i sv)"
  by (simp add: puts_def end_session_def Let_def length_close_all close_all_nth)

lemma puts_joined:
  assumes "c < length (sv_chans sv)"
  shows "puts c [] sv (joined i (handle_sub data subs sv) sv)"
proof (cases "handle_sub data subs sv")
  case (Inl e)
  with assms show ?thesis by (simp add: joined_def puts_same)
next
  case (Inr r)
  obtain d k sv' where "r = (d, k, sv')" by (cases r)
  with Inr handle_sub_Inr sub_to_room_chans assms show ?thesis by (force simp: joined_def intro: puts_new)
qed

lemma puts_created:
  "c < length (sv_chans sv) \<Longrightarrow> puts c [] sv (created i (handle_create_and_sub data sv) sv)"
  by (auto simp: created_def add_room_def intro!: puts_same dest!: handle_create_Inr split: sum.split)

lemma puts_broadcast:
  assumes "srv_inv sv" "k < length (sv_rooms sv)" "c < length (sv_chans sv)"
  shows "puts c (if c \<in> set (tr_connections (sv_rooms sv ! k)) - {own} then [m] else []) sv
    (broadcast m k own sv)"
  using broadcast_spec [OF assms(1,2), of m own c] assms(3)
  by (simp add: puts_def)

lemma parse_message_room:
  "parse_message data sv = ParsedMessage m k \<Longrightarrow> k < length (sv_rooms sv)"
  using find_index_Some [of "\<lambda>k. tr_id (sv_rooms sv ! k) = _" "length (sv_rooms sv)" k]
  by (simp add: parse_message_def try_find_room_def split: option.splits json.splits)

lemma puts_handle_msg:
  assumes "srv_inv sv" "c < length (sv_chans sv)"
  shows "puts c (case parse_message data sv of
      ParsedMessage m k \<Rightarrow>
        (case map_of (ss_subs (sv_sessions sv ! i)) k of
           Some own \<Rightarrow> if c \<in> set (tr_connections (sv_rooms sv ! k)) - {own} then [m] else []
         | None \<Rightarrow> [])
    | _ \<Rightarrow> []) sv (handle_msg i data sv)"
proof (cases "parse_message data sv")
  case (ParsedMessage m k)
  note b = puts_broadcast [OF assms(1) parse_message_room [OF ParsedMessage] assms(2)]
  from assms(2) ParsedMessage show ?thesis
    by (cases "map_of (ss_subs (sv_sessions sv ! i)) k")
      (simp_all add: handle_msg_def puts_same b del: Diff_iff)
qed (use assms(2) in \<open>simp_all add: handle_msg_def puts_same puts_end_session\<close>)

lemma puts_line:
  assumes "srv_inv sv" "c < length (sv_chans sv)"
  shows "puts c (said_line parse c i l sv) sv (handle_line parse i l sv)"
proof (cases "\<exists>ms ty. strip_line l \<noteq> [] \<and> parse (strip_line l) = Inr (JObj ms) \<and>
    map_of ms (lit ''type'') = Some (JStr ty) \<and> takeWhile (\<lambda>c. c \<noteq> 0) ty = lit ''msg''")
  case True
  then obtain ms ty where l: "strip_line l \<noteq> []" "parse (strip_line l) = Inr (JObj ms)"
    "map_of ms (lit ''type'') = Some (JStr ty)" "takeWhile (\<lambda>c. c \<noteq> 0) ty = lit ''msg''" by blast
  then have "handle_line parse i l sv = handle_msg i ms sv"
    by (simp add: handle_line_def dispatch_def lit_def)
  moreover have "said_line parse c i l sv = (case parse_message ms sv of
      ParsedMessage m k \<Rightarrow>
        (case map_of (ss_subs (sv_sessions sv ! i)) k of
           Some own \<Rightarrow> if c \<in> set (tr_connections (sv_rooms sv ! k)) - {own} then [m] else []
         | None \<Rightarrow> [])
    | _ \<Rightarrow> [])"
    using l by (auto simp: said_line_def split: message_result.split option.split)
  ultimately show ?thesis using puts_handle_msg [OF assms, of i ms] by simp
next
  case False
  then have "said_line parse c i l sv = []"
    by (auto simp: said_line_def split: sum.split json.split option.split message_result.split)
  moreover have "puts c [] sv (dispatch i ms sv)"
    if "strip_line l \<noteq> []" "parse (strip_line l) = Inr (JObj ms)" for ms
    using False that assms(2)
    by (auto simp: dispatch_def Let_def puts_same puts_end_session puts_joined puts_created
        split: option.split json.split)
  ultimately show ?thesis using assms(2)
    by (simp add: handle_line_def Let_def puts_same split: sum.split json.split)
qed

text \<open>Every step: what was in the channel and is said to it is what is taken and what is in it then.\<close>

definition flows :: "nat \<Rightarrow> ustring list \<Rightarrow> ustring list \<Rightarrow> server \<Rightarrow> server \<Rightarrow> bool" where
  "flows c ms out sv sv' \<longleftrightarrow>
     c < length (sv_chans sv') \<and>
     (sc_closed (sv_chans sv ! c) \<longrightarrow> sc_closed (sv_chans sv' ! c)) \<and>
     (\<not> sc_closed (sv_chans sv' ! c) \<longrightarrow>
        sc_queue (sv_chans sv ! c) @ ms = out @ sc_queue (sv_chans sv' ! c))"

lemma fold_write_queue: "\<not> sc_closed ch \<Longrightarrow> sc_queue (fold chan_write ms ch) = sc_queue ch @ ms"
  by (induction ms arbitrary: ch) simp_all

lemma puts_flows: "puts c ms sv sv' \<Longrightarrow> flows c ms [] sv sv'"
  by (auto simp: puts_def flows_def fold_write_queue)

lemma flows_trans:
  "flows c ms out sv sv1 \<Longrightarrow> flows c ms' out' sv1 sv2 \<Longrightarrow> flows c (ms @ ms') (out @ out') sv sv2"
  by (auto simp: flows_def) (metis append.assoc)

lemma forward_flows:
  assumes "forward pr i c sv = Some sv'" "c < length (sv_chans sv)"
  shows "flows c [] (taken c (Forward i c) sv) sv sv'"
  using assms
  by (auto simp: forward_def chan_read_got flows_def split: option.splits chan_read.splits)

lemma listener_waits_flows:
  assumes "listener_waits i c sv = Some sv'" "c < length (sv_chans sv)"
  shows "flows c [] [] sv sv'"
  using assms
  by (auto simp: listener_waits_def flows_def dest!: chan_read_waits split: option.splits chan_read.splits)

lemma other_puts:
  assumes "forward pr i d sv = Some sv' \<or> listener_waits i d sv = Some sv'" "c < length (sv_chans sv)" "d \<noteq> c"
  shows "puts c [] sv sv'"
  using assms by (auto simp: forward_def listener_waits_def puts_def split: option.splits chan_read.splits)

lemma enroll_chans: "enroll i sv = Some sv' \<Longrightarrow> sv_chans sv' = sv_chans sv @ [new_chan]"
  by (auto simp: enroll_def sub_to_room_def Let_def split: session_pc.splits)

lemma srv_exec_puts:
  assumes "srv_inv sv" "c < length (sv_chans sv)" "srv_exec pr parse l sv = Some sv'"
    "\<And>i. l \<noteq> Forward i c \<and> l \<noteq> ListenerWaits i c"
  shows "puts c (said parse c l sv) sv sv'"
proof (cases l)
  case (Line i t)
  with assms(3) puts_line [OF assms(1,2)] show ?thesis by (auto split: if_splits)
next
  case (Hangup i)
  with assms(2,3) puts_end_session show ?thesis by (auto split: if_splits)
next
  case (Enroll i)
  with assms(2,3) puts_new enroll_chans show ?thesis by (force split: if_splits)
next
  case (Forward i d)
  with assms(2-4) other_puts [of pr i d sv sv' c] show ?thesis by (simp split: if_splits)
next
  case (ListenerWaits i d)
  with assms(2-4) other_puts [of _ i d sv sv' c] show ?thesis by (simp split: if_splits)
qed (use assms(2,3) in \<open>auto simp: spawn_listener_def confirm_def leave_room_def write_out_def writer_waits_def
    writer_ends_def Let_def intro!: puts_same split: if_splits session_pc.splits chan_read.splits\<close>)

lemma srv_exec_flows:
  assumes "srv_inv sv" "c < length (sv_chans sv)" "srv_exec pr parse l sv = Some sv'"
  shows "flows c (said parse c l sv) (taken c l sv) sv sv'"
proof (cases "\<exists>i. l = Forward i c \<or> l = ListenerWaits i c")
  case True
  then obtain i where "l = Forward i c \<or> l = ListenerWaits i c" by blast
  with assms(2,3) forward_flows [of pr i c sv sv'] listener_waits_flows [of i c sv sv'] show ?thesis
    by (auto split: if_splits)
next
  case False
  moreover from False have "taken c l sv = []" by (cases "(c, l, sv)" rule: taken.cases) auto
  ultimately show ?thesis using puts_flows [OF srv_exec_puts [OF assms]] by simp
qed

text \<open>
  A reader that is asleep wakes only when its channel is written to or closed: any other step of
  any process leaves the channel as it is.
\<close>

lemma asleep_stays:
  assumes "srv_inv sv" "c < length (sv_chans sv)" "srv_exec pr parse l sv = Some sv'"
    "sc_reader (sv_chans sv ! c) = Asleep" "said parse c l sv = []" "\<not> sc_closed (sv_chans sv' ! c)"
  shows "sv_chans sv' ! c = sv_chans sv ! c"
proof -
  have "chan_read (sv_chans sv ! c) = ReadAsleep" using assms(4) by (simp add: chan_read_def)
  with assms(3) have "l \<noteq> Forward i c \<and> l \<noteq> ListenerWaits i c" for i
    by (auto simp: forward_def listener_waits_def split: option.splits if_splits)
  from srv_exec_puts [OF assms(1-3) this] assms(5,6) show ?thesis by (simp add: puts_def)
qed

end
