(* ===== verification/Server_Guarantees.thy ===== *)
theory Server_Guarantees
  imports Server_Flow Client_Hazards Conn_Exec
begin

text \<open>
  The client and the server together: what a command of the client does on the server, what the
  client reads of the answer, and who gets a message.
\<close>

section \<open>What the client reads of the server's lines\<close>

text \<open>A parser that reads back what the printer printed, with the newline that ends the line.\<close>

definition reads_back :: "(json \<Rightarrow> ustring) \<Rightarrow> (ustring \<Rightarrow> json option) \<Rightarrow> json \<Rightarrow> bool" where
  "reads_back pr parse v \<longleftrightarrow> trim (pr v @ [10]) \<noteq> [] \<and> parse (trim (pr v @ [10])) = Some v"

lemma reads_confirmation:
  assumes "reads_back pr parse ((if b then csub_ok_json else sub_ok_json) rid name)"
  shows "handle_read parse (ReadLine (pr ((if b then csub_ok_json else sub_ok_json) rid name) @ [10])) =
    ([FS_RoomConfirmed rid name b], True)"
  using assms
  by (cases b) (simp_all add: reads_back_def from_str_def sub_ok_json_def csub_ok_json_def
      build_incoming_def incoming_fields_def classify_server_message_def)

lemma reads_relay:
  assumes "reads_back pr parse (relay_json m name)"
  shows "handle_read parse (ReadLine (pr (relay_json m name) @ [10])) = ([FS_Message name m], True)"
  using assms
  by (simp add: reads_back_def from_str_def relay_json_def build_incoming_def incoming_fields_def
      classify_server_message_def)

section \<open>What the server makes of the client's commands\<close>

text \<open>The server reads the command the client printed, from a line that is not blank.\<close>

definition takes :: "(ustring \<Rightarrow> ustring + json) \<Rightarrow> ustring \<Rightarrow> to_server \<Rightarrow> bool" where
  "takes parse l c \<longleftrightarrow> strip_line l \<noteq> [] \<and> parse (strip_line l) = Inr (command_json c)"

lemma handle_line_command:
  assumes "takes parse l c"
  shows "handle_line parse i l sv =
    (case c of
       Subscribe rid \<Rightarrow> joined i
         (handle_sub [(lit ''grp'', JNum (PosInt rid)), (lit ''type'', JStr (lit ''sub''))]
            (ss_subs (sv_sessions sv ! i)) sv) sv
     | CreateAndSubscribe name \<Rightarrow> created i
         (handle_create_and_sub [(lit ''grp_name'', JStr name), (lit ''type'', JStr (lit ''csub''))] sv) sv
     | SendMessage rid m \<Rightarrow> handle_msg i
         [(lit ''grp'', JNum (PosInt rid)), (lit ''msg'', JStr m), (lit ''type'', JStr (lit ''msg''))] sv
     | Disconnect \<Rightarrow> end_session i sv)"
proof -
  have t: "takeWhile ((<) 0) (lit w) = lit w" if "w \<in> {''sub'', ''csub'', ''msg'', ''desub''}" for w
    using that by (auto simp: lit_def)
  show ?thesis
    using assms by (cases c) (simp_all add: takes_def handle_line_def dispatch_def Let_def t)
qed

section \<open>An example server\<close>

text \<open>
  A server and a client that print compact JSON and whose parser knows a few lines: enough to run
  two clients in one room.
\<close>

definition example_values :: "json list" where
  "example_values =
     map command_json [CreateAndSubscribe (lit ''a''), Subscribe 1, SendMessage 1 (lit ''hi'')] @
     [csub_ok_json 1 (lit ''a''), sub_ok_json 1 (lit ''a''), relay_json (lit ''hi'') (lit ''a'')]"

definition example_reader :: "ustring \<Rightarrow> json option" where
  "example_reader t = find (\<lambda>v. compact_json v = t) example_values"

definition example_parse :: "ustring \<Rightarrow> ustring + json" where
  "example_parse t =
     (case example_reader t of Some v \<Rightarrow> Inr v | None \<Rightarrow> Inl (lit ''syntax error''))"

definition example_line :: "to_server \<Rightarrow> ustring" where
  "example_line c = compact_json (command_json c) @ [10]"

definition serve :: "srv_label list \<Rightarrow> server option" where
  "serve ls = run_schedule (srv_exec compact_json example_parse) ls init_server"

definition create_a :: "nat \<Rightarrow> srv_label list" where
  "create_a i = [Line i (example_line (CreateAndSubscribe (lit ''a''))), Enroll i, SpawnListener i, Confirm i]"

definition join_a :: "nat \<Rightarrow> srv_label list" where
  "join_a i = [Line i (example_line (Subscribe 1)), SpawnListener i, Confirm i]"

definition two_members :: "srv_label list" where
  "two_members = [Accept, Accept] @ create_a 0 @ join_a 1"

lemma srv_reachable_run:
  "run_schedule (srv_exec pr parse) ls sv = Some sv' \<Longrightarrow> srv_reachable pr parse sv \<Longrightarrow>
   srv_reachable pr parse sv'"
  by (induction ls arbitrary: sv) (auto simp: Option.bind_eq_Some_conv intro: srv_reachable.step)

lemma one_room: "n = 1 \<Longrightarrow> n < (2::nat) ^ 64"
  by simp

lemma serve_reachable:
  "\<not> Option.is_none (serve ls) \<Longrightarrow> srv_reachable compact_json example_parse (the (serve ls))"
  using srv_reachable_run [OF _ srv_reachable.start, of compact_json example_parse ls]
  by (cases "serve ls") (auto simp: serve_def)

section \<open>Joining a room\<close>

lemma owned_rooms:
  assumes "srv_inv sv" "i < length (sv_sessions sv)" "(k, c) \<in> set (ss_subs (sv_sessions sv ! i))"
  shows "k < length (sv_rooms sv)" "c \<in> set (tr_connections (sv_rooms sv ! k))"
  using assms by (force simp: srv_inv_def owned_ok_def owned_def)+

text \<open>The listener is spawned and the room is confirmed after the join.\<close>

lemma confirm_steps:
  assumes "i < length (sv_sessions sv)" "ss_pc (sv_sessions sv ! i) = Joined c k b"
    "\<not> sc_closed (ss_out (sv_sessions sv ! i))" "k \<notin> fst ` set (ss_subs (sv_sessions sv ! i))"
  shows "\<exists>sv'. run_schedule (srv_exec pr parse) [SpawnListener i, Confirm i] sv = Some sv'
    \<and> sv_rooms sv' = sv_rooms sv \<and> ss_pc (sv_sessions sv' ! i) = Reading
    \<and> ss_subs (sv_sessions sv' ! i) = ss_subs (sv_sessions sv ! i) @ [(k, c)]
    \<and> sc_queue (ss_out (sv_sessions sv' ! i)) = sc_queue (ss_out (sv_sessions sv ! i)) @
        [pr ((if b then csub_ok_json else sub_ok_json) (tr_id (sv_rooms sv ! k))
               (tr_name (sv_rooms sv ! k))) @ [10]]"
  using assms
  by (simp add: spawn_listener_def confirm_def reply_def set_session_def Let_def)

text \<open>The join itself, in the session that asked for it.\<close>

lemma sub_to_room_steps:
  assumes "i < length (sv_sessions sv)" "\<not> sc_closed (ss_out (sv_sessions sv ! i))"
    "k \<notin> fst ` set (ss_subs (sv_sessions sv ! i))" "sub_to_room k sv = (c, sv2)"
    "k < length (sv_rooms sv)"
    "sv3 = set_session i ((sv_sessions sv2 ! i)\<lparr>ss_pc := Joined c k b\<rparr>) sv2"
  shows "\<exists>sv'. run_schedule (srv_exec pr parse) [SpawnListener i, Confirm i] sv3 = Some sv'
    \<and> sv_rooms sv' = sv_rooms sv2 \<and> ss_pc (sv_sessions sv' ! i) = Reading
    \<and> ss_subs (sv_sessions sv' ! i) = ss_subs (sv_sessions sv ! i) @ [(k, c)]
    \<and> sc_queue (ss_out (sv_sessions sv' ! i)) = sc_queue (ss_out (sv_sessions sv ! i)) @
        [pr ((if b then csub_ok_json else sub_ok_json) (tr_id (sv_rooms sv ! k))
               (tr_name (sv_rooms sv ! k))) @ [10]]"
proof -
  have s2: "sv_sessions sv2 = sv_sessions sv" "tr_id (sv_rooms sv2 ! k) = tr_id (sv_rooms sv ! k)"
    "tr_name (sv_rooms sv2 ! k) = tr_name (sv_rooms sv ! k)"
    using assms(4,5) by (auto simp: sub_to_room_def Let_def)
  from confirm_steps [of i sv3 c k b pr parse] assms(1-3,6) show ?thesis
    by (simp add: set_session_def s2 del: run_schedule.simps)
qed

text \<open>C13: Creating a room works end to end: a line that the server's parser reads as the command's JSON makes the server add one room of that name, with the next number as identifier and the session as its only member, and queue one more line for the client, which the client reads as the confirmation of a created room with exactly that identifier and name.\<close>

theorem create_handshake:
  assumes "srv_reachable pr parse sv" "i < length (sv_sessions sv)"
    "ss_pc (sv_sessions sv ! i) = Reading" "\<not> sc_closed (ss_out (sv_sessions sv ! i))"
    and "takes parse l (CreateAndSubscribe name)" "n = length (sv_rooms sv)"
    and "reads_back pr cparse (csub_ok_json (of_nat (n + 1)) name)"
  shows "\<exists>sv' line. run_schedule (srv_exec pr parse) [Line i l, Enroll i, SpawnListener i, Confirm i] sv = Some sv'
    \<and> sv_rooms sv' = sv_rooms sv @ [\<lparr>tr_name = name, tr_connections = [length (sv_chans sv)],
        tr_id = of_nat (n + 1)\<rparr>]
    \<and> ss_subs (sv_sessions sv' ! i) = ss_subs (sv_sessions sv ! i) @ [(n, length (sv_chans sv))]
    \<and> sc_queue (ss_out (sv_sessions sv' ! i)) = sc_queue (ss_out (sv_sessions sv ! i)) @ [line]
    \<and> handle_read cparse (ReadLine line) = ([FS_RoomConfirmed (of_nat (n + 1)) name True], True)"
proof -
  let ?sv1 = "set_session i ((sv_sessions sv ! i)\<lparr>ss_pc := Creating n\<rparr>) (add_room name sv)"
  obtain c sv2 where join: "sub_to_room n ?sv1 = (c, sv2)" by fastforce
  have line: "handle_line parse i l sv = ?sv1"
    using handle_line_command [OF assms(5)] assms(6)
    by (simp add: handle_create_and_sub_def created_def add_room_def)
  have s1: "tr_id (sv_rooms ?sv1 ! n) = of_nat (n + 1)" "tr_name (sv_rooms ?sv1 ! n) = name"
    "ss_subs (sv_sessions ?sv1 ! i) = ss_subs (sv_sessions sv ! i)"
    "ss_out (sv_sessions ?sv1 ! i) = ss_out (sv_sessions sv ! i)" "ss_pc (sv_sessions ?sv1 ! i) = Creating n"
    "length (sv_sessions ?sv1) = length (sv_sessions sv)" "n < length (sv_rooms ?sv1)"
    "sv_sessions sv2 = sv_sessions ?sv1" "c = length (sv_chans sv)" "sv_rooms sv2 = sv_rooms sv @
       [\<lparr>tr_name = name, tr_connections = [length (sv_chans sv)], tr_id = of_nat (n + 1)\<rparr>]"
    using assms(2,6) join by (auto simp: add_room_def sub_to_room_def set_session_def Let_def)
  let ?sv3 = "set_session i ((sv_sessions sv2 ! i)\<lparr>ss_pc := Joined c n True\<rparr>) sv2"
  have fresh: "n \<notin> fst ` set (ss_subs (sv_sessions ?sv1 ! i))"
    using owned_rooms(1) [OF srv_reachable_inv [OF assms(1)] assms(2)] assms(6) unfolding s1(3) by fastforce
  have first: "run_schedule (srv_exec pr parse) (Line i l # Enroll i # ls) sv =
      run_schedule (srv_exec pr parse) ls ?sv3" for ls
    using assms(2,3) s1(5,6) line by (simp add: enroll_def join)
  have read: "handle_read cparse (ReadLine (pr (csub_ok_json (of_nat (n + 1)) name) @ [10])) =
      ([FS_RoomConfirmed (of_nat (n + 1)) name True], True)"
    using reads_confirmation [of pr cparse True "of_nat (n + 1)" name] assms(7) by (simp only: if_True)
  have "i < length (sv_sessions ?sv1)" "\<not> sc_closed (ss_out (sv_sessions ?sv1 ! i))"
    using assms(2,4) s1(4,6) by simp_all
  from sub_to_room_steps [OF this fresh join s1(7) refl, of pr parse True] read
  show ?thesis unfolding first s1(1-4,9,10) if_True by blast
qed

theorem create_handshake_witness:
  "\<exists>sv' line. run_schedule (srv_exec compact_json example_parse)
      (create_a 0) (the (serve [Accept])) = Some sv'
    \<and> handle_read example_reader (ReadLine line) = ([FS_RoomConfirmed 1 (lit ''a'') True], True)"
proof -
  have reach: "srv_reachable compact_json example_parse (the (serve [Accept]))"
    by (rule serve_reachable) code_simp
  have h: "0 < length (sv_sessions (the (serve [Accept])))"
    "ss_pc (sv_sessions (the (serve [Accept])) ! 0) = Reading"
    "\<not> sc_closed (ss_out (sv_sessions (the (serve [Accept])) ! 0))"
    "takes example_parse (example_line (CreateAndSubscribe (lit ''a''))) (CreateAndSubscribe (lit ''a''))"
    "0 = length (sv_rooms (the (serve [Accept])))"
    "reads_back compact_json example_reader (csub_ok_json (of_nat (0 + 1)) (lit ''a''))"
    by code_simp+
  have "of_nat (0 + 1) = (1 :: u64)" by simp
  from create_handshake [OF reach h, unfolded this, folded create_a_def]
  show ?thesis by blast
qed

text \<open>C14: Subscribing works end to end: for a room that exists and that the session has not joined, a line that the server's parser reads as the command's JSON makes the server add one member to the room and queue one more line, which the client reads as the confirmation of a subscription with the room's identifier and name.\<close>

theorem subscribe_handshake:
  assumes "srv_reachable pr parse sv" "i < length (sv_sessions sv)"
    "ss_pc (sv_sessions sv ! i) = Reading" "\<not> sc_closed (ss_out (sv_sessions sv ! i))"
    and "length (sv_rooms sv) < 2 ^ 64" "k < length (sv_rooms sv)" "room = sv_rooms sv ! k"
    and "k \<notin> fst ` set (ss_subs (sv_sessions sv ! i))" "takes parse l (Subscribe (tr_id room))"
    and "reads_back pr cparse (sub_ok_json (tr_id room) (tr_name room))"
  shows "\<exists>sv' line. run_schedule (srv_exec pr parse) [Line i l, SpawnListener i, Confirm i] sv = Some sv'
    \<and> sv_rooms sv' = (sv_rooms sv)[k := room\<lparr>tr_connections := tr_connections room @ [length (sv_chans sv)]\<rparr>]
    \<and> ss_subs (sv_sessions sv' ! i) = ss_subs (sv_sessions sv ! i) @ [(k, length (sv_chans sv))]
    \<and> sc_queue (ss_out (sv_sessions sv' ! i)) = sc_queue (ss_out (sv_sessions sv ! i)) @ [line]
    \<and> handle_read cparse (ReadLine line) = ([FS_RoomConfirmed (tr_id room) (tr_name room) False], True)"
proof -
  note inv = srv_reachable_inv [OF assms(1)]
  obtain c sv2 where join: "sub_to_room k sv = (c, sv2)" by fastforce
  have "\<not> list_ex (\<lambda>(j, c). tr_id (sv_rooms sv ! j) = tr_id room) (ss_subs (sv_sessions sv ! i))"
  proof
    assume "list_ex (\<lambda>(j, c). tr_id (sv_rooms sv ! j) = tr_id room) (ss_subs (sv_sessions sv ! i))"
    then obtain j d where j: "(j, d) \<in> set (ss_subs (sv_sessions sv ! i))"
        "tr_id (sv_rooms sv ! j) = tr_id room" by (auto simp: list_ex_iff)
    with room_id_inj [OF inv assms(5) owned_rooms(1) [OF inv assms(2) j(1)] assms(6)] assms(7,8)
    show False by force
  qed
  then have line: "handle_line parse i l sv = joined i (Inr (c, k, sv2)) sv"
    using handle_line_command [OF assms(9)] join try_find_room_id [OF inv assms(6,5)] assms(7)
    by (simp add: handle_sub_def parse_id_def)
  have s2: "c = length (sv_chans sv)" "sv_rooms sv2 = (sv_rooms sv)[k := room\<lparr>tr_connections :=
      tr_connections room @ [length (sv_chans sv)]\<rparr>]"
    using join assms(7) by (auto simp: sub_to_room_def Let_def)
  let ?sv3 = "set_session i ((sv_sessions sv2 ! i)\<lparr>ss_pc := Joined c k False\<rparr>) sv2"
  have first: "run_schedule (srv_exec pr parse) (Line i l # ls) sv =
      run_schedule (srv_exec pr parse) ls ?sv3" for ls
    using assms(2,3) line by (simp add: joined_def)
  have read: "handle_read cparse (ReadLine (pr (sub_ok_json (tr_id room) (tr_name room)) @ [10])) =
      ([FS_RoomConfirmed (tr_id room) (tr_name room) False], True)"
    using reads_confirmation [of pr cparse False "tr_id room" "tr_name room"] assms(10)
    by (simp only: if_False)
  from sub_to_room_steps [OF assms(2,4,8) join assms(6) refl, of pr parse False] read
  show ?thesis unfolding first s2 if_False assms(7) [symmetric] by blast
qed

theorem subscribe_handshake_witness:
  "\<exists>sv' line. run_schedule (srv_exec compact_json example_parse)
      (join_a 1)
      (the (serve ([Accept, Accept] @ create_a 0))) = Some sv'
    \<and> handle_read example_reader (ReadLine line) = ([FS_RoomConfirmed 1 (lit ''a'') False], True)"
proof -
  let ?ls = "[Accept, Accept] @ create_a 0"
  let ?room = "\<lparr>tr_name = lit ''a'', tr_connections = [0], tr_id = 1\<rparr>"
  have reach: "srv_reachable compact_json example_parse (the (serve ?ls))"
    by (rule serve_reachable) code_simp
  have h: "1 < length (sv_sessions (the (serve ?ls)))"
    "ss_pc (sv_sessions (the (serve ?ls)) ! 1) = Reading"
    "\<not> sc_closed (ss_out (sv_sessions (the (serve ?ls)) ! 1))"
    "length (sv_rooms (the (serve ?ls))) = 1" "0 < length (sv_rooms (the (serve ?ls)))"
    "?room = sv_rooms (the (serve ?ls)) ! 0"
    "0 \<notin> fst ` set (ss_subs (sv_sessions (the (serve ?ls)) ! 1))"
    "takes example_parse (example_line (Subscribe 1)) (Subscribe (tr_id ?room))"
    "reads_back compact_json example_reader (sub_ok_json (tr_id ?room) (tr_name ?room))"
    by code_simp+
  have "tr_id ?room = 1" "tr_name ?room = lit ''a''" by simp_all
  from subscribe_handshake [OF reach h(1-3) one_room [OF h(4)] h(5-), unfolded this, folded join_a_def]
  show ?thesis by blast
qed

section \<open>Messages\<close>

lemma handle_msg_subscribed:
  assumes "srv_inv sv" "length (sv_rooms sv) < 2 ^ 64" "k < length (sv_rooms sv)"
    "map_of (ss_subs (sv_sessions sv ! i)) k = Some own" "takes parse l (SendMessage (tr_id (sv_rooms sv ! k)) m)"
  shows "handle_line parse i l sv = broadcast m k own sv"
  using handle_line_command [OF assms(5)] try_find_room_id [OF assms(1,3,2)] assms(4)
  by (simp add: handle_msg_def parse_message_def parse_id_def)

text \<open>C17: A message goes to everyone in its room but its sender: in every reachable state of the server, the line of a session that has joined the room through the channel own puts the text at the end of every other open channel of that room, once, and changes no other channel, no room and no session; in particular the sender gets neither an echo nor a confirmation.\<close>

theorem message_broadcast:
  assumes "srv_reachable pr parse sv" "length (sv_rooms sv) < 2 ^ 64" "i < length (sv_sessions sv)"
    "ss_pc (sv_sessions sv ! i) = Reading" "map_of (ss_subs (sv_sessions sv ! i)) k = Some own"
    and "takes parse l (SendMessage (tr_id (sv_rooms sv ! k)) m)"
  shows "\<exists>sv'. srv_exec pr parse (Line i l) sv = Some sv'
    \<and> sv_rooms sv' = sv_rooms sv \<and> sv_sessions sv' = sv_sessions sv
    \<and> (\<forall>d. sv_chans sv' ! d =
         (if d \<in> set (tr_connections (sv_rooms sv ! k)) - {own} then chan_write m (sv_chans sv ! d)
          else sv_chans sv ! d))"
proof -
  note inv = srv_reachable_inv [OF assms(1)]
  have k: "k < length (sv_rooms sv)" by (rule owned_rooms(1) [OF inv assms(3) map_of_SomeD [OF assms(5)]])
  show ?thesis
    using assms(3,4) handle_msg_subscribed [OF inv assms(2) k assms(5,6)] broadcast_spec [OF inv k, of m own]
    by simp
qed

theorem message_broadcast_witness:
  "\<exists>sv'. srv_exec compact_json example_parse (Line 0 (example_line (SendMessage 1 (lit ''hi''))))
      (the (serve two_members)) = Some sv'
    \<and> sv_chans sv' ! 1 = chan_write (lit ''hi'') (sv_chans (the (serve two_members)) ! 1)
    \<and> sv_chans sv' ! 0 = sv_chans (the (serve two_members)) ! 0"
proof -
  let ?sv = "the (serve two_members)"
  have reach: "srv_reachable compact_json example_parse ?sv"
    by (rule serve_reachable) code_simp
  have conn: "1 \<in> set (tr_connections (sv_rooms ?sv ! 0)) - {0}"
    "length (sv_rooms ?sv) = 1" "0 < length (sv_sessions ?sv)"
    "ss_pc (sv_sessions ?sv ! 0) = Reading" "map_of (ss_subs (sv_sessions ?sv ! 0)) 0 = Some 0"
    "takes example_parse (example_line (SendMessage 1 (lit ''hi'')))
       (SendMessage (tr_id (sv_rooms ?sv ! 0)) (lit ''hi''))"
    by code_simp+
  from message_broadcast [OF reach one_room [OF conn(2)] conn(3-6)] obtain sv' where
    "srv_exec compact_json example_parse (Line 0 (example_line (SendMessage 1 (lit ''hi'')))) ?sv = Some sv'"
    "\<forall>d. sv_chans sv' ! d = (if d \<in> set (tr_connections (sv_rooms ?sv ! 0)) - {0}
       then chan_write (lit ''hi'') (sv_chans ?sv ! d) else sv_chans ?sv ! d)" by blast
  with conn(1) show ?thesis by (intro exI [of _ sv']) simp
qed

text \<open>The line of one session and one turn of the listener of another.\<close>

lemma delivery_steps:
  assumes "srv_inv sv" "length (sv_rooms sv) < 2 ^ 64"
    and "i < length (sv_sessions sv)" "ss_pc (sv_sessions sv ! i) = Reading"
    and "map_of (ss_subs (sv_sessions sv ! i)) k = Some own"
    and "takes parse l (SendMessage (tr_id (sv_rooms sv ! k)) m)"
    and "j < length (sv_sessions sv)" "map_of (ss_listeners (sv_sessions sv ! j)) c = Some k"
    and "c \<in> set (tr_connections (sv_rooms sv ! k)) - {own}"
    and "\<not> sc_closed (sv_chans sv ! c)" "sc_queue (sv_chans sv ! c) = []" "sc_reader (sv_chans sv ! c) \<noteq> Leaving"
  shows "\<exists>sv'. run_schedule (srv_exec pr parse) [Line i l, Forward j c] sv = Some sv'
    \<and> sv_rooms sv' = sv_rooms sv
    \<and> sv_sessions sv' = (sv_sessions sv)[j := (sv_sessions sv ! j)\<lparr>ss_out := chan_write
        (pr (relay_json m (tr_name (sv_rooms sv ! k))) @ [10]) (ss_out (sv_sessions sv ! j))\<rparr>]"
proof -
  have k: "k < length (sv_rooms sv)" by (rule owned_rooms(1) [OF assms(1,3) map_of_SomeD [OF assms(5)]])
  let ?sv1 = "broadcast m k own sv"
  have "sv_chans ?sv1 ! c = chan_write m (sv_chans sv ! c)"
    using broadcast_spec [OF assms(1) k, of m own c] assms(9) by simp
  moreover have "chan_read (chan_write m (sv_chans sv ! c)) =
      GotMessage m ((chan_write m (sv_chans sv ! c))\<lparr>sc_queue := []\<rparr>)"
    unfolding chan_read_got using assms(10-12) by (cases "sc_reader (sv_chans sv ! c)") simp_all
  ultimately show ?thesis
    using assms(3,4,7,8) handle_msg_subscribed [OF assms(1,2) k assms(5,6)]
    by (simp add: forward_def reply_def set_session_def Let_def)
qed

text \<open>C15: Delivery end to end: if one session has joined a room through the channel own and the listener of another one reads an open channel c of that room that is empty, then, unless that listener is just between its look at the empty queue and its wait for the timer, the line of the first session and one turn of that listener, which is woken when it is asleep, queue one more line for the second client, which that client reads as a message with the room's name and exactly the text that was sent.\<close>

theorem message_delivered:
  assumes "srv_reachable pr parse sv" "length (sv_rooms sv) < 2 ^ 64"
    and "i < length (sv_sessions sv)" "ss_pc (sv_sessions sv ! i) = Reading"
    and "map_of (ss_subs (sv_sessions sv ! i)) k = Some own"
    and "takes parse l (SendMessage (tr_id (sv_rooms sv ! k)) m)"
    and "j < length (sv_sessions sv)" "map_of (ss_listeners (sv_sessions sv ! j)) c = Some k"
    and "c \<in> set (tr_connections (sv_rooms sv ! k)) - {own}"
    and "\<not> sc_closed (sv_chans sv ! c)" "sc_queue (sv_chans sv ! c) = []" "sc_reader (sv_chans sv ! c) \<noteq> Leaving"
    and "\<not> sc_closed (ss_out (sv_sessions sv ! j))"
    and "reads_back pr cparse (relay_json m (tr_name (sv_rooms sv ! k)))"
  shows "\<exists>sv' line. run_schedule (srv_exec pr parse) [Line i l, Forward j c] sv = Some sv'
    \<and> sc_queue (ss_out (sv_sessions sv' ! j)) = sc_queue (ss_out (sv_sessions sv ! j)) @ [line]
    \<and> handle_read cparse (ReadLine line) = ([FS_Message (tr_name (sv_rooms sv ! k)) m], True)"
proof -
  from delivery_steps [OF srv_reachable_inv [OF assms(1)] assms(2-12), of pr] assms(7,13) reads_relay [OF assms(14)]
  show ?thesis by fastforce
qed

theorem message_delivered_witness:
  "\<exists>sv' line. run_schedule (srv_exec compact_json example_parse)
      [Line 0 (example_line (SendMessage 1 (lit ''hi''))), Forward 1 1] (the (serve two_members)) = Some sv'
    \<and> handle_read example_reader (ReadLine line) =
        ([FS_Message (tr_name (sv_rooms (the (serve two_members)) ! 0)) (lit ''hi'')], True)"
proof -
  let ?sv = "the (serve two_members)"
  have reach: "srv_reachable compact_json example_parse ?sv"
    by (rule serve_reachable) code_simp
  have h: "length (sv_rooms ?sv) = 1" "0 < length (sv_sessions ?sv)"
    "ss_pc (sv_sessions ?sv ! 0) = Reading" "map_of (ss_subs (sv_sessions ?sv ! 0)) 0 = Some 0"
    "takes example_parse (example_line (SendMessage 1 (lit ''hi'')))
       (SendMessage (tr_id (sv_rooms ?sv ! 0)) (lit ''hi''))"
    "1 < length (sv_sessions ?sv)" "map_of (ss_listeners (sv_sessions ?sv ! 1)) 1 = Some 0"
    "1 \<in> set (tr_connections (sv_rooms ?sv ! 0)) - {0}"
    "\<not> sc_closed (sv_chans ?sv ! 1)" "sc_queue (sv_chans ?sv ! 1) = []" "sc_reader (sv_chans ?sv ! 1) \<noteq> Leaving"
    "\<not> sc_closed (ss_out (sv_sessions ?sv ! 1))"
    "reads_back compact_json example_reader (relay_json (lit ''hi'') (tr_name (sv_rooms ?sv ! 0)))"
    by code_simp+
  from message_delivered [OF reach one_room [OF h(1)] h(2-)] show ?thesis by blast
qed

lemma run_flows:
  assumes "srv_reachable pr parse sv" "run_schedule (srv_exec pr parse) ls sv = Some sv'" "c < length (sv_chans sv)"
  shows "flows c (along (srv_exec pr parse) (said parse c) ls sv)
      (along (srv_exec pr parse) (taken c) ls sv) sv sv'"
  using assms
proof (induction ls arbitrary: sv)
  case Nil
  then show ?case by (simp add: flows_def)
next
  case (Cons l ls)
  then obtain sv1 where sv1: "srv_exec pr parse l sv = Some sv1"
    "run_schedule (srv_exec pr parse) ls sv1 = Some sv'" by (auto simp: bind_eq_Some_conv)
  note step = srv_exec_flows [OF srv_reachable_inv [OF Cons.prems(1)] Cons.prems(3) sv1(1)]
  then have "c < length (sv_chans sv1)" by (simp add: flows_def)
  from flows_trans [OF step Cons.IH [OF srv_reachable.step [OF Cons.prems(1) sv1(1)] sv1(2) this]]
  show ?case by (simp add: sv1(1))
qed

text \<open>C16: The members of a room get its messages completely and in the order in which they were sent: over every run of the server, for every channel that is open at the end, what waited in the channel before followed by what the sessions said to it during the run, in the order of the run, is what its listener took followed by what waits at the end.\<close>

theorem member_reads_in_order:
  assumes "srv_reachable pr parse sv" "run_schedule (srv_exec pr parse) ls sv = Some sv'"
    and "c < length (sv_chans sv)" "\<not> sc_closed (sv_chans sv' ! c)"
  shows "sc_queue (sv_chans sv ! c) @ along (srv_exec pr parse) (said parse c) ls sv =
    along (srv_exec pr parse) (taken c) ls sv @ sc_queue (sv_chans sv' ! c)"
  using run_flows [OF assms(1-3)] assms(4) by (simp add: flows_def)

theorem member_reads_in_order_witness:
  "sc_queue (sv_chans (the (serve two_members)) ! 1) @
     along (srv_exec compact_json example_parse) (said example_parse 1)
       [Line 0 (example_line (SendMessage 1 (lit ''hi''))), Forward 1 1] (the (serve two_members)) = [lit ''hi'']
   \<and> along (srv_exec compact_json example_parse) (taken 1)
       [Line 0 (example_line (SendMessage 1 (lit ''hi''))), Forward 1 1] (the (serve two_members)) = [lit ''hi'']"
proof -
  let ?sv = "the (serve two_members)"
  let ?ls = "[Line 0 (example_line (SendMessage 1 (lit ''hi''))), Forward 1 1]"
  let ?sv' = "the (run_schedule (srv_exec compact_json example_parse) ?ls ?sv)"
  have reach: "srv_reachable compact_json example_parse ?sv"
    by (rule serve_reachable) code_simp
  have "\<not> Option.is_none (run_schedule (srv_exec compact_json example_parse) ?ls ?sv)" by code_simp
  then have run: "run_schedule (srv_exec compact_json example_parse) ?ls ?sv = Some ?sv'"
    by (cases "run_schedule (srv_exec compact_json example_parse) ?ls ?sv") simp_all
  have h: "1 < length (sv_chans ?sv)" "\<not> sc_closed (sv_chans ?sv' ! 1)" by code_simp+
  have "sc_queue (sv_chans ?sv' ! 1) = []"
    "along (srv_exec compact_json example_parse) (taken 1) ?ls ?sv = [lit ''hi'']" by code_simp+
  with member_reads_in_order [OF reach run h] show ?thesis by (simp only: append_Nil2)
qed

section \<open>A lost wake-up\<close>

text \<open>A listener that is asleep stays asleep while nothing is said to its channel.\<close>

lemma asleep_run:
  assumes "srv_reachable pr parse sv" "run_schedule (srv_exec pr parse) ls sv = Some sv'" "c < length (sv_chans sv)"
    "sc_reader (sv_chans sv ! c) = Asleep" "along (srv_exec pr parse) (said parse c) ls sv = []"
    "\<not> sc_closed (sv_chans sv' ! c)"
  shows "sv_chans sv' ! c = sv_chans sv ! c"
  using assms
proof (induction ls arbitrary: sv)
  case (Cons l ls)
  then obtain sv1 where sv1: "srv_exec pr parse l sv = Some sv1"
    "run_schedule (srv_exec pr parse) ls sv1 = Some sv'" by (auto simp: bind_eq_Some_conv)
  note inv = srv_reachable_inv [OF Cons.prems(1)] and reach = srv_reachable.step [OF Cons.prems(1) sv1(1)]
  have c1: "c < length (sv_chans sv1)"
    using srv_exec_flows [OF inv Cons.prems(3) sv1(1)] by (simp add: flows_def)
  then have open1: "\<not> sc_closed (sv_chans sv1 ! c)"
    using run_flows [OF reach sv1(2)] Cons.prems(6) by (auto simp: flows_def)
  have quiet: "said parse c l sv = []" "along (srv_exec pr parse) (said parse c) ls sv1 = []"
    using Cons.prems(5) by (simp_all add: sv1(1))
  from asleep_stays [OF inv Cons.prems(3) sv1(1) Cons.prems(4) quiet(1) open1]
    Cons.IH [OF reach sv1(2) c1 _ quiet(2) Cons.prems(6)] Cons.prems(4) show ?case by simp
qed simp

text \<open>C32: A wake-up can be lost: if a message is written to the channel of a listener that has seen the queue empty but does not wait for the timer yet, the cancelled timer wakes nobody, and the listener falls asleep with the message in its queue; over every run in which nothing more is said to the channel and it is not closed, the message stays there and the listener takes no turn. The next message wakes it.\<close>

theorem wake_up_lost:
  assumes "srv_reachable pr parse sv" "length (sv_rooms sv) < 2 ^ 64"
    and "i < length (sv_sessions sv)" "ss_pc (sv_sessions sv ! i) = Reading"
    and "map_of (ss_subs (sv_sessions sv ! i)) k = Some own"
    and "takes parse l (SendMessage (tr_id (sv_rooms sv ! k)) m)"
    and "j < length (sv_sessions sv)" "map_of (ss_listeners (sv_sessions sv ! j)) c = Some k"
    and "c \<in> set (tr_connections (sv_rooms sv ! k)) - {own}"
    and "\<not> sc_closed (sv_chans sv ! c)" "sc_queue (sv_chans sv ! c) = []" "sc_reader (sv_chans sv ! c) = Leaving"
  shows "\<exists>sv'. run_schedule (srv_exec pr parse) [Line i l, ListenerWaits j c] sv = Some sv'
    \<and> sc_queue (sv_chans sv' ! c) = [m] \<and> sc_reader (sv_chans sv' ! c) = Asleep
    \<and> (\<forall>ls sv''. run_schedule (srv_exec pr parse) ls sv' = Some sv'' \<longrightarrow>
         along (srv_exec pr parse) (said parse c) ls sv' = [] \<longrightarrow> \<not> sc_closed (sv_chans sv'' ! c) \<longrightarrow>
         sc_queue (sv_chans sv'' ! c) = [m] \<and> srv_exec pr parse (Forward j c) sv'' = None)
    \<and> sc_reader (chan_write m' (sv_chans sv' ! c)) = Looking"
proof -
  note inv = srv_reachable_inv [OF assms(1)]
  have k: "k < length (sv_rooms sv)" by (rule owned_rooms(1) [OF inv assms(3) map_of_SomeD [OF assms(5)]])
  have c: "c < length (sv_chans sv)" using inv k assms(9) by (auto simp: srv_inv_def room_ok_def)
  let ?sv1 = "broadcast m k own sv"
  let ?ch = "(chan_write m (sv_chans sv ! c))\<lparr>sc_reader := Asleep\<rparr>"
  let ?sv' = "?sv1\<lparr>sv_chans := (sv_chans ?sv1)[c := ?ch]\<rparr>"
  have "sv_chans ?sv1 ! c = chan_write m (sv_chans sv ! c)"
    using broadcast_spec [OF inv k, of m own c] assms(9) by simp
  moreover have "chan_read (chan_write m (sv_chans sv ! c)) = ReadWaits ?ch"
    using assms(10,12) by (simp add: chan_read_def)
  ultimately have run: "run_schedule (srv_exec pr parse) [Line i l, ListenerWaits j c] sv = Some ?sv'"
    using assms(3,4,7,8) handle_msg_subscribed [OF inv assms(2) k assms(5,6)]
    by (simp add: listener_waits_def)
  have ch: "sv_chans ?sv' ! c = ?ch" "c < length (sv_chans ?sv')" using c by simp_all
  have asleep: "sc_reader (sv_chans ?sv' ! c) = Asleep" "sc_queue (sv_chans ?sv' ! c) = [m]"
    using assms(10,11) c by simp_all
  have "sc_queue (sv_chans sv'' ! c) = [m] \<and> srv_exec pr parse (Forward j c) sv'' = None"
    if "run_schedule (srv_exec pr parse) ls ?sv' = Some sv''"
      "along (srv_exec pr parse) (said parse c) ls ?sv' = []" "\<not> sc_closed (sv_chans sv'' ! c)" for ls sv''
    using asleep_run [OF srv_reachable_run [OF run assms(1)] that(1) ch(2) asleep(1) that(2,3)] asleep
    by (simp add: forward_def chan_read_def split: option.split)
  moreover have "sc_reader (chan_write m' (sv_chans ?sv' ! c)) = Looking"
    using assms(10) c by simp
  ultimately show ?thesis using run asleep by blast
qed

theorem wake_up_lost_witness:
  "\<exists>sv'. run_schedule (srv_exec compact_json example_parse)
      [Line 0 (example_line (SendMessage 1 (lit ''hi''))), ListenerWaits 1 1]
      (the (serve (two_members @ [ListenerWaits 1 1]))) = Some sv'
    \<and> sc_queue (sv_chans sv' ! 1) = [lit ''hi''] \<and> srv_exec compact_json example_parse (Forward 1 1) sv' = None"
proof -
  let ?sv = "the (serve (two_members @ [ListenerWaits 1 1]))"
  have reach: "srv_reachable compact_json example_parse ?sv"
    by (rule serve_reachable) code_simp
  have h: "length (sv_rooms ?sv) = 1" "0 < length (sv_sessions ?sv)"
    "ss_pc (sv_sessions ?sv ! 0) = Reading" "map_of (ss_subs (sv_sessions ?sv ! 0)) 0 = Some 0"
    "takes example_parse (example_line (SendMessage 1 (lit ''hi'')))
       (SendMessage (tr_id (sv_rooms ?sv ! 0)) (lit ''hi''))"
    "1 < length (sv_sessions ?sv)" "map_of (ss_listeners (sv_sessions ?sv ! 1)) 1 = Some 0"
    "1 \<in> set (tr_connections (sv_rooms ?sv ! 0)) - {0}"
    "\<not> sc_closed (sv_chans ?sv ! 1)" "sc_queue (sv_chans ?sv ! 1) = []" "sc_reader (sv_chans ?sv ! 1) = Leaving"
    by code_simp+
  from wake_up_lost [OF reach one_room [OF h(1)] h(2-)] obtain sv' where
    sv': "run_schedule (srv_exec compact_json example_parse)
      [Line 0 (example_line (SendMessage 1 (lit ''hi''))), ListenerWaits 1 1] ?sv = Some sv'"
    "sc_queue (sv_chans sv' ! 1) = [lit ''hi'']"
    and stuck: "\<forall>ls sv''. run_schedule (srv_exec compact_json example_parse) ls sv' = Some sv'' \<longrightarrow>
      along (srv_exec compact_json example_parse) (said example_parse 1) ls sv' = [] \<longrightarrow>
      \<not> sc_closed (sv_chans sv'' ! 1) \<longrightarrow>
      sc_queue (sv_chans sv'' ! 1) = [lit ''hi''] \<and> srv_exec compact_json example_parse (Forward 1 1) sv'' = None" by blast
  have "\<not> (case run_schedule (srv_exec compact_json example_parse)
      [Line 0 (example_line (SendMessage 1 (lit ''hi''))), ListenerWaits 1 1] ?sv of
      None \<Rightarrow> True | Some sv' \<Rightarrow> sc_closed (sv_chans sv' ! 1))" by code_simp
  then have "\<not> sc_closed (sv_chans sv' ! 1)" unfolding sv'(1) by simp
  with stuck [rule_format, of "[]" sv'] sv' show ?thesis by (simp del: srv_exec.simps)
qed

section \<open>The end of a session\<close>

text \<open>C37: The writer outlives its socket: when a session ends while lines wait to be written, which it can in every state where it reads, the writer of the session, unless it is just about to wait, takes the next line and sends it through its reference to the socket, which was destroyed when the function that owns it returned.\<close>

theorem writer_outlives_socket:
  assumes "i < length (sv_sessions sv)" "ss_pc (sv_sessions sv ! i) = Reading"
    "ss_writing (sv_sessions sv ! i)" "sc_queue (ss_out (sv_sessions sv ! i)) = m # q"
    "sc_reader (ss_out (sv_sessions sv ! i)) \<noteq> Leaving"
  shows "\<exists>sv1 sv2. srv_exec pr parse (Hangup i) sv = Some sv1 \<and> ss_pc (sv_sessions sv1 ! i) = Ended
    \<and> srv_exec pr parse (WriteOut i w) sv1 = Some sv2
    \<and> sc_queue (ss_out (sv_sessions sv2 ! i)) = q \<and> ss_dangling (sv_sessions sv2 ! i)"
proof -
  let ?ch = "chan_close (ss_out (sv_sessions sv ! i))"
  have "chan_read ?ch = GotMessage m (?ch\<lparr>sc_queue := q\<rparr>)"
    unfolding chan_read_got using assms(4,5)
    by (cases "sc_reader (ss_out (sv_sessions sv ! i))") (simp_all add: chan_close_def)
  with assms show ?thesis by (simp add: end_session_def set_session_def write_out_def Let_def)
qed

theorem writer_outlives_socket_witness:
  "\<exists>sv1 sv2. srv_exec compact_json example_parse (Hangup 0) (the (serve [Accept, Line 0 (lit ''x'')])) = Some sv1
    \<and> srv_exec compact_json example_parse (WriteOut 0 SentAll) sv1 = Some sv2 \<and> ss_dangling (sv_sessions sv2 ! 0)"
proof -
  let ?sv = "the (serve [Accept, Line 0 (lit ''x'')])"
  have "0 < length (sv_sessions ?sv)" "ss_pc (sv_sessions ?sv ! 0) = Reading"
    "ss_writing (sv_sessions ?sv ! 0)" "sc_queue (ss_out (sv_sessions ?sv ! 0)) =
       (lit ''Failed to parse JSON: '' @ lit ''syntax error'' @ [10]) # []"
    "sc_reader (ss_out (sv_sessions ?sv ! 0)) \<noteq> Leaving"
    by code_simp+
  from writer_outlives_socket [OF this, of compact_json example_parse] show ?thesis by blast
qed

end
