(* ===== verification/Net_Client.thy ===== *)
theory Net_Client
  imports System_Guarantees
begin

text \<open>
  What a step of a client does to its connections: the bytes and the commands of a connection only
  grow, and an event other than a report of the connection itself comes from a line that was read.
\<close>

section \<open>One connection\<close>

fun main_pending :: "main_pc \<Rightarrow> from_server list" where
  "main_pending (MainSending evs k) = evs"
| "main_pending _ = []"

text \<open>The events a connection has sent or is about to send.\<close>

definition reported :: "('c, 'e) conn_task \<Rightarrow> from_server set" where
  "reported t = set (tk_sent t) \<union> set (main_pending (tk_main t)) \<union> set (reader_pending (tk_reader t))"

fun is_control :: "from_server \<Rightarrow> bool" where
  "is_control (FS_RoomConfirmed rid name b) = False"
| "is_control (FS_Message g t) = False"
| "is_control _ = True"

definition read_events :: "(ustring \<Rightarrow> json option) \<Rightarrow> task_label \<Rightarrow> from_server set" where
  "read_events parse l = (case l of DoRead x \<Rightarrow> set (fst (handle_read parse x)) | _ \<Rightarrow> {})"

definition conn_grows :: "from_server set \<Rightarrow> ('c, 'e) conn_task \<Rightarrow> ('c, 'e) conn_task \<Rightarrow> bool" where
  "conn_grows E t t' \<longleftrightarrow>
     prefix (tk_wire t) (tk_wire t') \<and> prefix (tk_taken t) (tk_taken t') \<and>
     prefix (tk_polled t) (tk_polled t') \<and>
     (\<forall>ev\<in>reported t'. ev \<in> reported t \<or> is_control ev \<or> ev \<in> E)"

lemma conn_grows_same:
  "tk_wire t' = tk_wire t \<Longrightarrow> tk_taken t' = tk_taken t \<Longrightarrow> tk_sent t' = tk_sent t \<Longrightarrow>
   tk_main t' = tk_main t \<Longrightarrow> tk_reader t' = tk_reader t \<Longrightarrow> prefix (tk_polled t) (tk_polled t') \<Longrightarrow>
   conn_grows E t t'"
  by (simp add: conn_grows_def reported_def)

lemma connect_report_control: "ev \<in> set (connect_report f) \<Longrightarrow> is_control ev"
  by (auto simp: connect_report_def split: option.splits)

lemma main_send_grows:
  assumes "main_send_next rt (tk_main t) t = Some t'"
  shows "conn_grows E t t'"
proof (cases "(rt, tk_main t, t)" rule: main_send_next.cases)
  case (1 rt' ev evs k t1)
  with assms obtain t2 where "send_event rt ev t = Some t2" "t' = t2\<lparr>tk_main := MainSending evs k\<rparr>"
    by auto
  with 1 show ?thesis by (auto simp: conn_grows_def reported_def send_event_fields)
qed (use assms in auto)

lemma reader_send_grows:
  assumes "reader_send_next rt (tk_reader t) t = Some t'"
  shows "conn_grows E t t'"
proof (cases "(rt, tk_reader t, t)" rule: reader_send_next.cases)
  case (1 rt' ev evs k t1)
  with assms obtain t2 where "send_event rt ev t = Some t2" "t' = t2\<lparr>tk_reader := ReaderSending evs k\<rparr>"
    by auto
  with 1 show ?thesis by (auto simp: conn_grows_def reported_def send_event_fields)
qed (use assms in auto)

lemma command_grows:
  assumes "command_next rt w t = Some t'"
  shows "conn_grows E t t'"
proof -
  from assms obtain c cs where c: "ch_recv (command_channel rt) (tk_cmds t) = Some (c, cs)"
    by (auto simp: command_next_def)
  obtain bs k where "handle_command (rt_print rt) (Some c) w = (bs, k)" by force
  with assms c show ?thesis
    by (auto simp: command_next_def conn_grows_def reported_def leave_loop_def Let_def split: if_splits)
qed

lemma task_exec_grows:
  assumes "task_exec rt l t = Some t'"
  shows "conn_grows (read_events (rt_parse rt) l) t t'"
proof (cases l)
  case (DoConnect f)
  with assms connect_report_control [of _ f] show ?thesis
    by (auto simp: conn_grows_def reported_def split: if_splits)
next
  case DoMainGo
  with assms show ?thesis
    by (cases "(tk_main t, t)" rule: main_go_next.cases) (auto simp: conn_grows_def reported_def)
next
  case DoReaderGo
  with assms show ?thesis
    by (cases "(tk_reader t, t)" rule: reader_go_next.cases)
      (auto simp: conn_grows_def reported_def split: if_splits)
next
  case (DoRead x)
  with assms show ?thesis
    by (auto simp: conn_grows_def reported_def read_events_def split: if_splits prod.splits)
next
  case DoClosed
  with assms show ?thesis
    by (auto simp: conn_grows_def reported_def leave_loop_def split: if_splits)
next
  case DoCancel
  with assms show ?thesis by (auto simp: conn_grows_def reported_def split: if_splits)
qed (use assms in \<open>simp_all add: main_send_grows reader_send_grows command_grows split: if_splits\<close>)

section \<open>All connections of a client\<close>

definition client_grows ::
  "from_server set \<Rightarrow> nat option \<Rightarrow> ('c, 'e) system \<Rightarrow> ('c, 'e) system \<Rightarrow> bool" where
  "client_grows E at S S' \<longleftrightarrow>
     length (sy_conns S) \<le> length (sy_conns S') \<and>
     (\<forall>k<length (sy_conns S).
        conn_grows (if at = Some k then E else {}) (sy_conns S ! k) (sy_conns S' ! k)) \<and>
     (\<forall>k<length (sy_conns S'). length (sy_conns S) \<le> k \<longrightarrow> reported (sy_conns S' ! k) = {})"

lemma client_grows_update:
  assumes "conn_grows (if at = Some k then E else {}) (sy_conns S ! k) t" "sy_conns S' = (sy_conns S)[k := t]"
  shows "client_grows E at S S'"
proof -
  have "conn_grows (if at = Some j then E else {}) (sy_conns S ! j) ((sy_conns S)[k := t] ! j)"
    if "j < length (sy_conns S)" for j
    using assms(1) that by (cases "j = k") (simp_all add: conn_grows_same)
  with assms(2) show ?thesis by (simp add: client_grows_def)
qed

lemma client_grows_same: "sy_conns S' = sy_conns S \<Longrightarrow> client_grows E at S S'"
  by (simp add: client_grows_def conn_grows_same)

text \<open>The connection a label moves, and what it reads.\<close>

definition label_conn :: "sys_label \<Rightarrow> nat option" where
  "label_conn l = (case l of Task k x \<Rightarrow> Some k | _ \<Rightarrow> None)"

definition label_events :: "(ustring \<Rightarrow> json option) \<Rightarrow> sys_label \<Rightarrow> from_server set" where
  "label_events parse l = (case l of Task k x \<Rightarrow> read_events parse x | _ \<Rightarrow> {})"

lemma start_grows: "client_grows E None S (start_connection rt host port S)"
proof (cases rule: start_connection_cases [of rt host port S])
  case refused
  then show ?thesis by (simp add: client_grows_same)
next
  case started
  have "reported (init_task rt) = {}" by (simp add: reported_def init_task_def)
  then show ?thesis unfolding started
    by (auto simp: client_grows_def nth_append drop_receiver_nth conn_grows_same less_Suc_eq)
qed

lemma poll_grows:
  assumes "poll_system rt p clock S = Some S'"
  shows "client_grows E None S S'"
  using assms
proof (cases rule: poll_system_cases)
  case (event k ev q app')
  show ?thesis by (rule client_grows_update [where k = k]; (subst event)?; simp add: conn_grows_same)
qed (simp add: client_grows_same)

lemma deliver_grows:
  assumes "deliver rt p n S = Some S'"
  shows "client_grows E None S S'"
  using assms
proof (cases rule: deliver_cases)
  case (2 k c q)
  show ?thesis by (rule client_grows_update [where k = k]; (subst 2)?; simp add: conn_grows_same)
qed (simp add: client_grows_same)

lemma sys_exec_grows:
  assumes "sys_exec rt p l S = Some S'"
  shows "client_grows (label_events (rt_parse rt) l) (label_conn l) S S'"
proof (cases l)
  case (Task k tl)
  with assms obtain t where "k < length (sy_conns S)" "task_exec rt tl (sy_conns S ! k) = Some t"
    "S' = S\<lparr>sy_conns := (sy_conns S)[k := t]\<rparr>" by (auto split: if_splits)
  with Task task_exec_grows [of rt tl "sy_conns S ! k" t] show ?thesis
    by (auto simp: label_events_def label_conn_def intro!: client_grows_update [of _ k _ S t])
next
  case (DropSenders k)
  with assms have "S' = S\<lparr>sy_conns := (sy_conns S)[k := (sy_conns S ! k)\<lparr>tk_senders := False\<rparr>]\<rparr>"
    by (simp split: if_splits)
  then show ?thesis by (intro client_grows_update [where k = k]) (simp_all add: conn_grows_same)
qed (use assms start_grows poll_grows deliver_grows in
    \<open>auto simp: label_conn_def intro: client_grows_same split: if_splits sum.splits\<close>)

end
