(* ===== verification/Flat_Json.thy ===== *)
theory Flat_Json
  imports Json "HOL-Library.Monad_Syntax"
begin

text \<open>
  A parser for what \<open>compact_json\<close> prints of an object whose members are strings and unsigned
  numbers, which is every object the client and the server exchange. It is the instance with which
  the statements about every printer and parser are shown not to be empty.
\<close>

definition hex_val :: "rchar \<Rightarrow> nat" where
  "hex_val h = (if h < 58 then h - 48 else h - 87)"

fun read_string :: "ustring \<Rightarrow> (ustring \<times> ustring) option" where
  "read_string [] = None"
| "read_string (c # cs) =
     (if c = 34 then Some ([], cs)
      else if c = 92 then
        (case cs of
           [] \<Rightarrow> None
         | d # ds \<Rightarrow>
             if d = 34 \<or> d = 92 then map_option (apfst ((#) d)) (read_string ds)
             else (case ds of
                     a # b # h # l # rest \<Rightarrow>
                       if d = 117 \<and> a = 48 \<and> b = 48
                       then map_option (apfst ((#) (16 * hex_val h + hex_val l))) (read_string rest)
                       else None
                   | _ \<Rightarrow> None))
      else map_option (apfst ((#) c)) (read_string cs))"

definition is_digit :: "rchar \<Rightarrow> bool" where
  "is_digit c \<longleftrightarrow> 48 \<le> c \<and> c \<le> 57"

definition read_value :: "ustring \<Rightarrow> (json \<times> ustring) option" where
  "read_value cs =
     (if cs \<noteq> [] \<and> hd cs = 34 then map_option (apfst JStr) (read_string (tl cs))
      else map_option (\<lambda>n. (JNum (PosInt n), dropWhile is_digit cs)) (parse_word (takeWhile is_digit cs)))"

definition expect :: "rchar \<Rightarrow> ustring \<Rightarrow> ustring option" where
  "expect c cs = (if cs \<noteq> [] \<and> hd cs = c then Some (tl cs) else None)"

fun read_members :: "nat \<Rightarrow> ustring \<Rightarrow> (ustring \<times> json) list option" where
  "read_members 0 cs = None"
| "read_members (Suc n) cs = do {
     r \<leftarrow> expect 34 cs;
     (k, r) \<leftarrow> read_string r;
     r \<leftarrow> expect 58 r;
     (v, r) \<leftarrow> read_value r;
     if r = [125] then Some [(k, v)]
     else do { r \<leftarrow> expect 44 r; es \<leftarrow> read_members n r; Some ((k, v) # es) } }"

definition flat_parse :: "ustring \<Rightarrow> json option" where
  "flat_parse t = do { r \<leftarrow> expect 123 t; es \<leftarrow> read_members (length r) r; Some (JObj es) }"

section \<open>What was printed is read\<close>

lemma hex_val_digit: "n < 16 \<Longrightarrow> hex_val (hex_digit n) = n"
  by (auto simp: hex_val_def hex_digit_def)

lemma read_escaped: "read_string (escape_char c @ cs) = map_option (apfst ((#) c)) (read_string cs)"
proof (cases "c < 32")
  case True
  then have "hex_val (hex_digit (c div 16)) = c div 16" "hex_val (hex_digit (c mod 16)) = c mod 16"
    by (intro hex_val_digit; simp)+
  with True show ?thesis by (simp add: escape_char_def lit_def)
qed (simp add: escape_char_def)

lemma read_string_printed: "read_string (concat (map escape_char s) @ 34 # cs) = Some (s, cs)"
  by (induction s) (simp_all add: read_escaped)

fun flat_value :: "json \<Rightarrow> bool" where
  "flat_value (JStr s) = True"
| "flat_value (JNum (PosInt n)) = True"
| "flat_value _ = False"

lemma read_value_printed:
  assumes "flat_value v" "cs \<noteq> []" "\<not> is_digit (hd cs)"
  shows "read_value (compact_json v @ cs) = Some (v, cs)"
  using assms(1)
proof (cases v rule: flat_value.cases)
  case (1 s)
  then show ?thesis by (simp add: read_value_def compact_string_def read_string_printed)
next
  case (2 n)
  have digits: "is_digit c" if "c \<in> set (show_word n)" for c
    using show_nat_digits [of c "unat n"] that by (simp add: show_word_def is_digit_def)
  have ne: "show_word n \<noteq> []" by (simp add: show_word_def)
  then have "hd (show_word n @ cs) \<noteq> 34"
    using digits [of "hd (show_word n)"] by (auto simp: is_digit_def)
  moreover have "takeWhile is_digit (show_word n @ cs) = show_word n" "dropWhile is_digit (show_word n @ cs) = cs"
    using digits assms(2,3) by (cases cs; simp add: takeWhile_append dropWhile_append)+
  ultimately show ?thesis using 2 ne by (simp add: read_value_def parse_show_word)
qed simp_all

definition print_member :: "ustring \<times> json \<Rightarrow> ustring" where
  "print_member = (\<lambda>(k, v). compact_string k @ [58] @ compact_json v)"

lemma read_member_printed:
  assumes "flat_value v" "cs \<noteq> []" "\<not> is_digit (hd cs)"
  shows "read_members (Suc n) (print_member (k, v) @ cs) =
    (if cs = [125] then Some [(k, v)]
     else do { r \<leftarrow> expect 44 cs; es \<leftarrow> read_members n r; Some ((k, v) # es) })"
  using read_value_printed [OF assms]
  by (simp add: print_member_def compact_string_def expect_def read_string_printed)

lemma read_members_printed:
  assumes "\<forall>(k, v)\<in>set es. flat_value v" "es \<noteq> []" "length es \<le> n"
  shows "read_members n (comma_sep (map print_member es) @ [125]) = Some es"
  using assms(2,1,3)
proof (induction es arbitrary: n rule: list_nonempty_induct)
  case (single e)
  then obtain m where "n = Suc m" by (cases n) auto
  with single show ?case
    by (cases e) (simp add: read_member_printed is_digit_def del: read_members.simps)
next
  case (cons e es)
  then obtain m where m: "n = Suc m" "length es \<le> m" by (cases n) auto
  obtain k v where e: "e = (k, v)" by (cases e)
  have "comma_sep (map print_member (e # es)) @ [125] =
      print_member e @ 44 # comma_sep (map print_member es) @ [125]"
    using cons(1) by (cases es) simp_all
  moreover have "read_members m (comma_sep (map print_member es) @ [125]) = Some es"
    using cons m by simp
  ultimately show ?case
    using cons(3) m by (simp add: e read_member_printed is_digit_def expect_def del: read_members.simps)
qed

lemma comma_sep_length: "(\<forall>x\<in>set xs. x \<noteq> []) \<Longrightarrow> length xs \<le> length (comma_sep xs)"
  by (induction xs rule: comma_sep.induct) (auto simp: Suc_le_eq)

lemma flat_parse_printed:
  assumes "\<forall>(k, v)\<in>set es. flat_value v" "es \<noteq> []"
  shows "flat_parse (compact_json (JObj es)) = Some (JObj es)"
proof -
  let ?t = "comma_sep (map print_member es) @ [125]"
  have "length (map print_member es) \<le> length (comma_sep (map print_member es))"
    by (rule comma_sep_length) (auto simp: print_member_def compact_string_def)
  then have "read_members (length ?t) ?t = Some es"
    by (intro read_members_printed assms) simp
  moreover have "compact_json (JObj es) = 123 # ?t" by (simp add: print_member_def)
  ultimately show ?thesis by (simp add: flat_parse_def expect_def)
qed

text \<open>A printed object with the newline that ends the line, trimmed.\<close>

lemma trim_object_line: "trim (compact_json (JObj es) @ [10]) = compact_json (JObj es)"
  by (simp add: trim_def is_whitespace_def)

end
