(* ===== verification/Bytes.thy ===== *)
theory Bytes
  imports Rust_Std "HOL-Library.Sublist"
begin

text \<open>
  Text on the wire: the decoding of UTF-8 that \<open>read_line\<close> does (\<open>str::from_utf8\<close> of the standard
  library), the inverse of \<open>as_bytes\<close>, and lines in a stream of bytes.
\<close>

section \<open>Decoding UTF-8\<close>

text \<open>The Unicode scalar values, which are what a \<open>char\<close> of Rust can hold.\<close>

definition is_scalar :: "rchar \<Rightarrow> bool" where
  "is_scalar c \<longleftrightarrow> c < 55296 \<or> (57344 \<le> c \<and> c < 1114112)"

definition utf8_width :: "nat \<Rightarrow> nat" where
  "utf8_width a = (if a < 128 then 1 else if a < 224 then 2 else if a < 240 then 3 else 4)"

fun utf8_value :: "nat list \<Rightarrow> rchar" where
  "utf8_value [a] = a"
| "utf8_value [a, b] = (a - 192) * 64 + (b - 128)"
| "utf8_value [a, b, c] = (a - 224) * 4096 + (b - 128) * 64 + (c - 128)"
| "utf8_value [a, b, c, d] = (a - 240) * 262144 + (b - 128) * 4096 + (c - 128) * 64 + (d - 128)"
| "utf8_value _ = 1114112"

text \<open>
  Well-formed are the encodings of scalar values and nothing else: no overlong form, no surrogate,
  nothing cut short.
\<close>

fun utf8_decode :: "nat list \<Rightarrow> ustring option" where
  "utf8_decode [] = Some []"
| "utf8_decode (a # bs) =
     (let n = utf8_width a; c = utf8_value (take n (a # bs)) in
      if is_scalar c \<and> utf8_char c = take n (a # bs)
      then map_option ((#) c) (utf8_decode (drop (n - 1) bs)) else None)"

lemma utf8_width_char: "utf8_width (hd (utf8_char c)) = length (utf8_char c)"
  by (auto simp: utf8_width_def utf8_char_def)

lemma utf8_char_not_Nil [simp]: "utf8_char c \<noteq> []"
  by (simp add: utf8_char_def)

lemma utf8_value_char: "utf8_value (utf8_char c) = c"
proof -
  have "c div 64 mod 64 * 64 + c mod 64 = c mod 4096" "c div 4096 mod 64 * 4096 + c mod 4096 = c mod 262144"
    using mod_mult2_eq [of c 64 64] mod_mult2_eq [of c 4096 64] by simp_all
  moreover have "c div 64 * 64 + c mod 64 = c" "c div 4096 * 4096 + c mod 4096 = c"
    "c div 262144 * 262144 + c mod 262144 = c" by simp_all
  ultimately show ?thesis by (simp add: utf8_char_def add.assoc)
qed

lemma utf8_char_inj: "utf8_char c = utf8_char d \<Longrightarrow> c = d"
  by (metis utf8_value_char)

text \<open>What is decoded is the encoding of the result, and every encoding of scalar values is decoded.\<close>

lemma utf8_decode_sound: "utf8_decode bs = Some s \<Longrightarrow> as_bytes s = bs \<and> (\<forall>c\<in>set s. is_scalar c)"
proof (induction bs arbitrary: s rule: utf8_decode.induct)
  case (2 a bs)
  let ?n = "utf8_width a" let ?c = "utf8_value (take ?n (a # bs))"
  from "2.prems" obtain t where t: "utf8_decode (drop (?n - 1) bs) = Some t" "s = ?c # t"
    "is_scalar ?c" "utf8_char ?c = take ?n (a # bs)" by (auto simp: Let_def split: if_splits)
  from "2.IH" [OF refl refl _ t(1)] t(3,4)
  have "as_bytes t = drop (?n - 1) bs \<and> (\<forall>c\<in>set t. is_scalar c)" by blast
  moreover have "take ?n (a # bs) @ drop (?n - 1) bs = a # bs"
    by (cases ?n) (simp_all add: utf8_width_def split: if_splits)
  ultimately show ?case using t(2-4) by simp
qed simp

lemma utf8_decode_char:
  assumes "is_scalar c"
  shows "utf8_decode (utf8_char c @ bs) = map_option ((#) c) (utf8_decode bs)"
proof -
  obtain a as where c: "utf8_char c = a # as" by (cases "utf8_char c") auto
  have "utf8_width a = Suc (length as)" using utf8_width_char [of c] by (simp add: c)
  with assms utf8_value_char [of c] show ?thesis by (simp add: c)
qed

lemma utf8_decode_as_bytes: "\<forall>c\<in>set s. is_scalar c \<Longrightarrow> utf8_decode (as_bytes s @ bs) = map_option ((@) s) (utf8_decode bs)"
  by (induction s) (cases "utf8_decode bs"; simp add: utf8_decode_char)+

lemma utf8_prefix_free:
  assumes "utf8_char c @ xs = utf8_char d @ ys"
  shows "c = d \<and> xs = ys"
proof -
  have "hd (utf8_char c) = hd (utf8_char d)" using assms by (metis hd_append2 utf8_char_not_Nil)
  then have "length (utf8_char c) = length (utf8_char d)" by (metis utf8_width_char)
  with assms utf8_char_inj show ?thesis by auto
qed

lemma as_bytes_inj: "as_bytes s = as_bytes t \<Longrightarrow> s = t"
proof (induction s arbitrary: t)
  case Nil
  then show ?case by (cases t) auto
next
  case (Cons c s)
  then obtain d t' where t: "t = d # t'" by (cases t) auto
  with Cons.prems utf8_prefix_free [of c "as_bytes s" d "as_bytes t'"] Cons.IH show ?case by auto
qed

section \<open>Lines\<close>

text \<open>
  The bytes up to and with the next newline, and what follows them: what \<open>read_line\<close> of the client
  and \<open>async_read_until\<close> of the server take from the bytes that have arrived.
\<close>

definition next_line :: "nat list \<Rightarrow> (nat list \<times> nat list) option" where
  "next_line bs =
     (case dropWhile (\<lambda>b. b \<noteq> 10) bs of
        [] \<Rightarrow> None
      | b # rest \<Rightarrow> Some (takeWhile (\<lambda>b. b \<noteq> 10) bs @ [10], rest))"

text \<open>A line as both ends write it: text without a newline, and a newline.\<close>

definition is_line :: "ustring \<Rightarrow> bool" where
  "is_line l \<longleftrightarrow> (\<exists>t. l = t @ [10] \<and> 10 \<notin> set t)"

lemma is_lineI: "10 \<notin> set t \<Longrightarrow> is_line (t @ [10])"
  by (auto simp: is_line_def)

lemma is_line_not_Nil: "is_line l \<Longrightarrow> l \<noteq> []"
  by (auto simp: is_line_def)

lemma next_line_append:
  assumes "is_line l"
  shows "next_line (as_bytes l @ bs) = Some (as_bytes l, bs)"
proof -
  obtain t where t: "l = t @ [10]" "10 \<notin> set t" using assms by (auto simp: is_line_def)
  have "\<forall>b\<in>set (as_bytes t). b \<noteq> 10" using as_bytes_ascii [of 10 t] t(2) by auto
  with t(1) show ?thesis
    by (simp add: next_line_def utf8_char_def dropWhile_append takeWhile_append2 takeWhile_append)
qed

lemma next_line_length: "next_line bs = Some (b, rest) \<Longrightarrow> bs = b @ rest \<and> b \<noteq> []"
proof -
  assume a: "next_line bs = Some (b, rest)"
  then obtain x where d: "dropWhile (\<lambda>b. b \<noteq> 10) bs = x # rest" "b = takeWhile (\<lambda>b. b \<noteq> 10) bs @ [10]"
    by (auto simp: next_line_def split: list.splits)
  then have "x = 10" using hd_dropWhile [of "\<lambda>b. b \<noteq> 10" bs] by simp
  with d show ?thesis using takeWhile_dropWhile_id [of "\<lambda>b. b \<noteq> 10" bs] by simp
qed

text \<open>Where only a prefix of the lines has arrived, the next line is still the first of them.\<close>

lemma next_line_prefix:
  assumes "prefix bs (concat (map as_bytes ls))" "\<forall>l\<in>set ls. is_line l" "next_line bs = Some (b, rest)"
  shows "\<exists>l ls'. ls = l # ls' \<and> b = as_bytes l \<and> prefix rest (concat (map as_bytes ls'))"
proof (cases ls)
  case Nil
  with assms show ?thesis by (simp add: next_line_def)
next
  case (Cons l ls')
  from next_line_length [OF assms(3)] have bs: "bs = b @ rest" by simp
  obtain ys where ys: "concat (map as_bytes ls) = bs @ ys" using assms(1) by (auto simp: prefix_def)
  from assms(3) obtain x where d: "dropWhile (\<lambda>b. b \<noteq> 10) bs = x # rest" "b = takeWhile (\<lambda>b. b \<noteq> 10) bs @ [10]"
    by (auto simp: next_line_def split: list.splits)
  have "next_line (bs @ ys) = Some (b, rest @ ys)"
  proof -
    have ne: "\<not> (\<forall>z\<in>set bs. z \<noteq> 10)"
      using d(1) dropWhile_eq_Nil_conv [of "\<lambda>b. b \<noteq> 10" bs] by auto
    then have "dropWhile (\<lambda>b. b \<noteq> 10) (bs @ ys) = dropWhile (\<lambda>b. b \<noteq> 10) bs @ ys"
      "takeWhile (\<lambda>b. b \<noteq> 10) (bs @ ys) = takeWhile (\<lambda>b. b \<noteq> 10) bs"
      using dropWhile_append [of "\<lambda>b. b \<noteq> 10" bs ys] takeWhile_append [of "\<lambda>b. b \<noteq> 10" bs ys]
      by (auto split: if_splits)
    with d show ?thesis by (simp add: next_line_def)
  qed
  moreover have "next_line (concat (map as_bytes ls)) = Some (as_bytes l, concat (map as_bytes ls'))"
    using Cons assms(2) by (simp add: next_line_append)
  ultimately have "b = as_bytes l" "rest @ ys = concat (map as_bytes ls')" using ys by auto
  with Cons show ?thesis by (metis prefixI)
qed

text \<open>All the lines that have arrived in full.\<close>

function arrived_lines :: "nat list \<Rightarrow> nat list list" where
  "arrived_lines bs = (case next_line bs of None \<Rightarrow> [] | Some (b, rest) \<Rightarrow> b # arrived_lines rest)"
  by pat_completeness auto

termination
  by (relation "measure length") (auto dest!: next_line_length)

declare arrived_lines.simps [simp del]

lemma arrived_lines_concat:
  assumes "\<forall>l\<in>set ls. is_line l" "10 \<notin> set rest"
  shows "arrived_lines (concat (map as_bytes ls) @ rest) = map as_bytes ls"
  using assms(1)
proof (induction ls)
  case Nil
  have "dropWhile (\<lambda>b. b \<noteq> 10) rest = []" using assms(2) by (auto simp: dropWhile_eq_Nil_conv)
  then have "next_line rest = None" by (simp only: next_line_def list.case)
  then show ?case by (subst arrived_lines.simps) simp
next
  case (Cons l ls)
  then show ?case by (subst arrived_lines.simps) (simp add: next_line_append)
qed

section \<open>Reading a stream line by line\<close>

text \<open>A reader that has taken the first \<open>n\<close> bytes of a stream stands between two lines.\<close>

definition line_start :: "nat \<Rightarrow> nat list \<Rightarrow> bool" where
  "line_start n bs \<longleftrightarrow>
     (\<exists>ls rest. bs = concat (map as_bytes ls) @ rest \<and> n = length (concat (map as_bytes ls)) \<and>
        (\<forall>l\<in>set ls. is_line l))"

lemma line_start_0 [simp]: "line_start 0 bs"
  unfolding line_start_def by (intro exI [of _ "[]"] exI [of _ bs]) simp

lemma line_start_append: "line_start n bs \<Longrightarrow> line_start n (bs @ cs)"
  by (auto simp: line_start_def) (metis append.assoc)

lemma line_start_prefix: "line_start n bs \<Longrightarrow> prefix bs cs \<Longrightarrow> line_start n cs"
  by (auto simp: prefix_def intro: line_start_append)

lemma lines_prefix:
  assumes "prefix (concat (map as_bytes ks) @ rest) (concat (map as_bytes ls))"
    "\<forall>l\<in>set ks. is_line l" "\<forall>l\<in>set ls. is_line l"
  shows "\<exists>ms. ls = ks @ ms \<and> prefix rest (concat (map as_bytes ms))"
  using assms
proof (induction ks arbitrary: ls)
  case (Cons k ks)
  let ?bs = "concat (map as_bytes (k # ks)) @ rest"
  have "next_line ?bs = Some (as_bytes k, concat (map as_bytes ks) @ rest)"
    using Cons.prems(2) by (simp add: next_line_append)
  from next_line_prefix [OF Cons.prems(1,3) this] obtain l ls' where l: "ls = l # ls'"
      "as_bytes k = as_bytes l" "prefix (concat (map as_bytes ks) @ rest) (concat (map as_bytes ls'))"
    by blast
  with Cons.IH [of ls'] Cons.prems(2,3) as_bytes_inj [OF l(2)] show ?case by auto
qed simp

text \<open>The next line of such a reader is one of the lines that were written, and then it stands
  between two lines again.\<close>

lemma line_start_next:
  assumes "line_start n bs" "next_line (drop n bs) = Some (b, rest)"
    "prefix bs (concat (map as_bytes ls))" "\<forall>l\<in>set ls. is_line l"
  shows "\<exists>l\<in>set ls. b = as_bytes l \<and> line_start (n + length b) bs"
proof -
  from assms(1) obtain ks r where ks: "bs = concat (map as_bytes ks) @ r"
      "n = length (concat (map as_bytes ks))" "\<forall>l\<in>set ks. is_line l" by (auto simp: line_start_def)
  from lines_prefix [OF assms(3) [unfolded ks(1)] ks(3) assms(4)] obtain ms where
    ms: "ls = ks @ ms" "prefix r (concat (map as_bytes ms))" by blast
  have nl: "next_line r = Some (b, rest)" using assms(2) ks(1,2) by simp
  have "\<forall>l\<in>set ms. is_line l" using assms(4) ms(1) by simp
  from next_line_prefix [OF ms(2) this nl] obtain l where l: "l \<in> set ms" "b = as_bytes l" by force
  have "bs = concat (map as_bytes (ks @ [l])) @ rest"
    using ks(1) next_line_length [OF nl] l(2) by simp
  moreover have "n + length b = length (concat (map as_bytes (ks @ [l])))" using ks(2) l(2) by simp
  moreover have "\<forall>l\<in>set (ks @ [l]). is_line l" using ks(3) l(1) ms(1) assms(4) by simp
  ultimately have "line_start (n + length b) bs" unfolding line_start_def by blast
  with l ms(1) show ?thesis by auto
qed

end
