(* ===== verification/Wire_Format.thy ===== *)
theory Wire_Format
  imports Flat_Json Bytes Server_Guarantees
begin

text \<open>
  What the client and the server need of each other's JSON library, as a locale, and the proof that
  compact JSON provides it.
\<close>

text \<open>
  The plain-text lines a server sends to a client that only sends it commands of its own; the
  other replies answer lines no client writes.
\<close>

definition refusals :: "ustring list" where
  "refusals =
     [lit ''Failed: Already subscribed to this Chat Room'', lit ''Failed: No such group exists'',
      lit ''Failed to send msg: grp not found'', lit ''not subscribed to this room'']"

definition ok_json :: "bool \<Rightarrow> u64 \<Rightarrow> ustring \<Rightarrow> json" where
  "ok_json b = (if b then csub_ok_json else sub_ok_json)"

text \<open>
  \<open>cpr\<close> and \<open>cparse\<close> are the printer and the parser of the client, \<open>spr\<close> and \<open>sparse\<close> those of the
  server. Printed JSON has no newline; each end reads what the other one prints; and plain text is
  no JSON.
\<close>

locale wire_format =
  fixes cpr :: "json \<Rightarrow> ustring" and cparse :: "ustring \<Rightarrow> json option"
    and spr :: "json \<Rightarrow> ustring" and sparse :: "ustring \<Rightarrow> ustring + json"
  assumes client_lines: "newline_free cpr"
    and server_lines: "newline_free spr"
    and requests: "takes sparse (cpr (command_json c) @ [10]) c"
    and relays: "reads_back spr cparse (relay_json m name)"
    and confirmations: "reads_back spr cparse (ok_json b rid name)"
    and refused: "t \<in> set refusals \<Longrightarrow> cparse (trim (t @ [10])) = None"
begin

lemma client_is_line: "is_line (cpr v @ [10])"
  using client_lines by (auto simp: newline_free_def intro: is_lineI)

lemma server_is_line: "is_line (spr v @ [10])"
  using server_lines by (auto simp: newline_free_def intro: is_lineI)

lemma command_bytes_is_line: "command_bytes cpr c = as_bytes (cpr (command_json c) @ [10])"
  by (simp add: command_bytes_def)

lemma reads_confirmed:
  "handle_read cparse (ReadLine (spr (ok_json b rid name) @ [10])) = ([FS_RoomConfirmed rid name b], True)"
  using reads_confirmation [of spr cparse b rid name] confirmations [of b rid name] by (simp add: ok_json_def)

lemma reads_relayed:
  "handle_read cparse (ReadLine (spr (relay_json m name) @ [10])) = ([FS_Message name m], True)"
  by (rule reads_relay [OF relays])

lemma reads_refusal:
  assumes "t \<in> set refusals" "handle_read cparse (ReadLine (t @ [10])) = (evs, k)" "ev \<in> set evs"
  shows "\<exists>e. ev = FS_Error e"
  using assms refused [OF assms(1)] by (auto simp: from_str_def Let_def split: if_splits)

end

section \<open>Compact JSON\<close>

definition flat_server_parse :: "ustring \<Rightarrow> ustring + json" where
  "flat_server_parse t =
     (case flat_parse t of Some v \<Rightarrow> Inr v | None \<Rightarrow> Inl (lit ''syntax error''))"

lemma flat_commands: "\<exists>es. command_json c = JObj es \<and> es \<noteq> [] \<and> (\<forall>(k, v)\<in>set es. flat_value v)"
  by (cases c) simp_all

lemma strip_object_line: "strip_line (compact_json (JObj es) @ [10]) = compact_json (JObj es)"
  by (simp add: strip_line_def)

lemma flat_takes: "takes flat_server_parse (compact_json (command_json c) @ [10]) c"
proof -
  obtain es where es: "command_json c = JObj es" "es \<noteq> []" "\<forall>(k, v)\<in>set es. flat_value v"
    using flat_commands by blast
  have "compact_json (JObj es) \<noteq> []" by simp
  with es flat_parse_printed [OF es(3,2)] show ?thesis
    by (simp only: takes_def flat_server_parse_def strip_object_line) simp
qed

lemma flat_reads_back:
  assumes "\<forall>(k, v)\<in>set es. flat_value v" "es \<noteq> []"
  shows "reads_back compact_json flat_parse (JObj es)"
  unfolding reads_back_def trim_object_line using flat_parse_printed [OF assms] by simp

interpretation compact: wire_format compact_json flat_parse compact_json flat_server_parse
proof
  show "takes flat_server_parse (compact_json (command_json c) @ [10]) c" for c
    by (rule flat_takes)
  show "reads_back compact_json flat_parse (relay_json m name)" for m name
    unfolding relay_json_def by (rule flat_reads_back) simp_all
  show "reads_back compact_json flat_parse (ok_json b rid name)" for b rid name
    by (cases b) (simp_all only: ok_json_def if_True if_False sub_ok_json_def csub_ok_json_def,
        (rule flat_reads_back; simp)+)
  have "\<forall>t\<in>set refusals. flat_parse (trim (t @ [10])) = None" by code_simp
  then show "flat_parse (trim (t @ [10])) = None" if "t \<in> set refusals" for t using that by blast
qed (simp_all add: newline_free_def compact_json_no_newline)

end
