(* ===== verification/Net_Server.thy ===== *)
theory Net_Server
  imports Wire_Format
begin

text \<open>
  What a step of the server does to its texts and lines: every text in a channel was sent to it,
  every line it writes is the relay of such a text, the confirmation of one of its rooms or one of
  four refusals.
\<close>

section \<open>Good lines\<close>

definition room_names :: "server \<Rightarrow> (u64 \<times> ustring) set" where
  "room_names sv = (\<lambda>r. (tr_id r, tr_name r)) ` set (sv_rooms sv)"

definition good_line ::
  "(json \<Rightarrow> ustring) \<Rightarrow> ustring set \<Rightarrow> (u64 \<times> ustring) set \<Rightarrow> ustring \<Rightarrow> bool" where
  "good_line pr M R l \<longleftrightarrow>
     (\<exists>m\<in>M. \<exists>(rid, name)\<in>R. l = pr (relay_json m name) @ [10]) \<or>
     (\<exists>b. \<exists>(rid, name)\<in>R. l = pr (ok_json b rid name) @ [10]) \<or>
     l \<in> (\<lambda>t. t @ [10]) ` set refusals"

lemma good_line_mono: "good_line pr M R l \<Longrightarrow> M \<subseteq> M' \<Longrightarrow> R \<subseteq> R' \<Longrightarrow> good_line pr M' R' l"
  unfolding good_line_def by blast

lemma refusals_no_newline: "\<forall>t\<in>set refusals. 10 \<notin> set t"
  by code_simp

lemma good_line_is_line: "newline_free pr \<Longrightarrow> good_line pr M R l \<Longrightarrow> is_line l"
  using refusals_no_newline by (auto simp: good_line_def newline_free_def intro!: is_lineI)

text \<open>The rooms a session is joining or listening to.\<close>

fun pc_rooms :: "session_pc \<Rightarrow> nat set" where
  "pc_rooms (Creating k) = {k}"
| "pc_rooms (Joined c k b) = {k}"
| "pc_rooms (Confirming k b) = {k}"
| "pc_rooms _ = {}"

fun pc_chans :: "session_pc \<Rightarrow> nat set" where
  "pc_chans (Joined c k b) = {c}"
| "pc_chans _ = {}"

definition sess_ok ::
  "(json \<Rightarrow> ustring) \<Rightarrow> ustring set \<Rightarrow> server \<Rightarrow> session \<Rightarrow> bool" where
  "sess_ok pr M sv s \<longleftrightarrow>
     (\<forall>l\<in>set (sc_queue (ss_out s)). good_line pr M (room_names sv) l) \<and>
     (\<exists>ls. ss_wire s = concat (map as_bytes ls) \<and> (\<forall>l\<in>set ls. good_line pr M (room_names sv) l)) \<and>
     pc_rooms (ss_pc s) \<union> snd ` set (ss_listeners s) \<subseteq> {..<length (sv_rooms sv)} \<and>
     pc_chans (ss_pc s) \<union> fst ` set (ss_listeners s) \<subseteq> {..<length (sv_chans sv)}"

definition chans_ok :: "ustring set \<Rightarrow> server \<Rightarrow> bool" where
  "chans_ok M sv \<longleftrightarrow> (\<forall>c\<in>set (sv_chans sv). set (sc_queue c) \<subseteq> M)"

lemma chans_okI:
  "(\<And>c. c < length (sv_chans sv) \<Longrightarrow> set (sc_queue (sv_chans sv ! c)) \<subseteq> M) \<Longrightarrow> chans_ok M sv"
  unfolding chans_ok_def by (metis in_set_conv_nth)

definition lines_ok :: "(json \<Rightarrow> ustring) \<Rightarrow> ustring set \<Rightarrow> server \<Rightarrow> bool" where
  "lines_ok pr M sv \<longleftrightarrow> chans_ok M sv \<and> (\<forall>s\<in>set (sv_sessions sv). sess_ok pr M sv s)"

text \<open>Rooms and channels are only added, and rooms keep their names.\<close>

definition rooms_grow :: "server \<Rightarrow> server \<Rightarrow> bool" where
  "rooms_grow sv sv' \<longleftrightarrow>
     room_names sv \<subseteq> room_names sv' \<and> length (sv_rooms sv) \<le> length (sv_rooms sv') \<and>
     length (sv_chans sv) \<le> length (sv_chans sv')"

lemma sess_ok_grow:
  assumes "sess_ok pr M sv s" "rooms_grow sv sv'" "M \<subseteq> M'"
  shows "sess_ok pr M' sv' s"
proof -
  have good: "good_line pr M' (room_names sv') l" if "good_line pr M (room_names sv) l" for l
    using good_line_mono [OF that assms(3)] assms(2) by (simp add: rooms_grow_def)
  from assms(1) obtain ls where "ss_wire s = concat (map as_bytes ls)" "\<forall>l\<in>set ls. good_line pr M (room_names sv) l"
    by (auto simp: sess_ok_def)
  with good have wire: "\<exists>ls. ss_wire s = concat (map as_bytes ls) \<and> (\<forall>l\<in>set ls. good_line pr M' (room_names sv') l)"
    by blast
  have queue: "\<forall>l\<in>set (sc_queue (ss_out s)). good_line pr M' (room_names sv') l"
    using assms(1) good by (simp add: sess_ok_def)
  have up: "{..<length (sv_rooms sv)} \<subseteq> {..<length (sv_rooms sv')}"
    "{..<length (sv_chans sv)} \<subseteq> {..<length (sv_chans sv')}" using assms(2) by (simp_all add: rooms_grow_def)
  have low: "pc_rooms (ss_pc s) \<union> snd ` set (ss_listeners s) \<subseteq> {..<length (sv_rooms sv)}"
    "pc_chans (ss_pc s) \<union> fst ` set (ss_listeners s) \<subseteq> {..<length (sv_chans sv)}"
    using assms(1) by (simp_all add: sess_ok_def)
  from queue wire order_trans [OF low(1) up(1)] order_trans [OF low(2) up(2)]
  show ?thesis unfolding sess_ok_def by (intro conjI)
qed

lemma rooms_grow_refl [simp]: "rooms_grow sv sv"
  by (simp add: rooms_grow_def)

lemma rooms_grow_same:
  "sv_rooms sv' = sv_rooms sv \<Longrightarrow> length (sv_chans sv') = length (sv_chans sv) \<Longrightarrow> rooms_grow sv sv'"
  by (simp add: rooms_grow_def room_names_def)

lemma lines_ok_mono: "lines_ok pr M sv \<Longrightarrow> M \<subseteq> M' \<Longrightarrow> lines_ok pr M' sv"
  by (auto simp: lines_ok_def chans_ok_def intro: sess_ok_grow)

lemma room_names_nth: "k < length (sv_rooms sv) \<Longrightarrow> (tr_id (sv_rooms sv ! k), tr_name (sv_rooms sv ! k)) \<in> room_names sv"
  by (auto simp: room_names_def)

lemma sess_ok_listeners:
  assumes "sess_ok pr M sv s" "set xs \<subseteq> set (ss_listeners s)"
  shows "sess_ok pr M sv (s\<lparr>ss_listeners := xs\<rparr>)"
proof -
  have "snd ` set xs \<subseteq> snd ` set (ss_listeners s)" "fst ` set xs \<subseteq> fst ` set (ss_listeners s)"
    using assms(2) by auto
  from order_trans [OF this(1)] order_trans [OF this(2)] assms(1) show ?thesis
    by (simp add: sess_ok_def)
qed

section \<open>The pieces of a step\<close>

text \<open>A step that changes one session, the channels, and adds rooms.\<close>

lemma lines_ok_session:
  assumes "lines_ok pr M sv" "sess_ok pr M sv' s" "chans_ok M sv'" "rooms_grow sv sv'"
    "sv_sessions sv' = sv_sessions sv"
  shows "lines_ok pr M (set_session i s sv')"
proof -
  have names: "sess_ok pr M (set_session i s sv') x = sess_ok pr M sv' x" for x
    by (simp add: sess_ok_def set_session_def room_names_def)
  have "sess_ok pr M sv' x" if "x \<in> set (sv_sessions sv)" for x
    using assms(1,4) that sess_ok_grow by (auto simp: lines_ok_def)
  then have "sess_ok pr M sv' x" if "x \<in> set ((sv_sessions sv)[i := s])" for x
    using that assms(2) set_update_subset_insert by fastforce
  then show ?thesis
    using assms(3,5) by (auto simp: lines_ok_def names) (auto simp: set_session_def chans_ok_def)
qed

lemma sess_ok_nth: "lines_ok pr M sv \<Longrightarrow> i < length (sv_sessions sv) \<Longrightarrow> sess_ok pr M sv (sv_sessions sv ! i)"
  by (simp add: lines_ok_def)

lemma reply_lines_ok:
  assumes "lines_ok pr M sv" "i < length (sv_sessions sv)" "good_line pr M (room_names sv) l" "chans_ok M sv'"
    "sv_rooms sv' = sv_rooms sv" "length (sv_chans sv') = length (sv_chans sv)"
    "sv_sessions sv' = sv_sessions sv"
  shows "lines_ok pr M (reply i l sv')"
proof -
  let ?s = "sv_sessions sv ! i"
  have "sess_ok pr M sv' (?s\<lparr>ss_out := chan_write l (ss_out ?s)\<rparr>)"
    using sess_ok_nth [OF assms(1,2)] assms(3,5,6)
    by (auto simp: sess_ok_def room_names_def)
  from lines_ok_session [OF assms(1) this assms(4) rooms_grow_same [OF assms(5,6)] assms(7)] assms(7)
  show ?thesis by (simp add: reply_def Let_def)
qed

lemma sub_to_room_names:
  assumes "sub_to_room k sv = (c, sv')" "k < length (sv_rooms sv)"
  shows "rooms_grow sv sv'" "sv_sessions sv' = sv_sessions sv" "length (sv_rooms sv') = length (sv_rooms sv)"
    "c < length (sv_chans sv')"
proof -
  have "(tr_id r, tr_name r) \<in> room_names sv'" if "r \<in> set (sv_rooms sv)" for r
  proof -
    from that obtain j where j: "j < length (sv_rooms sv)" "r = sv_rooms sv ! j" by (auto simp: in_set_conv_nth)
    from assms have "length (sv_rooms sv') = length (sv_rooms sv)" "tr_id (sv_rooms sv' ! j) = tr_id r"
      "tr_name (sv_rooms sv' ! j) = tr_name r"
      using j by (auto simp: sub_to_room_def Let_def nth_list_update)
    with room_names_nth [of j sv'] j show ?thesis by simp
  qed
  then show "rooms_grow sv sv'" using assms
    by (auto simp: rooms_grow_def sub_to_room_def Let_def) (auto simp: room_names_def)
qed (use assms in \<open>auto simp: sub_to_room_def Let_def\<close>)

lemma sub_to_room_chans_ok: "sub_to_room k sv = (c, sv') \<Longrightarrow> chans_ok M sv \<Longrightarrow> chans_ok M sv'"
  by (auto simp: chans_ok_def new_chan_def dest!: sub_to_room_chans)

lemma sess_ok_pc:
  "sess_ok pr M sv s \<Longrightarrow> pc_rooms pc \<subseteq> {..<length (sv_rooms sv)} \<Longrightarrow>
   pc_chans pc \<subseteq> {..<length (sv_chans sv)} \<Longrightarrow> sess_ok pr M sv (s\<lparr>ss_pc := pc\<rparr>)"
  by (simp add: sess_ok_def)

lemma enter_lines_ok:
  assumes "lines_ok pr M sv" "i < length (sv_sessions sv)" "k < length (sv_rooms sv)" "sub_to_room k sv = (c, sv')"
  shows "lines_ok pr M (set_session i ((sv_sessions sv' ! i)\<lparr>ss_pc := Joined c k b\<rparr>) sv')"
proof -
  note n = sub_to_room_names [OF assms(4,3)]
  have "sess_ok pr M sv' (sv_sessions sv' ! i)"
    using sess_ok_grow [OF sess_ok_nth [OF assms(1,2)] n(1)] n(2) by simp
  then show ?thesis using assms n(3,4)
    by (intro lines_ok_session [OF assms(1) sess_ok_pc _ n(1,2)] sub_to_room_chans_ok [OF assms(4)])
      (auto simp: lines_ok_def)
qed

lemma joined_lines_ok:
  assumes "lines_ok pr M sv" "i < length (sv_sessions sv)" "handle_sub data subs sv = r"
    "\<And>e. r = Inl e \<Longrightarrow> lit ''Failed: '' @ e \<in> set refusals"
  shows "lines_ok pr M (joined i r sv)"
proof (cases r)
  case (Inl e)
  with assms(4) have "good_line pr M (room_names sv) ((lit ''Failed: '' @ e) @ [10])"
    unfolding good_line_def by blast
  moreover have "chans_ok M sv" using assms(1) by (simp add: lines_ok_def)
  ultimately show ?thesis using reply_lines_ok [OF assms(1,2)] by (simp add: joined_def Inl)
next
  case (Inr x)
  obtain c k sv' where x: "x = (c, k, sv')" by (cases x)
  with Inr assms(3) handle_sub_Inr have "k < length (sv_rooms sv)" "sub_to_room k sv = (c, sv')" by blast+
  from enter_lines_ok [OF assms(1,2) this] Inr x show ?thesis by (simp add: joined_def)
qed

lemma add_room_grow: "rooms_grow sv (add_room name sv)"
  by (auto simp: rooms_grow_def room_names_def add_room_def)

lemma created_lines_ok:
  assumes "lines_ok pr M sv" "i < length (sv_sessions sv)"
  shows "lines_ok pr M (created i (Inr (length (sv_rooms sv), add_room name sv)) sv)"
proof -
  have a: "sv_sessions (add_room name sv) = sv_sessions sv" "chans_ok M (add_room name sv)"
    "length (sv_rooms (add_room name sv)) = Suc (length (sv_rooms sv))"
    using assms(1) by (simp_all add: add_room_def lines_ok_def chans_ok_def)
  have "sess_ok pr M (add_room name sv) (sv_sessions sv ! i)"
    using sess_ok_grow [OF sess_ok_nth [OF assms] add_room_grow] by simp
  with a show ?thesis unfolding created_def
    by (simp add: lines_ok_session [OF assms(1) sess_ok_pc _ add_room_grow])
qed

lemma end_session_lines_ok:
  assumes "lines_ok pr M sv" "i < length (sv_sessions sv)"
  shows "lines_ok pr M (end_session i sv)"
proof -
  let ?s = "sv_sessions sv ! i"
  let ?sv = "sv\<lparr>sv_chans := fold (\<lambda>(k, c) cs. cs[c := chan_close (cs ! c)]) (ss_subs ?s) (sv_chans sv)\<rparr>"
  have "set (sc_queue (sv_chans ?sv ! c)) \<subseteq> M" if "c < length (sv_chans sv)" for c
    using assms(1) that by (simp add: close_all_nth lines_ok_def chans_ok_def)
  then have "chans_ok M ?sv" by (intro chans_okI) (simp add: length_close_all)
  moreover have "sess_ok pr M ?sv (?s\<lparr>ss_pc := Ended, ss_out := chan_close (ss_out ?s)\<rparr>)"
    using sess_ok_nth [OF assms] by (simp add: sess_ok_def room_names_def length_close_all)
  ultimately show ?thesis unfolding end_session_def Let_def
    by (intro lines_ok_session [OF assms(1)]) (simp_all add: rooms_grow_same length_close_all)
qed

lemma broadcast_chans_ok:
  assumes "srv_inv sv" "chans_ok M sv" "k < length (sv_rooms sv)" "m \<in> M"
  shows "chans_ok M (broadcast m k own sv)"
proof -
  have "set (sc_queue (sv_chans (broadcast m k own sv) ! c)) \<subseteq> M" if "c < length (sv_chans sv)" for c
    using assms(2,4) that unfolding broadcast_spec [OF assms(1,3)] by (auto simp: chans_ok_def)
  then show ?thesis by (intro chans_okI) simp
qed

lemma broadcast_lines_ok:
  assumes "srv_inv sv" "lines_ok pr M sv" "k < length (sv_rooms sv)" "m \<in> M"
  shows "lines_ok pr M (broadcast m k own sv)"
proof -
  have "sess_ok pr M (broadcast m k own sv) s = sess_ok pr M sv s" for s
    by (simp add: sess_ok_def room_names_def)
  moreover have "sv_sessions (broadcast m k own sv) = sv_sessions sv" by simp
  ultimately show ?thesis using assms broadcast_chans_ok by (simp add: lines_ok_def)
qed

section \<open>A line of a client\<close>

lemma handle_sub_Inl:
  assumes "handle_sub [(lit ''grp'', JNum (PosInt rid)), ty] subs sv = Inl e"
  shows "lit ''Failed: '' @ e \<in> set refusals"
  using assms
  by (auto simp: handle_sub_def parse_id_def refusals_def lit_def split: if_splits option.splits prod.splits)

lemma handle_msg_lines_ok:
  assumes "srv_inv sv" "lines_ok pr M sv" "i < length (sv_sessions sv)" "m \<in> M"
  shows "lines_ok pr M (handle_msg i [(lit ''grp'', JNum (PosInt rid)), (lit ''msg'', JStr m), ty] sv)"
proof -
  have good: "good_line pr M (room_names sv) (t @ [10])" if "t \<in> set refusals" for t
    using that by (auto simp: good_line_def)
  have r: "good_line pr M (room_names sv) (lit ''not subscribed to this room'' @ [10])"
    "good_line pr M (room_names sv) ((lit ''Failed to send msg: '' @ lit ''grp not found'') @ [10])"
    by (rule good; simp add: refusals_def; simp add: lit_def)+
  have chans: "chans_ok M sv" using assms(2) by (simp add: lines_ok_def)
  show ?thesis
  proof (cases "try_find_room rid sv")
    case None
    then show ?thesis using reply_lines_ok [OF assms(2,3) r(2) chans]
      by (simp add: handle_msg_def parse_message_def parse_id_def)
  next
    case (Some k)
    then have "k < length (sv_rooms sv)"
      using find_index_Some [of "\<lambda>k. tr_id (sv_rooms sv ! k) = rid"] by (simp add: try_find_room_def)
    with Some show ?thesis
      using reply_lines_ok [OF assms(2,3) r(1) chans] broadcast_lines_ok [OF assms(1,2) _ assms(4)]
      by (simp add: handle_msg_def parse_message_def parse_id_def split: option.split)
  qed
qed

fun command_text :: "to_server \<Rightarrow> ustring set" where
  "command_text (SendMessage rid m) = {m}"
| "command_text _ = {}"

lemma handle_line_lines_ok:
  assumes "srv_inv sv" "lines_ok pr M sv" "i < length (sv_sessions sv)" "takes parse l c"
    "command_text c \<subseteq> M"
  shows "lines_ok pr M (handle_line parse i l sv)"
  unfolding handle_line_command [OF assms(4)]
proof (cases c)
  case (Subscribe rid)
  show "lines_ok pr M (case c of
       Subscribe rid \<Rightarrow> joined i (handle_sub [(lit ''grp'', JNum (PosInt rid)), (lit ''type'', JStr (lit ''sub''))]
            (ss_subs (sv_sessions sv ! i)) sv) sv
     | CreateAndSubscribe name \<Rightarrow> created i
         (handle_create_and_sub [(lit ''grp_name'', JStr name), (lit ''type'', JStr (lit ''csub''))] sv) sv
     | SendMessage rid m \<Rightarrow> handle_msg i
         [(lit ''grp'', JNum (PosInt rid)), (lit ''msg'', JStr m), (lit ''type'', JStr (lit ''msg''))] sv
     | Disconnect \<Rightarrow> end_session i sv)"
    unfolding Subscribe to_server.case
    by (rule joined_lines_ok [OF assms(2,3) refl]) (rule handle_sub_Inl)
qed (use assms created_lines_ok [OF assms(2,3)] end_session_lines_ok [OF assms(2,3)]
    handle_msg_lines_ok [OF assms(1-3)] in \<open>simp_all add: handle_create_and_sub_def\<close>)

section \<open>The other steps\<close>

text \<open>
  The steps the server takes by itself. A send that transmits only a part is left out: what it
  does to the lines is shown in \<open>Net_Guarantees\<close>.
\<close>

fun by_itself :: "srv_label \<Rightarrow> bool" where
  "by_itself Accept = False"
| "by_itself (Line i l) = False"
| "by_itself (WriteOut i (SentPart n)) = False"
| "by_itself _ = True"

lemma set_session_lines_ok:
  assumes "lines_ok pr M sv" "sess_ok pr M sv s"
  shows "lines_ok pr M (set_session i s sv)"
  by (rule lines_ok_session [OF assms _ rooms_grow_refl refl]) (use assms(1) in \<open>simp add: lines_ok_def\<close>)

lemma accept_lines_ok: "lines_ok pr M sv \<Longrightarrow> lines_ok pr M (sv\<lparr>sv_sessions := sv_sessions sv @ [new_session]\<rparr>)"
proof -
  assume a: "lines_ok pr M sv"
  let ?sv = "sv\<lparr>sv_sessions := sv_sessions sv @ [new_session]\<rparr>"
  have "sess_ok pr M ?sv s = sess_ok pr M sv s" for s by (simp add: sess_ok_def room_names_def)
  moreover have "sess_ok pr M sv new_session"
    unfolding sess_ok_def new_session_def new_chan_def by (auto intro: exI [of _ "[]"])
  ultimately show ?thesis using a by (simp add: lines_ok_def chans_ok_def)
qed

lemma spawn_lines_ok:
  assumes "lines_ok pr M sv" "i < length (sv_sessions sv)" "spawn_listener i sv = Some sv'"
  shows "lines_ok pr M sv'"
  using assms(3) sess_ok_nth [OF assms(1,2)]
  by (auto simp: spawn_listener_def Let_def sess_ok_def intro!: set_session_lines_ok [OF assms(1)]
      split: session_pc.splits)

lemma confirm_lines_ok:
  assumes "lines_ok pr M sv" "i < length (sv_sessions sv)" "confirm pr i sv = Some sv'"
  shows "lines_ok pr M sv'"
proof -
  let ?s = "sv_sessions sv ! i"
  from assms(3) obtain k b where k: "ss_pc ?s = Confirming k b"
    "sv' = reply i (pr (ok_json b (tr_id (sv_rooms sv ! k)) (tr_name (sv_rooms sv ! k))) @ [10])
       (set_session i (?s\<lparr>ss_pc := Reading\<rparr>) sv)"
    by (auto simp: confirm_def Let_def ok_json_def split: session_pc.splits)
  have ok: "sess_ok pr M sv ?s" by (rule sess_ok_nth [OF assms(1,2)])
  then have "k < length (sv_rooms sv)" using k(1) by (simp add: sess_ok_def)
  then have "good_line pr M (room_names sv)
      (pr (ok_json b (tr_id (sv_rooms sv ! k)) (tr_name (sv_rooms sv ! k))) @ [10])"
    using room_names_nth [of k sv] unfolding good_line_def by blast
  moreover have "lines_ok pr M (set_session i (?s\<lparr>ss_pc := Reading\<rparr>) sv)"
    by (rule set_session_lines_ok [OF assms(1) sess_ok_pc [OF ok]]) simp_all
  moreover have "room_names (set_session i (?s\<lparr>ss_pc := Reading\<rparr>) sv) = room_names sv"
    "length (sv_sessions (set_session i (?s\<lparr>ss_pc := Reading\<rparr>) sv)) = length (sv_sessions sv)"
    by (simp_all add: set_session_def room_names_def)
  ultimately show ?thesis unfolding k(2) using assms(2)
    by (intro reply_lines_ok [where sv = "set_session i (?s\<lparr>ss_pc := Reading\<rparr>) sv"])
      (simp_all add: lines_ok_def)
qed

lemma forward_lines_ok:
  assumes "lines_ok pr M sv" "i < length (sv_sessions sv)" "forward pr i c sv = Some sv'"
  shows "lines_ok pr M sv'"
proof -
  from assms(3) obtain k m q where k: "map_of (ss_listeners (sv_sessions sv ! i)) c = Some k"
    "sc_queue (sv_chans sv ! c) = m # q"
    "sv' = reply i (pr (relay_json m (tr_name (sv_rooms sv ! k))) @ [10])
       (sv\<lparr>sv_chans := (sv_chans sv)[c := (sv_chans sv ! c)\<lparr>sc_queue := q\<rparr>]\<rparr>)"
    by (auto simp: forward_def chan_read_got split: option.splits chan_read.splits)
  have ck: "(c, k) \<in> set (ss_listeners (sv_sessions sv ! i))" by (rule map_of_SomeD [OF k(1)])
  with sess_ok_nth [OF assms(1,2)] have ranges: "k < length (sv_rooms sv)" "c < length (sv_chans sv)"
    by (force simp: sess_ok_def)+
  have chans: "set (sc_queue (sv_chans sv ! d)) \<subseteq> M" if "d < length (sv_chans sv)" for d
    using assms(1) that by (simp add: lines_ok_def chans_ok_def)
  have "m \<in> M" using chans [OF ranges(2)] k(2) by simp
  then have "good_line pr M (room_names sv) (pr (relay_json m (tr_name (sv_rooms sv ! k))) @ [10])"
    using room_names_nth [OF ranges(1)] unfolding good_line_def by blast
  moreover have "chans_ok M (sv\<lparr>sv_chans := (sv_chans sv)[c := (sv_chans sv ! c)\<lparr>sc_queue := q\<rparr>]\<rparr>)"
    by (rule chans_okI) (use chans k(2) chans [OF ranges(2)] in \<open>auto simp: nth_list_update ranges(2)\<close>)
  ultimately show ?thesis unfolding k(3) by (intro reply_lines_ok [OF assms(1,2)]) simp_all
qed

lemma write_lines_ok:
  assumes "lines_ok pr M sv" "i < length (sv_sessions sv)" "write_out i w sv = Some sv'" "\<And>n. w \<noteq> SentPart n"
  shows "lines_ok pr M sv'"
proof -
  let ?s = "sv_sessions sv ! i"
  from assms(3) obtain m q where m: "sc_queue (ss_out ?s) = m # q" "sv' = set_session i
      (if ss_pc ?s = Ended then ?s\<lparr>ss_out := (ss_out ?s)\<lparr>sc_queue := q\<rparr>, ss_writing := False, ss_dangling := True\<rparr>
       else case w of
         SentAll \<Rightarrow> ?s\<lparr>ss_out := (ss_out ?s)\<lparr>sc_queue := q\<rparr>, ss_wire := ss_wire ?s @ as_bytes m\<rparr>
       | SentPart n \<Rightarrow> ?s\<lparr>ss_out := (ss_out ?s)\<lparr>sc_queue := q\<rparr>, ss_wire := ss_wire ?s @ take n (as_bytes m)\<rparr>
       | SendFailed \<Rightarrow> ?s\<lparr>ss_out := (ss_out ?s)\<lparr>sc_queue := q\<rparr>, ss_writing := False\<rparr>) sv"
    by (auto simp: write_out_def Let_def chan_read_got split: chan_read.splits if_splits)
  have ok: "sess_ok pr M sv ?s" by (rule sess_ok_nth [OF assms(1,2)])
  then obtain ls where ls: "ss_wire ?s = concat (map as_bytes ls)" "\<forall>l\<in>set ls. good_line pr M (room_names sv) l"
    by (auto simp: sess_ok_def)
  have "\<exists>ks. ss_wire ?s @ as_bytes m = concat (map as_bytes ks) \<and> (\<forall>l\<in>set ks. good_line pr M (room_names sv) l)"
    using ls ok m(1) by (intro exI [of _ "ls @ [m]"]) (auto simp: sess_ok_def)
  with ok m show ?thesis using assms(4)
    by (auto simp: sess_ok_def intro!: set_session_lines_ok [OF assms(1)] split: send_outcome.split)
qed

lemma listener_waits_lines_ok:
  assumes "lines_ok pr M sv" "listener_waits i c sv = Some sv'"
  shows "lines_ok pr M sv'"
proof -
  from assms(2) obtain ch where ch: "chan_read (sv_chans sv ! c) = ReadWaits ch"
    "sv' = sv\<lparr>sv_chans := (sv_chans sv)[c := ch]\<rparr>"
    by (auto simp: listener_waits_def split: option.splits chan_read.splits)
  have old: "set (sc_queue (sv_chans sv ! d)) \<subseteq> M" if "d < length (sv_chans sv)" for d
    using assms(1) that by (simp add: lines_ok_def chans_ok_def)
  have "chans_ok M sv'"
    by (rule chans_okI) (use chan_read_waits [OF ch(1)] old in \<open>simp add: ch(2) update_keeps [of sc_queue]\<close>)
  moreover have "sess_ok pr M sv' s = sess_ok pr M sv s" for s by (simp add: ch(2) sess_ok_def room_names_def)
  moreover have "sv_sessions sv' = sv_sessions sv" by (simp add: ch(2))
  ultimately show ?thesis using assms(1) by (simp add: lines_ok_def)
qed

lemma by_itself_lines_ok:
  assumes "lines_ok pr M sv" "by_itself l" "srv_exec pr parse l sv = Some sv'"
  shows "lines_ok pr M sv'"
proof (cases l)
  case Shutdown
  have "sess_ok pr M (sv\<lparr>sv_accepting := False\<rparr>) s = sess_ok pr M sv s" for s
    by (simp add: sess_ok_def room_names_def)
  with Shutdown assms show ?thesis by (auto simp: lines_ok_def chans_ok_def)
next
  case (Hangup i)
  with assms show ?thesis by (auto intro: end_session_lines_ok split: if_splits)
next
  case (Enroll i)
  with assms obtain k c sv1 where k: "ss_pc (sv_sessions sv ! i) = Creating k" "i < length (sv_sessions sv)"
    "sub_to_room k sv = (c, sv1)" "sv' = set_session i ((sv_sessions sv1 ! i)\<lparr>ss_pc := Joined c k True\<rparr>) sv1"
    by (auto simp: enroll_def case_prod_beta prod_eq_iff split: session_pc.splits if_splits)
  with sess_ok_nth [OF assms(1)] have "k < length (sv_rooms sv)" by (force simp: sess_ok_def)
  with k show ?thesis by (simp add: enter_lines_ok [OF assms(1)])
next
  case (LeaveRoom i c)
  with assms sess_ok_nth [OF assms(1), of i] show ?thesis
    by (auto simp: leave_room_def Let_def intro!: set_session_lines_ok [OF assms(1)] sess_ok_listeners split: if_splits)
next
  case (WriterEnds i)
  with assms sess_ok_nth [OF assms(1), of i] show ?thesis
    by (auto simp: writer_ends_def Let_def sess_ok_def intro!: set_session_lines_ok [OF assms(1)] split: if_splits)
next
  case (WriteOut i w)
  with assms(2) have "w \<noteq> SentPart n" for n by auto
  with WriteOut assms write_lines_ok [OF assms(1), of i w sv'] show ?thesis by (auto split: if_splits)
next
  case (WriterWaits i)
  with assms sess_ok_nth [OF assms(1), of i] show ?thesis
    by (auto simp: writer_waits_def Let_def sess_ok_def dest!: chan_read_waits
        intro!: set_session_lines_ok [OF assms(1)] split: chan_read.splits if_splits)
qed (use assms in \<open>auto intro: spawn_lines_ok confirm_lines_ok forward_lines_ok listener_waits_lines_ok split: if_splits\<close>)

section \<open>What only grows\<close>

definition server_grows :: "server \<Rightarrow> server \<Rightarrow> bool" where
  "server_grows sv sv' \<longleftrightarrow>
     room_names sv \<subseteq> room_names sv' \<and> length (sv_sessions sv') = length (sv_sessions sv) \<and>
     (\<forall>i<length (sv_sessions sv). prefix (ss_wire (sv_sessions sv ! i)) (ss_wire (sv_sessions sv' ! i)))"

lemma server_grows_refl [simp]: "server_grows sv sv"
  by (simp add: server_grows_def)

lemma server_grows_session:
  assumes "prefix (ss_wire (sv_sessions sv ! i)) (ss_wire s)" "sv_sessions sv1 = sv_sessions sv"
    "room_names sv \<subseteq> room_names sv1"
  shows "server_grows sv (set_session i s sv1)"
proof -
  have "prefix (ss_wire (sv_sessions sv ! j)) (ss_wire ((sv_sessions sv)[i := s] ! j))"
    if "j < length (sv_sessions sv)" for j
    using assms(1) that by (cases "j = i") simp_all
  with assms(2,3) show ?thesis by (simp add: server_grows_def set_session_def room_names_def)
qed

lemma server_grows_reply:
  assumes "sv_sessions sv1 = sv_sessions sv" "sv_rooms sv1 = sv_rooms sv"
  shows "server_grows sv (reply i l sv1)"
  unfolding reply_def Let_def by (rule server_grows_session) (use assms in \<open>simp_all add: room_names_def\<close>)

lemma joined_grows: "server_grows sv (joined i (handle_sub data subs sv) sv)"
proof (cases "handle_sub data subs sv")
  case (Inl e)
  then show ?thesis by (simp add: joined_def server_grows_reply)
next
  case (Inr x)
  obtain c k sv' where x: "x = (c, k, sv')" by (cases x)
  with Inr handle_sub_Inr have k: "k < length (sv_rooms sv)" "sub_to_room k sv = (c, sv')" by blast+
  with sub_to_room_names [OF k(2,1)] Inr x show ?thesis
    by (simp add: joined_def rooms_grow_def server_grows_session)
qed

lemma created_grows: "server_grows sv (created i (handle_create_and_sub data sv) sv)"
proof (cases "handle_create_and_sub data sv")
  case (Inl e)
  then show ?thesis by (simp add: created_def server_grows_reply)
next
  case (Inr x)
  with handle_create_Inr obtain n where "x = (length (sv_rooms sv), add_room n sv)" by (cases x) blast
  with Inr add_room_grow [of sv n] show ?thesis
    by (simp add: created_def rooms_grow_def server_grows_session add_room_def)
qed

lemma end_session_grows: "server_grows sv (end_session i sv)"
  unfolding end_session_def Let_def by (rule server_grows_session) (simp_all add: room_names_def)

lemma handle_msg_grows: "server_grows sv (handle_msg i data sv)"
proof -
  have "server_grows sv (broadcast m k c sv)" for m k c
    by (simp add: server_grows_def room_names_def)
  then show ?thesis
    by (simp add: handle_msg_def server_grows_reply end_session_grows split: message_result.split option.split)
qed

lemma handle_line_grows: "server_grows sv (handle_line parse i l sv)"
  by (simp add: handle_line_def dispatch_def Let_def server_grows_reply joined_grows created_grows
      end_session_grows handle_msg_grows split: sum.split json.split option.split)

lemma srv_exec_grows:
  assumes "srv_exec pr parse l sv = Some sv'" "srv_inv sv" "l \<noteq> Accept"
  shows "server_grows sv sv'"
proof (cases l)
  case Shutdown
  with assms show ?thesis by (auto simp: server_grows_def room_names_def)
next
  case (Line i t)
  with assms show ?thesis by (auto simp: handle_line_grows split: if_splits)
next
  case (Hangup i)
  with assms show ?thesis by (auto simp: end_session_grows split: if_splits)
next
  case (Enroll i)
  with assms obtain k c sv1 where k: "ss_pc (sv_sessions sv ! i) = Creating k" "i < length (sv_sessions sv)"
    "sub_to_room k sv = (c, sv1)" "sv' = set_session i ((sv_sessions sv1 ! i)\<lparr>ss_pc := Joined c k True\<rparr>) sv1"
    by (auto simp: enroll_def case_prod_beta prod_eq_iff split: session_pc.splits if_splits)
  with assms(2) have "k < length (sv_rooms sv)" by (force simp: srv_inv_def owned_ok_def)
  with k sub_to_room_names [OF k(3)] show ?thesis by (simp add: rooms_grow_def server_grows_session)
next
  case (Confirm i)
  with assms show ?thesis
    by (auto simp: confirm_def Let_def reply_def set_session_def server_grows_def room_names_def nth_list_update
        split: session_pc.splits if_splits)
next
  case (Forward i c)
  with assms show ?thesis
    by (auto simp: forward_def intro!: server_grows_reply split: option.splits chan_read.splits if_splits)
next
  case (WriteOut i w)
  with assms show ?thesis
    by (cases w) (auto simp: write_out_def Let_def intro!: server_grows_session split: chan_read.splits if_splits)
next
  case (ListenerWaits i c)
  with assms show ?thesis
    by (auto simp: listener_waits_def server_grows_def room_names_def split: option.splits chan_read.splits if_splits)
qed (use assms in \<open>auto simp: spawn_listener_def leave_room_def writer_waits_def writer_ends_def Let_def
    intro!: server_grows_session split: session_pc.splits chan_read.splits if_splits\<close>)

end
