(* ===== verification/Chat_Net.thy ===== *)
theory Chat_Net
  imports Net_Client Net_Server
begin

text \<open>
  The server and any number of clients on one network. A session of the server is one end of a
  connection of some client, and the two streams of bytes between them are what each end has
  written (\<open>tk_wire\<close>, \<open>ss_wire\<close>) and how much of it the other end has read.

  A client may lose a connection at any moment (an end of the stream or an error of \<open>read_line\<close>),
  a session too (\<open>Hangup\<close>), and both may stop reading; what is read is what was written, line by
  line, which is what TCP and the two libraries promise.
\<close>

record ('c, 'e) net =
  nt_server :: server
  nt_clients :: "('c, 'e) system list"
  nt_links :: "(nat \<times> nat) list"
  nt_up :: "nat list"
  nt_down :: "nat list"

text \<open>
  \<open>nt_links ! s\<close> is the client and the connection of session \<open>s\<close>; \<open>nt_up ! s\<close> and \<open>nt_down ! s\<close> are the
  numbers of bytes the server and the client have read of it.
\<close>

definition init_net :: "nat \<Rightarrow> ('c, 'e) net" where
  "init_net n =
     \<lparr>nt_server = init_server, nt_clients = replicate n init_system, nt_links = [], nt_up = [],
      nt_down = []\<rparr>"

text \<open>
  \<open>ClientStep i l\<close>: a step of client \<open>i\<close> that reads no bytes; \<open>Connect i k\<close>: its connection \<open>k\<close> is
  accepted; \<open>Request s l\<close>: session \<open>s\<close> reads a line; \<open>Respond s\<close>: the client of session \<open>s\<close> reads a
  line; \<open>ServerStep l\<close>: any other step of the server.
\<close>

datatype net_label =
    ClientStep nat sys_label
  | Connect nat nat
  | Request nat ustring
  | Respond nat
  | ServerStep srv_label

fun reads_nothing :: "sys_label \<Rightarrow> bool" where
  "reads_nothing (Task k (DoConnect None)) = False"
| "reads_nothing (Task k (DoRead (ReadLine l))) = (l = [])"
| "reads_nothing _ = True"

text \<open>What \<open>read_line\<close> returns for the bytes of a line.\<close>

definition read_result :: "nat list \<Rightarrow> read_outcome" where
  "read_result bs =
     (case utf8_decode bs of
        Some l \<Rightarrow> ReadLine l
      | None \<Rightarrow> ReadErr (lit ''stream did not contain valid UTF-8''))"

definition client_exec ::
  "('c, 'e) runtime \<Rightarrow> profile \<Rightarrow> nat \<Rightarrow> sys_label \<Rightarrow> ('c, 'e) net \<Rightarrow> ('c, 'e) net option" where
  "client_exec rt p i l N =
     (if i < length (nt_clients N)
      then map_option (\<lambda>S. N\<lparr>nt_clients := (nt_clients N)[i := S]\<rparr>) (sys_exec rt p l (nt_clients N ! i))
      else None)"

definition link_task :: "('c, 'e) net \<Rightarrow> nat \<Rightarrow> ('c, 'e) conn_task" where
  "link_task N s = sy_conns (nt_clients N ! fst (nt_links N ! s)) ! snd (nt_links N ! s)"

definition link_session :: "('c, 'e) net \<Rightarrow> nat \<Rightarrow> session" where
  "link_session N s = sv_sessions (nt_server N) ! s"

fun net_exec ::
  "('c, 'e) runtime \<Rightarrow> profile \<Rightarrow> (json \<Rightarrow> ustring) \<Rightarrow> (ustring \<Rightarrow> ustring + json) \<Rightarrow>
   net_label \<Rightarrow> ('c, 'e) net \<Rightarrow> ('c, 'e) net option" where
  "net_exec rt p pr parse (ClientStep i l) N =
     (if reads_nothing l then client_exec rt p i l N else None)"
| "net_exec rt p pr parse (Connect i k) N =
     Option.bind (client_exec rt p i (Task k (DoConnect None)) N) (\<lambda>N.
     map_option (\<lambda>sv. N\<lparr>nt_server := sv, nt_links := nt_links N @ [(i, k)], nt_up := nt_up N @ [0],
                        nt_down := nt_down N @ [0]\<rparr>)
       (srv_exec pr parse Accept (nt_server N)))"
| "net_exec rt p pr parse (Request s l) N =
     (if s < length (nt_links N) then
        case next_line (drop (nt_up N ! s) (tk_wire (link_task N s))) of
          None \<Rightarrow> None
        | Some (bs, rest) \<Rightarrow>
            if bs = as_bytes l
            then map_option (\<lambda>sv. N\<lparr>nt_server := sv, nt_up := (nt_up N)[s := nt_up N ! s + length bs]\<rparr>)
                   (srv_exec pr parse (Line s l) (nt_server N))
            else None
      else None)"
| "net_exec rt p pr parse (Respond s) N =
     (if s < length (nt_links N) then
        case next_line (drop (nt_down N ! s) (ss_wire (link_session N s))) of
          None \<Rightarrow> None
        | Some (bs, rest) \<Rightarrow>
            map_option (\<lambda>N. N\<lparr>nt_down := (nt_down N)[s := nt_down N ! s + length bs]\<rparr>)
              (client_exec rt p (fst (nt_links N ! s))
                 (Task (snd (nt_links N ! s)) (DoRead (read_result bs))) N)
      else None)"
| "net_exec rt p pr parse (ServerStep l) N =
     (if by_itself l then map_option (\<lambda>sv. N\<lparr>nt_server := sv\<rparr>) (srv_exec pr parse l (nt_server N))
      else None)"

inductive net_reachable ::
  "('c, 'e) runtime \<Rightarrow> profile \<Rightarrow> (json \<Rightarrow> ustring) \<Rightarrow> (ustring \<Rightarrow> ustring + json) \<Rightarrow>
   ('c, 'e) net \<Rightarrow> bool"
  for rt :: "('c, 'e) runtime" and p :: profile and pr :: "json \<Rightarrow> ustring"
    and parse :: "ustring \<Rightarrow> ustring + json" where
  start: "net_reachable rt p pr parse (init_net n)"
| step: "net_reachable rt p pr parse N \<Longrightarrow> net_exec rt p pr parse l N = Some N' \<Longrightarrow>
     net_reachable rt p pr parse N'"

lemma run_net_reachable:
  "run_schedule (net_exec rt p pr parse) ls N = Some N' \<Longrightarrow> net_reachable rt p pr parse N \<Longrightarrow>
   net_reachable rt p pr parse N'"
  by (induction ls arbitrary: N) (auto simp: bind_eq_Some_conv dest: net_reachable.step)

section \<open>Each end is the program of its own theory\<close>

lemma client_exec_cases:
  assumes "client_exec rt p i l N = Some N'"
  obtains S where "i < length (nt_clients N)" "sys_exec rt p l (nt_clients N ! i) = Some S"
    "N' = N\<lparr>nt_clients := (nt_clients N)[i := S]\<rparr>"
  using assms by (auto simp: client_exec_def split: if_splits)

lemma connect_cases:
  assumes "net_exec rt p pr parse (Connect i k) N = Some N'"
  obtains N1 sv where "client_exec rt p i (Task k (DoConnect None)) N = Some N1"
    "srv_exec pr parse Accept (nt_server N1) = Some sv"
    "N' = N1\<lparr>nt_server := sv, nt_links := nt_links N1 @ [(i, k)], nt_up := nt_up N1 @ [0],
             nt_down := nt_down N1 @ [0]\<rparr>"
  using assms by (auto simp: bind_eq_Some_conv simp del: srv_exec.simps)

lemma request_cases:
  assumes "net_exec rt p pr parse (Request s l) N = Some N'"
  obtains rest sv where "s < length (nt_links N)"
    "next_line (drop (nt_up N ! s) (tk_wire (link_task N s))) = Some (as_bytes l, rest)"
    "srv_exec pr parse (Line s l) (nt_server N) = Some sv"
    "N' = N\<lparr>nt_server := sv, nt_up := (nt_up N)[s := nt_up N ! s + length (as_bytes l)]\<rparr>"
  using assms by (auto simp del: srv_exec.simps split: if_splits option.splits prod.splits)

lemma respond_cases:
  assumes "net_exec rt p pr parse (Respond s) N = Some N'"
  obtains bs rest N1 where "s < length (nt_links N)"
    "next_line (drop (nt_down N ! s) (ss_wire (link_session N s))) = Some (bs, rest)"
    "client_exec rt p (fst (nt_links N ! s)) (Task (snd (nt_links N ! s)) (DoRead (read_result bs))) N = Some N1"
    "N' = N1\<lparr>nt_down := (nt_down N1)[s := nt_down N1 ! s + length bs]\<rparr>"
  using assms by (auto split: if_splits option.splits prod.splits)

definition ends_ok ::
  "('c, 'e) runtime \<Rightarrow> profile \<Rightarrow> (json \<Rightarrow> ustring) \<Rightarrow> (ustring \<Rightarrow> ustring + json) \<Rightarrow>
   ('c, 'e) net \<Rightarrow> bool" where
  "ends_ok rt p pr parse N \<longleftrightarrow>
     srv_reachable pr parse (nt_server N) \<and> (\<forall>S\<in>set (nt_clients N). sys_reachable rt p S)"

lemma client_exec_ends:
  assumes "client_exec rt p i l N = Some N'" "ends_ok rt p pr parse N"
  shows "ends_ok rt p pr parse N'"
  using assms(1)
proof (cases rule: client_exec_cases)
  case (1 S)
  then have "sys_reachable rt p S" using assms(2) by (auto simp: ends_ok_def intro: sys_reachable.step)
  with 1(3) assms(2) show ?thesis
    by (auto simp: ends_ok_def dest!: subsetD [OF set_update_subset_insert])
qed

lemma ends_ok_server:
  "ends_ok rt p pr parse N \<Longrightarrow> srv_exec pr parse l (nt_server N) = Some sv \<Longrightarrow>
   ends_ok rt p pr parse (N\<lparr>nt_server := sv\<rparr>)"
  by (auto simp: ends_ok_def intro: srv_reachable.step)

lemma ends_ok_links [simp]:
  "ends_ok rt p pr parse (N\<lparr>nt_links := xs\<rparr>) = ends_ok rt p pr parse N"
  "ends_ok rt p pr parse (N\<lparr>nt_up := us\<rparr>) = ends_ok rt p pr parse N"
  "ends_ok rt p pr parse (N\<lparr>nt_down := ds\<rparr>) = ends_ok rt p pr parse N"
  by (simp_all add: ends_ok_def)

lemma net_exec_ends:
  assumes "net_exec rt p pr parse l N = Some N'" "ends_ok rt p pr parse N"
  shows "ends_ok rt p pr parse N'"
proof (cases l)
  case (Connect i k)
  with assms(1) have "net_exec rt p pr parse (Connect i k) N = Some N'" by simp
  then show ?thesis
  proof (cases rule: connect_cases)
    case (1 N1 sv)
    from ends_ok_server [OF client_exec_ends [OF 1(1) assms(2)] 1(2)] 1(3) show ?thesis
      by (simp add: ends_ok_def)
  qed
next
  case (Request s t)
  with assms(1) have "net_exec rt p pr parse (Request s t) N = Some N'" by simp
  then show ?thesis
  proof (cases rule: request_cases)
    case (1 rest sv)
    from ends_ok_server [OF assms(2) 1(3)] 1(4) show ?thesis by (simp add: ends_ok_def)
  qed
next
  case (Respond s)
  with assms(1) have "net_exec rt p pr parse (Respond s) N = Some N'" by simp
  then show ?thesis
    by (cases rule: respond_cases) (use client_exec_ends [OF _ assms(2)] in simp)
next
  case (ServerStep sl)
  with assms ends_ok_server [OF assms(2)] show ?thesis by (auto split: if_splits)
qed (use assms client_exec_ends in \<open>auto split: if_splits\<close>)

lemma net_reachable_ends: "net_reachable rt p pr parse N \<Longrightarrow> ends_ok rt p pr parse N"
proof (induction rule: net_reachable.induct)
  case (start n)
  show ?case by (auto simp: ends_ok_def init_net_def intro: srv_reachable.start sys_reachable.start)
next
  case (step N l N')
  show ?case by (rule net_exec_ends [OF step.hyps(2) step.IH])
qed

end
