(* ===== verification/Server_Counts.thy ===== *)
theory Server_Counts
  imports Chat_Net
begin

text \<open>
  How often the server says a text to a client: every message that waits in a channel of a session,
  waits to be written to it or was written to it accounts for a request of another session, and no
  two of them for the same one.
\<close>

section \<open>The channels of a session\<close>

text \<open>The channels a session reads, each with its room, in the order in which it got them.\<close>

definition room_chans :: "session \<Rightarrow> (nat \<times> nat) list" where
  "room_chans s = ss_subs s @ (case ss_pc s of Joined c k b \<Rightarrow> [(k, c)] | _ \<Rightarrow> [])"

lemma set_room_chans: "set (room_chans s) = owned s"
  by (cases "ss_pc s") (auto simp: room_chans_def owned_def)

text \<open>
  A session has one channel in a room, it listens to the channels of its subscriptions, and a
  channel is in one room.
\<close>

definition hold_ok :: "session \<Rightarrow> bool" where
  "hold_ok s \<longleftrightarrow>
     distinct (map fst (room_chans s)) \<and> creating (ss_pc s) \<inter> fst ` set (ss_subs s) = {} \<and>
     set (ss_listeners s) \<subseteq> prod.swap ` set (ss_subs s)"

definition rooms_apart :: "tcp_chat_room list \<Rightarrow> bool" where
  "rooms_apart rs \<longleftrightarrow>
     (\<forall>j<length rs. \<forall>k<length rs. j \<noteq> k \<longrightarrow> set (tr_connections (rs ! j)) \<inter> set (tr_connections (rs ! k)) = {})"

definition hold_inv :: "server \<Rightarrow> bool" where
  "hold_inv sv \<longleftrightarrow> (\<forall>s\<in>set (sv_sessions sv). hold_ok s) \<and> rooms_apart (sv_rooms sv)"

lemma hold_ok_update: "\<forall>s\<in>set ss. hold_ok s \<Longrightarrow> hold_ok t \<Longrightarrow> s \<in> set (ss[i := t]) \<Longrightarrow> hold_ok s"
  using set_update_subset_insert [of ss i t] by blast

lemma hold_inv_session:
  assumes "hold_inv sv" "hold_ok s" "sv_sessions sv' = (sv_sessions sv)[i := s]" "sv_rooms sv' = sv_rooms sv"
  shows "hold_inv sv'"
  using assms by (auto simp: hold_inv_def intro: hold_ok_update)

lemma hold_inv_same: "hold_inv sv \<Longrightarrow> sv_sessions sv' = sv_sessions sv \<Longrightarrow> sv_rooms sv' = sv_rooms sv \<Longrightarrow> hold_inv sv'"
  by (simp add: hold_inv_def)

lemma hold_ok_nth: "hold_inv sv \<Longrightarrow> i < length (sv_sessions sv) \<Longrightarrow> hold_ok (sv_sessions sv ! i)"
  by (simp add: hold_inv_def)

lemma hold_ok_out [simp]:
  "hold_ok (s\<lparr>ss_out := ch\<rparr>) = hold_ok s"
  "hold_ok (s\<lparr>ss_writing := w\<rparr>) = hold_ok s"
  "hold_ok (s\<lparr>ss_wire := bs\<rparr>) = hold_ok s"
  "hold_ok (s\<lparr>ss_dangling := d\<rparr>) = hold_ok s"
  by (simp_all add: hold_ok_def room_chans_def)

lemma hold_inv_reply: "hold_inv sv \<Longrightarrow> hold_inv (reply i m sv)"
  by (cases "i < length (sv_sessions sv)")
    (auto simp: reply_def set_session_def Let_def hold_ok_nth list_update_beyond
      intro!: hold_inv_session [of sv "(sv_sessions sv ! i)\<lparr>ss_out := chan_write m (ss_out (sv_sessions sv ! i))\<rparr>" _ i]
      intro: hold_inv_same)

lemma hold_ok_done: "hold_ok s \<Longrightarrow> joining pc = {} \<Longrightarrow> creating pc = {} \<Longrightarrow> hold_ok (s\<lparr>ss_pc := pc\<rparr>)"
  by (cases pc) (auto simp: hold_ok_def room_chans_def)

lemma hold_inv_end_session:
  assumes "hold_inv sv" "i < length (sv_sessions sv)"
  shows "hold_inv (end_session i sv)"
  unfolding end_session_def Let_def
  by (rule hold_inv_session [OF assms(1), of "(sv_sessions sv ! i)\<lparr>ss_pc := Ended,
        ss_out := chan_close (ss_out (sv_sessions sv ! i))\<rparr>" _ i])
    (use hold_ok_done [OF hold_ok_nth [OF assms], of Ended] in \<open>auto simp: set_session_def\<close>)

lemma hold_inv_handle_msg: "hold_inv sv \<Longrightarrow> i < length (sv_sessions sv) \<Longrightarrow> hold_inv (handle_msg i data sv)"
  by (auto simp: handle_msg_def hold_inv_reply hold_inv_end_session
      intro: hold_inv_same split: message_result.split option.split)

text \<open>Joining a room that the session has no channel in.\<close>

lemma hold_inv_enter:
  assumes "srv_inv sv" "hold_inv sv" "i < length (sv_sessions sv)" "k < length (sv_rooms sv)"
    "sub_to_room k sv = (c, sv')" "k \<notin> fst ` set (ss_subs (sv_sessions sv ! i))"
  shows "hold_inv (set_session i ((sv_sessions sv' ! i)\<lparr>ss_pc := Joined c k b\<rparr>) sv')"
proof -
  let ?s = "sv_sessions sv ! i" and ?n = "length (sv_chans sv)"
  have sv': "c = ?n" "sv_sessions sv' = sv_sessions sv" "sv_rooms sv' =
      (sv_rooms sv)[k := (sv_rooms sv ! k)\<lparr>tr_connections := tr_connections (sv_rooms sv ! k) @ [c]\<rparr>]"
    using assms(5) by (auto simp: sub_to_room_def Let_def)
  have fresh: "c \<notin> set (tr_connections (sv_rooms sv ! j))" if "j < length (sv_rooms sv)" for j
    using assms(1) that sv'(1) by (auto simp: srv_inv_def room_ok_def)
  have "distinct (map fst (room_chans ?s))" "set (ss_listeners ?s) \<subseteq> prod.swap ` set (ss_subs ?s)"
    using hold_ok_nth [OF assms(2,3)] by (simp_all add: hold_ok_def)
  with assms(6) have ok: "hold_ok (?s\<lparr>ss_pc := Joined c k b\<rparr>)" by (auto simp: hold_ok_def room_chans_def)
  have "set (tr_connections (sv_rooms sv' ! j)) \<inter> set (tr_connections (sv_rooms sv' ! l)) = {}"
    if "j < length (sv_rooms sv)" "l < length (sv_rooms sv)" "j \<noteq> l" for j l
  proof -
    have "set (tr_connections (sv_rooms sv ! j)) \<inter> set (tr_connections (sv_rooms sv ! l)) = {}"
      using assms(2) that by (simp add: hold_inv_def rooms_apart_def)
    with fresh [OF that(1)] fresh [OF that(2)] that show ?thesis
      by (cases "j = k"; cases "l = k") (simp_all add: sv'(3))
  qed
  then have "rooms_apart (sv_rooms sv')" by (simp add: rooms_apart_def sv'(3))
  with ok show ?thesis using assms(2)
    by (auto simp: hold_inv_def set_session_def sv'(2) intro: hold_ok_update)
qed

lemma handle_sub_fresh:
  assumes "handle_sub data subs sv = Inr (c, k, sv')"
  shows "k \<notin> fst ` set subs"
  using assms find_index_Some [of "\<lambda>k. tr_id (sv_rooms sv ! k) = _" "length (sv_rooms sv)" k]
  by (auto simp: handle_sub_def try_find_room_def case_prod_beta prod_eq_iff list_ex_iff
      split: option.splits if_splits)

lemma hold_inv_joined:
  assumes "srv_inv sv" "hold_inv sv" "i < length (sv_sessions sv)"
  shows "hold_inv (joined i (handle_sub data (ss_subs (sv_sessions sv ! i)) sv) sv)"
proof (cases "handle_sub data (ss_subs (sv_sessions sv ! i)) sv")
  case (Inl e)
  with assms show ?thesis by (simp add: joined_def hold_inv_reply)
next
  case (Inr r)
  obtain c k sv' where r: "r = (c, k, sv')" by (cases r)
  with Inr handle_sub_Inr have "k < length (sv_rooms sv)" "sub_to_room k sv = (c, sv')" by blast+
  from hold_inv_enter [OF assms this] handle_sub_fresh Inr r show ?thesis by (simp add: joined_def)
qed

lemma hold_inv_created:
  assumes "srv_inv sv" "hold_inv sv" "i < length (sv_sessions sv)"
  shows "hold_inv (created i (handle_create_and_sub data sv) sv)"
proof (cases "handle_create_and_sub data sv")
  case (Inl e)
  with assms show ?thesis by (simp add: created_def hold_inv_reply)
next
  case (Inr r)
  obtain k sv' where r: "r = (k, sv')" by (cases r)
  with Inr handle_create_Inr obtain n where n: "k = length (sv_rooms sv)" "sv' = add_room n sv" by blast
  let ?s = "sv_sessions sv ! i"
  have "k \<notin> fst ` set (ss_subs ?s)" using owned_rooms(1) [OF assms(1,3)] n(1) by fastforce
  with hold_ok_nth [OF assms(2,3)] have "hold_ok (?s\<lparr>ss_pc := Creating k\<rparr>)"
    by (auto simp: hold_ok_def room_chans_def)
  moreover have "rooms_apart (sv_rooms sv')"
    using assms(2) by (auto simp: n(2) add_room_def nth_append hold_inv_def rooms_apart_def less_Suc_eq)
  ultimately show ?thesis using assms(2)
    by (auto simp: created_def Inr r hold_inv_def set_session_def n(2) add_room_def intro: hold_ok_update)
qed

lemma hold_inv_line:
  assumes "srv_inv sv" "hold_inv sv" "i < length (sv_sessions sv)"
  shows "hold_inv (handle_line parse i l sv)"
  using assms
  by (simp add: handle_line_def dispatch_def Let_def hold_inv_reply hold_inv_end_session hold_inv_handle_msg
      hold_inv_joined hold_inv_created split: sum.split json.split option.split)

lemma hold_inv_spawn:
  assumes "hold_inv sv" "i < length (sv_sessions sv)" "spawn_listener i sv = Some sv'"
  shows "hold_inv sv'"
proof -
  let ?s = "sv_sessions sv ! i"
  from assms(3) obtain c k b where pc: "ss_pc ?s = Joined c k b"
    by (auto simp: spawn_listener_def Let_def split: session_pc.splits)
  have ok: "hold_ok ?s" by (rule hold_ok_nth [OF assms(1,2)])
  with pc have new: "k \<notin> fst ` set (ss_subs ?s)" by (auto simp: hold_ok_def room_chans_def)
  let ?s' = "?s\<lparr>ss_pc := Confirming k b, ss_listeners := ss_listeners ?s @ [(c, k)],
    ss_subs := ss_subs ?s @ [(k, c)]\<rparr>"
  have "sv' = set_session i ?s' sv"
    using assms(3) pc new by (simp add: spawn_listener_def Let_def)
  moreover have "hold_ok ?s'" using ok pc by (auto simp: hold_ok_def room_chans_def)
  ultimately show ?thesis using hold_inv_session [OF assms(1), of ?s' sv' i] by (simp add: set_session_def)
qed

lemma hold_ok_leave: "hold_ok s \<Longrightarrow> hold_ok (s\<lparr>ss_listeners := filter P (ss_listeners s)\<rparr>)"
  by (auto simp: hold_ok_def room_chans_def)

lemma hold_inv_set_session: "hold_inv sv \<Longrightarrow> hold_ok s \<Longrightarrow> hold_inv (set_session i s sv)"
  by (rule hold_inv_session) (simp_all add: set_session_def)

lemma hold_inv_step:
  assumes "srv_inv sv" "hold_inv sv" "srv_exec pr parse l sv = Some sv'"
  shows "hold_inv sv'"
proof (cases l)
  case Accept
  have "hold_ok new_session" by (simp add: hold_ok_def room_chans_def new_session_def)
  with Accept assms show ?thesis by (auto simp: hold_inv_def split: if_splits)
next
  case Shutdown
  with assms show ?thesis by (auto intro: hold_inv_same)
next
  case (Enroll i)
  with assms(3) obtain k c sv1 where k: "ss_pc (sv_sessions sv ! i) = Creating k" "i < length (sv_sessions sv)"
    "sub_to_room k sv = (c, sv1)" "sv' = set_session i ((sv_sessions sv1 ! i)\<lparr>ss_pc := Joined c k True\<rparr>) sv1"
    by (auto simp: enroll_def case_prod_beta prod_eq_iff split: session_pc.splits if_splits)
  have "k < length (sv_rooms sv)" using assms(1) k(1,2) by (force simp: srv_inv_def owned_ok_def)
  moreover have "k \<notin> fst ` set (ss_subs (sv_sessions sv ! i))"
    using hold_ok_nth [OF assms(2) k(2)] k(1) by (simp add: hold_ok_def)
  ultimately show ?thesis unfolding k(4) using hold_inv_enter [OF assms(1,2) k(2) _ k(3)] by blast
next
  case (Confirm i)
  with assms show ?thesis
    by (auto simp: confirm_def Let_def intro!: hold_inv_reply hold_inv_set_session hold_ok_done hold_ok_nth
        split: session_pc.splits if_splits)
next
  case (Forward i c)
  with assms show ?thesis
    by (auto simp: forward_def intro!: hold_inv_reply hold_inv_same [OF assms(2)]
        split: option.splits chan_read.splits if_splits)
next
  case (WriteOut i w)
  with assms show ?thesis
    by (cases w) (auto simp: write_out_def Let_def intro!: hold_inv_set_session
        intro: hold_ok_nth split: chan_read.splits if_splits)
next
  case (ListenerWaits i c)
  with assms show ?thesis
    by (auto simp: listener_waits_def intro!: hold_inv_same [OF assms(2)]
        split: option.splits chan_read.splits if_splits)
qed (use assms in \<open>auto simp: hold_inv_line hold_inv_end_session hold_inv_spawn leave_room_def writer_waits_def
    writer_ends_def Let_def intro!: hold_inv_set_session hold_ok_leave intro: hold_ok_nth
    split: chan_read.splits if_splits\<close>)

lemma srv_reachable_hold: "srv_reachable pr parse sv \<Longrightarrow> hold_inv sv"
proof (induction rule: srv_reachable.induct)
  case start
  show ?case by (simp add: hold_inv_def rooms_apart_def init_server_def)
next
  case (step sv l sv')
  show ?case by (rule hold_inv_step [OF srv_reachable_inv [OF step.hyps(1)] step.IH step.hyps(2)])
qed

section \<open>What a client is told\<close>

text \<open>The texts of the messages a client reads in a line and in a stream of bytes.\<close>

fun message_texts :: "from_server \<Rightarrow> ustring list" where
  "message_texts (FS_Message g t) = [t]"
| "message_texts _ = []"

definition line_texts :: "(ustring \<Rightarrow> json option) \<Rightarrow> nat list \<Rightarrow> ustring list" where
  "line_texts cparse b = concat (map message_texts (fst (handle_read cparse (read_result b))))"

definition wire_texts :: "(ustring \<Rightarrow> json option) \<Rightarrow> nat list \<Rightarrow> ustring list" where
  "wire_texts cparse bs = concat (map (line_texts cparse) (arrived_lines bs))"

lemma wire_texts_lines:
  assumes "\<forall>l\<in>set ls. is_line l"
  shows "wire_texts p (concat (map as_bytes ls)) = concat (map (\<lambda>l. line_texts p (as_bytes l)) ls)"
  using arrived_lines_concat [OF assms, of "[]"] by (simp add: wire_texts_def comp_def)

definition waiting :: "chan list \<Rightarrow> (nat \<times> nat) list \<Rightarrow> ustring multiset" where
  "waiting cs xs = sum_list (map (\<lambda>(k, c). mset (sc_queue (cs ! c))) xs)"

text \<open>What was written to a session, waits to be written and waits in its channels.\<close>

definition told :: "(ustring \<Rightarrow> json option) \<Rightarrow> chan list \<Rightarrow> session \<Rightarrow> ustring multiset" where
  "told cparse cs s =
     mset (wire_texts cparse (ss_wire s)) +
     mset (concat (map (\<lambda>l. line_texts cparse (as_bytes l)) (sc_queue (ss_out s)))) + waiting cs (room_chans s)"

lemma waiting_simps [simp]:
  "waiting cs [] = {#}"
  "waiting cs (x # xs) = mset (sc_queue (cs ! snd x)) + waiting cs xs"
  "waiting cs (xs @ ys) = waiting cs xs + waiting cs ys"
  by (simp_all add: waiting_def case_prod_beta)

lemma waiting_cong:
  "(\<And>k c. (k, c) \<in> set xs \<Longrightarrow> sc_queue (cs' ! c) = sc_queue (cs ! c)) \<Longrightarrow> waiting cs' xs = waiting cs xs"
  by (induction xs) fastforce+

lemma waiting_mono:
  "(\<And>k c. (k, c) \<in> set xs \<Longrightarrow> mset (sc_queue (cs' ! c)) \<subseteq># mset (sc_queue (cs ! c))) \<Longrightarrow>
   waiting cs' xs \<subseteq># waiting cs xs"
proof (induction xs)
  case (Cons x xs)
  then show ?case by (cases x) (auto intro!: subset_mset.add_mono)
qed simp

text \<open>A message taken from a channel that is read.\<close>

lemma waiting_take:
  assumes "(k, c) \<in> set xs" "sc_queue (cs ! c) = m # q" "c < length cs"
  shows "add_mset m (waiting (cs[c := (cs ! c)\<lparr>sc_queue := q\<rparr>]) xs) \<subseteq># waiting cs xs"
proof -
  let ?cs = "cs[c := (cs ! c)\<lparr>sc_queue := q\<rparr>]"
  obtain ys zs where xs: "xs = ys @ (k, c) # zs" using assms(1) by (meson split_list)
  have "mset (sc_queue (?cs ! d)) \<subseteq># mset (sc_queue (cs ! d))" for d
    using assms(2,3) by (cases "d = c") auto
  then have "waiting ?cs ys \<subseteq># waiting cs ys" "waiting ?cs zs \<subseteq># waiting cs zs" by (auto intro: waiting_mono)
  then show ?thesis using assms(2,3) by (simp add: xs subset_mset.add_mono)
qed

text \<open>A message put into the channels of one room.\<close>

lemma waiting_room:
  assumes "distinct (map fst xs)"
    "\<And>j c. (j, c) \<in> set xs \<Longrightarrow>
       mset (sc_queue (cs' ! c)) \<subseteq># mset (sc_queue (cs ! c)) + (if j = k \<and> P then {#m#} else {#})"
  shows "waiting cs' xs \<subseteq># waiting cs xs + (if k \<in> fst ` set xs \<and> P then {#m#} else {#})"
  using assms
proof (induction xs)
  case (Cons x xs)
  obtain j c where x: "x = (j, c)" by (cases x)
  have rest: "waiting cs' xs \<subseteq># waiting cs xs + (if k \<in> fst ` set xs \<and> P then {#m#} else {#})"
    using Cons by auto
  have head: "mset (sc_queue (cs' ! c)) \<subseteq># mset (sc_queue (cs ! c)) + (if j = k \<and> P then {#m#} else {#})"
    using Cons.prems(2) [of j c] x by simp
  have "j = k \<Longrightarrow> k \<notin> fst ` set xs" using Cons.prems(1) x by auto
  with subset_mset.add_mono [OF head rest] show ?case by (auto simp: x split: if_splits)
qed simp

definition told_at :: "(ustring \<Rightarrow> json option) \<Rightarrow> server \<Rightarrow> nat \<Rightarrow> ustring multiset" where
  "told_at cparse sv j = told cparse (sv_chans sv) (sv_sessions sv ! j)"

section \<open>Steps that tell nothing new\<close>

lemma told_session:
  assumes "i < length (sv_sessions sv)"
  shows "told_at p (set_session i s sv) j =
    (if j = i then told p (sv_chans sv) s else told_at p sv j)"
  using assms by (simp add: told_at_def set_session_def)

lemma told_reply:
  assumes "i < length (sv_sessions sv)"
  shows "told_at p (reply i l sv) j \<subseteq>#
    told_at p sv j + (if j = i then mset (line_texts p (as_bytes l)) else {#})"
  using assms by (auto simp: reply_def Let_def set_session_def told_at_def told_def room_chans_def)

lemma room_chans_fields [simp]:
  "room_chans (s\<lparr>ss_out := ch\<rparr>) = room_chans s"
  "room_chans (s\<lparr>ss_wire := bs\<rparr>) = room_chans s"
  "room_chans (s\<lparr>ss_writing := w\<rparr>) = room_chans s"
  "room_chans (s\<lparr>ss_listeners := ls\<rparr>) = room_chans s"
  "room_chans (s\<lparr>ss_dangling := d\<rparr>) = room_chans s"
  by (simp_all add: room_chans_def)

lemma room_chans_done: "joining pc = {} \<Longrightarrow> joining (ss_pc s) = {} \<Longrightarrow> room_chans (s\<lparr>ss_pc := pc\<rparr>) = room_chans s"
  by (cases pc; cases "ss_pc s") (simp_all add: room_chans_def)

lemma close_all_queue: "sc_queue (fold (\<lambda>(k, c) cs. cs[c := chan_close (cs ! c)]) xs cs ! d) = sc_queue (cs ! d)"
proof (induction xs arbitrary: cs)
  case (Cons x xs)
  then show ?case
    by (cases x; cases "snd x = d"; cases "d < length cs") (simp_all add: list_update_beyond)
qed simp

lemma told_end_session:
  assumes "i < length (sv_sessions sv)" "joining (ss_pc (sv_sessions sv ! i)) = {}"
  shows "told_at p (end_session i sv) j = told_at p sv j"
proof -
  let ?cs = "fold (\<lambda>(k, c) cs. cs[c := chan_close (cs ! c)]) (ss_subs (sv_sessions sv ! i)) (sv_chans sv)"
  have "waiting ?cs xs = waiting (sv_chans sv) xs" for xs
    by (rule waiting_cong) (simp add: close_all_queue)
  moreover have "room_chans ((sv_sessions sv ! i)\<lparr>ss_pc := Ended, ss_out := ch\<rparr>) = room_chans (sv_sessions sv ! i)" for ch
    using room_chans_done [of Ended "sv_sessions sv ! i"] assms(2) by (simp add: room_chans_def)
  ultimately show ?thesis using assms(1)
    by (cases "j = i") (simp_all add: end_session_def Let_def set_session_def told_at_def told_def)
qed

lemma room_chans_range:
  assumes "srv_inv sv" "j < length (sv_sessions sv)" "(k, c) \<in> set (room_chans (sv_sessions sv ! j))"
  shows "k < length (sv_rooms sv)" "c \<in> set (tr_connections (sv_rooms sv ! k))" "c < length (sv_chans sv)"
proof -
  from assms show k: "k < length (sv_rooms sv)" "c \<in> set (tr_connections (sv_rooms sv ! k))"
    by (auto simp: set_room_chans srv_inv_def owned_ok_def)
  with assms(1) show "c < length (sv_chans sv)" by (auto simp: srv_inv_def room_ok_def)
qed

lemma told_new_chan:
  assumes "srv_inv sv" "j < length (sv_sessions sv)" "sv_chans sv' = sv_chans sv @ [new_chan]"
  shows "waiting (sv_chans sv') (room_chans (sv_sessions sv ! j)) = waiting (sv_chans sv) (room_chans (sv_sessions sv ! j))"
  by (rule waiting_cong) (simp add: assms(3) nth_append room_chans_range [OF assms(1,2)])

lemma told_enter:
  assumes "srv_inv sv" "i < length (sv_sessions sv)" "j < length (sv_sessions sv)"
    "joining (ss_pc (sv_sessions sv ! i)) = {}" "sub_to_room k sv = (c, sv')"
  shows "told_at p (set_session i ((sv_sessions sv' ! i)\<lparr>ss_pc := Joined c k b\<rparr>) sv') j =
    told_at p sv j"
proof -
  have sv': "sv_sessions sv' = sv_sessions sv" "c = length (sv_chans sv)" "sv_chans sv' = sv_chans sv @ [new_chan]"
    using assms(5) by (auto simp: sub_to_room_def Let_def)
  have "room_chans ((sv_sessions sv ! i)\<lparr>ss_pc := Joined c k b\<rparr>) = room_chans (sv_sessions sv ! i) @ [(k, c)]"
    using assms(4) by (cases "ss_pc (sv_sessions sv ! i)") (simp_all add: room_chans_def)
  with told_new_chan [OF assms(1,2) sv'(3)] told_new_chan [OF assms(1,3) sv'(3)] show ?thesis
    using assms(2) sv' by (cases "j = i") (simp_all add: set_session_def told_at_def told_def new_chan_def)
qed

lemma told_broadcast:
  assumes "srv_inv sv" "hold_inv sv" "k < length (sv_rooms sv)" "j < length (sv_sessions sv)"
    "i < length (sv_sessions sv)" "map_of (ss_subs (sv_sessions sv ! i)) k = Some own"
  shows "told_at p (broadcast m k own sv) j \<subseteq>#
    told_at p sv j + (if j = i then {#} else {#m#})"
proof -
  let ?h = "room_chans (sv_sessions sv ! j)"
  have dist: "distinct (map fst ?h)" using hold_ok_nth [OF assms(2,4)] by (simp add: hold_ok_def)
  have "mset (sc_queue (sv_chans (broadcast m k own sv) ! c)) \<subseteq>#
      mset (sc_queue (sv_chans sv ! c)) + (if l = k \<and> j \<noteq> i then {#m#} else {#})"
    if lc: "(l, c) \<in> set ?h" for l c
  proof (cases "c \<in> set (tr_connections (sv_rooms sv ! k)) \<and> c \<noteq> own")
    case True
    note r = room_chans_range [OF assms(1,4) lc]
    have l: "l = k" using assms(2,3) r(1,2) True by (auto simp: hold_inv_def rooms_apart_def)
    have "j \<noteq> i"
    proof
      assume "j = i"
      with map_of_SomeD [OF assms(6)] have "(k, own) \<in> set ?h" by (simp add: room_chans_def)
      with lc l dist have "c = own" by (auto dest: eq_key_imp_eq_value)
      with True show False by simp
    qed
    with l True show ?thesis unfolding broadcast_spec [OF assms(1,3)] by simp
  next
    case False
    then have "sv_chans (broadcast m k own sv) ! c = sv_chans sv ! c"
      unfolding broadcast_spec [OF assms(1,3)] by auto
    then show ?thesis by simp
  qed
  from waiting_room [OF dist this]
  have "waiting (sv_chans (broadcast m k own sv)) ?h \<subseteq>#
      waiting (sv_chans sv) ?h + (if j = i then {#} else {#m#})"
    by (rule subset_mset.order_trans) auto
  moreover have "sv_sessions (broadcast m k own sv) = sv_sessions sv" by simp
  ultimately show ?thesis unfolding told_at_def told_def by (simp add: ac_simps subset_mset.add_left_mono)
qed

section \<open>Every step\<close>

lemma read_result_line: "read_result (as_bytes l) = ReadLine l \<or> (\<exists>e. read_result (as_bytes l) = ReadErr e)"
proof (cases "utf8_decode (as_bytes l)")
  case (Some x)
  with utf8_decode_sound [OF Some] as_bytes_inj have "x = l" by blast
  with Some show ?thesis by (simp add: read_result_def)
qed (simp add: read_result_def)

text \<open>The texts of a request.\<close>

fun request_texts :: "to_server \<Rightarrow> ustring list" where
  "request_texts (SendMessage rid m) = [m]"
| "request_texts _ = []"

context wire_format
begin

lemma line_texts_bound:
  assumes "mset (concat (map message_texts (fst (handle_read cparse (ReadLine l))))) \<subseteq># M"
  shows "mset (line_texts cparse (as_bytes l)) \<subseteq># M"
  using assms read_result_line [of l] by (auto simp: line_texts_def simp del: handle_read.simps(1))

lemma relay_texts: "mset (line_texts cparse (as_bytes (spr (relay_json m name) @ [10]))) \<subseteq># {#m#}"
  by (rule line_texts_bound) (simp add: reads_relayed del: handle_read.simps)

lemma ok_texts: "line_texts cparse (as_bytes (spr (ok_json b rid name) @ [10])) = []"
proof -
  have "mset (line_texts cparse (as_bytes (spr (ok_json b rid name) @ [10]))) \<subseteq># {#}"
    by (rule line_texts_bound) (simp add: reads_confirmed del: handle_read.simps)
  then show ?thesis by simp
qed

lemma refusal_texts:
  assumes "t \<in> set refusals"
  shows "line_texts cparse (as_bytes (t @ [10])) = []"
proof -
  obtain evs k where r: "handle_read cparse (ReadLine (t @ [10])) = (evs, k)" by force
  have "message_texts ev = []" if "ev \<in> set evs" for ev
    using reads_refusal [OF assms r that] by auto
  then have "mset (line_texts cparse (as_bytes (t @ [10]))) \<subseteq># {#}"
    by (intro line_texts_bound) (simp add: r del: handle_read.simps)
  then show ?thesis by simp
qed

lemma told_reply_silent:
  assumes "i < length (sv_sessions sv)" "line_texts cparse (as_bytes l) = []"
  shows "told_at cparse (reply i l sv) j \<subseteq># told_at cparse sv j"
  using told_reply [OF assms(1), of cparse l j] assms(2) by (cases "j = i") simp_all

lemmas told_refusal = told_reply_silent [OF _ refusal_texts]

lemma told_msg:
  assumes "srv_inv sv" "hold_inv sv" "i < length (sv_sessions sv)" "j < length (sv_sessions sv)"
  shows "told_at cparse (handle_msg i [(lit ''grp'', JNum (PosInt rid)), (lit ''msg'', JStr m), ty] sv) j \<subseteq>#
    told_at cparse sv j + (if j = i then {#} else {#m#})"
proof -
  let ?T = "told_at cparse sv j"
  have r: "lit ''not subscribed to this room'' \<in> set refusals"
    "lit ''Failed to send msg: '' @ lit ''grp not found'' \<in> set refusals"
    by (simp add: refusals_def, simp add: refusals_def lit_def)
  have more: "X \<subseteq># ?T \<Longrightarrow> X \<subseteq># ?T + (if j = i then {#} else {#m#})" for X
    by (erule subset_mset.order_trans) simp
  show ?thesis
  proof (cases "try_find_room rid sv")
    case None
    then show ?thesis using more [OF told_refusal [OF assms(3) r(2), of j]]
      by (simp add: handle_msg_def parse_message_def parse_id_def)
  next
    case (Some k)
    then have k: "k < length (sv_rooms sv)"
      using find_index_Some [of "\<lambda>k. tr_id (sv_rooms sv ! k) = rid"] by (simp add: try_find_room_def)
    show ?thesis
    proof (cases "map_of (ss_subs (sv_sessions sv ! i)) k")
      case None
      with Some more [OF told_refusal [OF assms(3) r(1), of j]] show ?thesis
        by (simp add: handle_msg_def parse_message_def parse_id_def)
    next
      case own: (Some own)
      with Some told_broadcast [OF assms(1,2) k assms(4,3) own, of cparse m] show ?thesis
        by (simp add: handle_msg_def parse_message_def parse_id_def)
    qed
  qed
qed

lemma told_request:
  assumes "srv_inv sv" "hold_inv sv" "i < length (sv_sessions sv)" "j < length (sv_sessions sv)"
    "ss_pc (sv_sessions sv ! i) = Reading" "takes sparse l c"
  shows "told_at cparse (handle_line sparse i l sv) j \<subseteq>#
    told_at cparse sv j + (if j = i then {#} else mset (request_texts c))"
proof (cases c)
  case (Subscribe rid)
  let ?data = "[(lit ''grp'', JNum (PosInt rid)), (lit ''type'', JStr (lit ''sub''))]"
  let ?r = "handle_sub ?data (ss_subs (sv_sessions sv ! i)) sv"
  have "told_at cparse (joined i ?r sv) j \<subseteq># told_at cparse sv j"
  proof (cases ?r)
    case (Inl e)
    with told_refusal [OF assms(3) handle_sub_Inl [OF Inl], of j] show ?thesis by (simp add: joined_def)
  next
    case (Inr x)
    obtain d k sv' where x: "x = (d, k, sv')" by (cases x)
    with Inr handle_sub_Inr have "sub_to_room k sv = (d, sv')" by blast
    from told_enter [OF assms(1,3,4) _ this] assms(5) Inr x show ?thesis by (simp add: joined_def)
  qed
  with handle_line_command [OF assms(6)] Subscribe show ?thesis by (cases "j = i") simp_all
next
  case (CreateAndSubscribe name)
  have "room_chans ((sv_sessions sv ! i)\<lparr>ss_pc := Creating k\<rparr>) = room_chans (sv_sessions sv ! i)" for k
    using assms(5) by (simp add: room_chans_def)
  then have "told_at cparse (created i (Inr (k, add_room name sv)) sv) j = told_at cparse sv j" for k
    using assms(3) by (cases "j = i") (simp_all add: created_def add_room_def set_session_def told_at_def told_def)
  with handle_line_command [OF assms(6)] CreateAndSubscribe show ?thesis
    by (simp add: handle_create_and_sub_def)
next
  case (SendMessage rid m)
  then have "handle_line sparse i l sv =
      handle_msg i [(lit ''grp'', JNum (PosInt rid)), (lit ''msg'', JStr m), (lit ''type'', JStr (lit ''msg''))] sv"
    using handle_line_command [OF assms(6)] by simp
  with SendMessage told_msg [OF assms(1-4)] show ?thesis by (simp only: request_texts.simps mset.simps)
next
  case Disconnect
  with told_end_session [OF assms(3)] assms(5) handle_line_command [OF assms(6)] show ?thesis by simp
qed

text \<open>The steps that the server takes by itself.\<close>

lemma told_same:
  "sv_chans sv' = sv_chans sv \<Longrightarrow> sv_sessions sv' = sv_sessions sv \<Longrightarrow> told_at cparse sv' j = told_at cparse sv j"
  by (simp add: told_at_def)

lemma told_same_session:
  assumes "i < length (sv_sessions sv)" "room_chans s = room_chans (sv_sessions sv ! i)"
    "ss_wire s = ss_wire (sv_sessions sv ! i)" "ss_out s = ss_out (sv_sessions sv ! i)"
  shows "told_at cparse (set_session i s sv) j = told_at cparse sv j"
  using assms told_session [OF assms(1), of cparse s j] by (simp add: told_at_def told_def)

lemma told_confirm:
  assumes "i < length (sv_sessions sv)" "confirm spr i sv = Some sv'"
  shows "told_at cparse sv' j \<subseteq># told_at cparse sv j"
proof -
  let ?s = "sv_sessions sv ! i"
  from assms(2) obtain k b where k: "ss_pc ?s = Confirming k b"
    "sv' = reply i (spr (ok_json b (tr_id (sv_rooms sv ! k)) (tr_name (sv_rooms sv ! k))) @ [10])
       (set_session i (?s\<lparr>ss_pc := Reading\<rparr>) sv)"
    by (auto simp: confirm_def Let_def ok_json_def split: session_pc.splits)
  have "told_at cparse (set_session i (?s\<lparr>ss_pc := Reading\<rparr>) sv) j = told_at cparse sv j"
    using k(1) by (intro told_same_session [OF assms(1)]) (simp_all add: room_chans_def)
  moreover have "i < length (sv_sessions (set_session i (?s\<lparr>ss_pc := Reading\<rparr>) sv))"
    using assms(1) by (simp add: set_session_def)
  ultimately show ?thesis unfolding k(2) using told_reply_silent [OF _ ok_texts, of i _ b] by metis
qed

lemma told_forward:
  assumes "srv_inv sv" "hold_inv sv" "i < length (sv_sessions sv)" "j < length (sv_sessions sv)"
    "forward spr i c sv = Some sv'"
  shows "told_at cparse sv' j \<subseteq># told_at cparse sv j"
proof -
  from assms(5) obtain k m q where k: "map_of (ss_listeners (sv_sessions sv ! i)) c = Some k"
    "sc_queue (sv_chans sv ! c) = m # q"
    "sv' = reply i (spr (relay_json m (tr_name (sv_rooms sv ! k))) @ [10])
       (sv\<lparr>sv_chans := (sv_chans sv)[c := (sv_chans sv ! c)\<lparr>sc_queue := q\<rparr>]\<rparr>)"
    by (auto simp: forward_def chan_read_got split: option.splits chan_read.splits)
  let ?sv = "sv\<lparr>sv_chans := (sv_chans sv)[c := (sv_chans sv ! c)\<lparr>sc_queue := q\<rparr>]\<rparr>"
  have kc: "(k, c) \<in> set (room_chans (sv_sessions sv ! i))"
    using map_of_SomeD [OF k(1)] hold_ok_nth [OF assms(2,3)] by (auto simp: hold_ok_def room_chans_def)
  note c = room_chans_range(3) [OF assms(1,3) kc]
  have out: "told_at cparse sv' j \<subseteq># told_at cparse ?sv j + (if j = i then {#m#} else {#})"
  proof (cases "j = i")
    case True
    have "told_at cparse sv' j \<subseteq># told_at cparse ?sv j +
        mset (line_texts cparse (as_bytes (spr (relay_json m (tr_name (sv_rooms sv ! k))) @ [10])))"
      using told_reply [of i ?sv cparse "spr (relay_json m (tr_name (sv_rooms sv ! k))) @ [10]" j] assms(3) True
      unfolding k(3) by simp
    also have "\<dots> \<subseteq># told_at cparse ?sv j + {#m#}" by (rule subset_mset.add_left_mono [OF relay_texts])
    finally show ?thesis using True by simp
  next
    case False
    with told_reply [of i ?sv cparse "spr (relay_json m (tr_name (sv_rooms sv ! k))) @ [10]" j] assms(3)
    show ?thesis unfolding k(3) by simp
  qed
  have "told_at cparse ?sv j + (if j = i then {#m#} else {#}) \<subseteq># told_at cparse sv j"
  proof (cases "j = i")
    case True
    with waiting_take [OF kc k(2) c] show ?thesis
      by (simp add: told_at_def told_def)
  next
    case False
    have "c' \<noteq> c" if "(k', c') \<in> set (room_chans (sv_sessions sv ! j))" for k' c'
    proof -
      have "snd ` owned (sv_sessions sv ! j) \<inter> snd ` owned (sv_sessions sv ! i) = {}"
        using assms(1,3,4) False by (simp add: srv_inv_def)
      with that kc show ?thesis unfolding set_room_chans by force
    qed
    then have "waiting (sv_chans ?sv) (room_chans (sv_sessions sv ! j)) =
        waiting (sv_chans sv) (room_chans (sv_sessions sv ! j))"
      by (intro waiting_cong) fastforce
    with False show ?thesis by (simp add: told_at_def told_def)
  qed
  with out show ?thesis by (rule subset_mset.order_trans)
qed

lemma told_write:
  assumes "lines_ok spr M sv" "i < length (sv_sessions sv)" "write_out i w sv = Some sv'" "\<And>n. w \<noteq> SentPart n"
  shows "told_at cparse sv' j \<subseteq># told_at cparse sv j"
proof -
  let ?s = "sv_sessions sv ! i"
  from assms(3) obtain m q where m: "sc_queue (ss_out ?s) = m # q" "sv' = set_session i
      (if ss_pc ?s = Ended then ?s\<lparr>ss_out := (ss_out ?s)\<lparr>sc_queue := q\<rparr>, ss_writing := False, ss_dangling := True\<rparr>
       else case w of
         SentAll \<Rightarrow> ?s\<lparr>ss_out := (ss_out ?s)\<lparr>sc_queue := q\<rparr>, ss_wire := ss_wire ?s @ as_bytes m\<rparr>
       | SentPart n \<Rightarrow> ?s\<lparr>ss_out := (ss_out ?s)\<lparr>sc_queue := q\<rparr>, ss_wire := ss_wire ?s @ take n (as_bytes m)\<rparr>
       | SendFailed \<Rightarrow> ?s\<lparr>ss_out := (ss_out ?s)\<lparr>sc_queue := q\<rparr>, ss_writing := False\<rparr>) sv"
    by (auto simp: write_out_def Let_def chan_read_got split: chan_read.splits if_splits)
  have ok: "sess_ok spr M sv ?s" by (rule sess_ok_nth [OF assms(1,2)])
  then obtain ls where ls: "ss_wire ?s = concat (map as_bytes ls)"
    "\<forall>l\<in>set ls. good_line spr M (room_names sv) l" by (auto simp: sess_ok_def)
  have "\<forall>l\<in>set (ls @ [m]). good_line spr M (room_names sv) l" using ls(2) ok m(1) by (simp add: sess_ok_def)
  then have lines: "\<forall>l\<in>set (ls @ [m]). is_line l" using good_line_is_line [OF server_lines] by blast
  from wire_texts_lines [OF lines] wire_texts_lines [of ls] lines
  have "wire_texts cparse (ss_wire ?s @ as_bytes m) = wire_texts cparse (ss_wire ?s) @ line_texts cparse (as_bytes m)"
    by (simp add: ls(1))
  then show ?thesis using assms(4) m told_session [OF assms(2), of cparse _ j]
    by (cases w; cases "j = i") (auto simp: told_at_def told_def)
qed

lemma told_listener_waits:
  assumes "listener_waits i c sv = Some sv'"
  shows "told_at cparse sv' j = told_at cparse sv j"
proof -
  from assms obtain ch where ch: "chan_read (sv_chans sv ! c) = ReadWaits ch"
    "sv' = sv\<lparr>sv_chans := (sv_chans sv)[c := ch]\<rparr>"
    by (auto simp: listener_waits_def split: option.splits chan_read.splits)
  have "sc_queue ((sv_chans sv)[c := ch] ! d) = sc_queue (sv_chans sv ! d)" for d
    using chan_read_waits [OF ch(1)] by (simp add: update_keeps [of sc_queue])
  then have "waiting ((sv_chans sv)[c := ch]) xs = waiting (sv_chans sv) xs" for xs by (intro waiting_cong)
  then show ?thesis by (simp add: ch(2) told_at_def told_def)
qed

lemma told_writer_waits:
  assumes "i < length (sv_sessions sv)" "writer_waits i sv = Some sv'"
  shows "told_at cparse sv' j = told_at cparse sv j"
proof -
  let ?s = "sv_sessions sv ! i"
  from assms(2) obtain ch where ch: "chan_read (ss_out ?s) = ReadWaits ch" "sv' = set_session i (?s\<lparr>ss_out := ch\<rparr>) sv"
    by (auto simp: writer_waits_def Let_def split: chan_read.splits if_splits)
  then show ?thesis using chan_read_waits [OF ch(1)] told_session [OF assms(1), of cparse "?s\<lparr>ss_out := ch\<rparr>" j]
    by (simp add: told_at_def told_def)
qed

lemma told_by_itself:
  assumes "srv_inv sv" "hold_inv sv" "lines_ok spr M sv" "j < length (sv_sessions sv)" "by_itself l"
    "srv_exec spr sparse l sv = Some sv'"
  shows "told_at cparse sv' j \<subseteq># told_at cparse sv j"
proof (cases l)
  case Shutdown
  with assms(6) show ?thesis by (auto simp: told_at_def)
next
  case (Hangup i)
  with assms(6) told_end_session [of i sv cparse j] show ?thesis by (auto split: if_splits)
next
  case (Enroll i)
  with assms(6) obtain k c sv1 where k: "ss_pc (sv_sessions sv ! i) = Creating k" "i < length (sv_sessions sv)"
    "sub_to_room k sv = (c, sv1)" "sv' = set_session i ((sv_sessions sv1 ! i)\<lparr>ss_pc := Joined c k True\<rparr>) sv1"
    by (auto simp: enroll_def case_prod_beta prod_eq_iff split: session_pc.splits if_splits)
  with told_enter [OF assms(1) k(2) assms(4) _ k(3)] show ?thesis by simp
next
  case (SpawnListener i)
  with assms(6) show ?thesis
    using hold_ok_nth [OF assms(2), of i]
    by (auto simp: spawn_listener_def Let_def room_chans_def hold_ok_def told_at_def told_def set_session_def
        nth_list_update split: session_pc.splits if_splits)
next
  case (Confirm i)
  with assms(6) told_confirm show ?thesis by (auto split: if_splits)
next
  case (Forward i c)
  with assms(6) told_forward [OF assms(1,2) _ assms(4)] show ?thesis by (auto split: if_splits)
next
  case (LeaveRoom i c)
  with assms(6) show ?thesis
    by (auto simp: leave_room_def Let_def told_same_session split: if_splits)
next
  case (WriterEnds i)
  with assms(6) show ?thesis
    by (auto simp: writer_ends_def Let_def told_same_session split: if_splits)
next
  case (WriteOut i w)
  with assms(5) have "w \<noteq> SentPart n" for n by auto
  with WriteOut assms(6) told_write [OF assms(3), of i w sv' j] show ?thesis by (auto split: if_splits)
next
  case (ListenerWaits i c)
  with assms(6) told_listener_waits [of i c sv sv' j] show ?thesis by (auto split: if_splits)
next
  case (WriterWaits i)
  with assms(6) told_writer_waits [of i sv sv' j] show ?thesis by (auto split: if_splits)
qed (use assms(5) in simp_all)

end

end
