(* ===== verification/Net_Invariants.thy ===== *)
theory Net_Invariants
  imports Chat_Net
begin

text \<open>
  The invariant of the network: both streams are read at the ends of lines, every text on the way
  was sent by a client, and every event a client gets stands for such a text or for a room of the
  server.
\<close>

section \<open>The invariant\<close>

text \<open>The texts the clients have sent: those of the commands their connections have taken.\<close>

definition net_sent :: "('c, 'e) net \<Rightarrow> ustring set" where
  "net_sent N = (\<Union>S\<in>set (nt_clients N). \<Union>t\<in>set (sy_conns S). \<Union>c\<in>set (tk_taken t). command_text c)"

lemma net_sentI:
  "S \<in> set (nt_clients N) \<Longrightarrow> t \<in> set (sy_conns S) \<Longrightarrow> c \<in> set (tk_taken t) \<Longrightarrow> x \<in> command_text c \<Longrightarrow>
   x \<in> net_sent N"
  by (auto simp: net_sent_def)

fun good_event :: "ustring set \<Rightarrow> (u64 \<times> ustring) set \<Rightarrow> from_server \<Rightarrow> bool" where
  "good_event M R (FS_Message g t) \<longleftrightarrow> t \<in> M \<and> g \<in> snd ` R"
| "good_event M R (FS_RoomConfirmed rid name b) \<longleftrightarrow> (rid, name) \<in> R"
| "good_event M R _ \<longleftrightarrow> True"

lemma good_event_mono: "good_event M R ev \<Longrightarrow> M \<subseteq> M' \<Longrightarrow> R \<subseteq> R' \<Longrightarrow> good_event M' R' ev"
  by (cases ev) auto

lemma control_good: "is_control ev \<Longrightarrow> good_event M R ev"
  by (cases ev) auto

definition links_ok :: "('c, 'e) net \<Rightarrow> bool" where
  "links_ok N \<longleftrightarrow>
     length (nt_links N) = length (sv_sessions (nt_server N)) \<and>
     length (nt_up N) = length (nt_links N) \<and> length (nt_down N) = length (nt_links N) \<and>
     (\<forall>(i, k)\<in>set (nt_links N). i < length (nt_clients N) \<and> k < length (sy_conns (nt_clients N ! i))) \<and>
     (\<forall>s<length (nt_links N). line_start (nt_up N ! s) (tk_wire (link_task N s)) \<and>
        line_start (nt_down N ! s) (ss_wire (link_session N s)))"

definition events_ok :: "('c, 'e) net \<Rightarrow> bool" where
  "events_ok N \<longleftrightarrow>
     (\<forall>S\<in>set (nt_clients N). \<forall>t\<in>set (sy_conns S). \<forall>ev\<in>reported t.
        good_event (net_sent N) (room_names (nt_server N)) ev)"

definition net_inv :: "(json \<Rightarrow> ustring) \<Rightarrow> ('c, 'e) net \<Rightarrow> bool" where
  "net_inv pr N \<longleftrightarrow> links_ok N \<and> events_ok N \<and> lines_ok pr (net_sent N) (nt_server N)"

lemma link_range:
  assumes "links_ok N" "s < length (nt_links N)"
  shows "fst (nt_links N ! s) < length (nt_clients N)"
    "snd (nt_links N ! s) < length (sy_conns (nt_clients N ! fst (nt_links N ! s)))"
proof -
  obtain i k where ik: "nt_links N ! s = (i, k)" by (cases "nt_links N ! s")
  from assms(1) have "\<forall>(i, k)\<in>set (nt_links N). i < length (nt_clients N) \<and> k < length (sy_conns (nt_clients N ! i))"
    by (simp add: links_ok_def)
  from bspec [OF this nth_mem [OF assms(2)]] ik
  have "i < length (nt_clients N) \<and> k < length (sy_conns (nt_clients N ! i))" by simp
  with ik show "fst (nt_links N ! s) < length (nt_clients N)"
    "snd (nt_links N ! s) < length (sy_conns (nt_clients N ! fst (nt_links N ! s)))" by simp_all
qed

text \<open>Reading on.\<close>

lemma links_ok_up:
  assumes "links_ok N" "line_start n (tk_wire (link_task N s))"
  shows "links_ok (N\<lparr>nt_up := (nt_up N)[s := n]\<rparr>)"
proof -
  have "line_start ((nt_up N)[s := n] ! j) (tk_wire (link_task N j))" if "j < length (nt_links N)" for j
    using assms that by (cases "j = s") (auto simp: links_ok_def)
  with assms(1) show ?thesis by (simp add: links_ok_def link_task_def link_session_def)
qed

lemma links_ok_down:
  assumes "links_ok N" "line_start n (ss_wire (link_session N s))"
  shows "links_ok (N\<lparr>nt_down := (nt_down N)[s := n]\<rparr>)"
proof -
  have "line_start ((nt_down N)[s := n] ! j) (ss_wire (link_session N j))" if "j < length (nt_links N)" for j
    using assms that by (cases "j = s") (auto simp: links_ok_def)
  with assms(1) show ?thesis by (simp add: links_ok_def link_task_def link_session_def)
qed

lemma net_inv_read:
  "net_inv pr N \<Longrightarrow> links_ok (N\<lparr>nt_up := us\<rparr>) \<Longrightarrow> net_inv pr (N\<lparr>nt_up := us\<rparr>)"
  "net_inv pr N \<Longrightarrow> links_ok (N\<lparr>nt_down := ds\<rparr>) \<Longrightarrow> net_inv pr (N\<lparr>nt_down := ds\<rparr>)"
  by (simp_all add: net_inv_def events_ok_def net_sent_def)

section \<open>A step of a client\<close>

lemma net_sent_client:
  assumes "client_grows E at (nt_clients N ! i) S" "i < length (nt_clients N)"
  shows "net_sent N \<subseteq> net_sent (N\<lparr>nt_clients := (nt_clients N)[i := S]\<rparr>)"
proof
  fix x assume "x \<in> net_sent N"
  then obtain T t c where t: "T \<in> set (nt_clients N)" "t \<in> set (sy_conns T)" "c \<in> set (tk_taken t)" "x \<in> command_text c"
    by (auto simp: net_sent_def)
  then obtain j k where j: "j < length (nt_clients N)" "T = nt_clients N ! j" "k < length (sy_conns T)" "t = sy_conns T ! k"
    by (metis in_set_conv_nth)
  let ?T = "(nt_clients N)[i := S] ! j"
  have "k < length (sy_conns ?T) \<and> set (tk_taken t) \<subseteq> set (tk_taken (sy_conns ?T ! k))"
  proof (cases "j = i")
    case True
    with assms j have "k < length (sy_conns S)" "prefix (tk_taken t) (tk_taken (sy_conns S ! k))"
      by (auto simp: client_grows_def conn_grows_def)
    with True assms(2) show ?thesis by (auto dest: set_mono_prefix)
  qed (use j in simp)
  moreover have "?T \<in> set ((nt_clients N)[i := S])" using j(1) by simp
  ultimately show "x \<in> net_sent (N\<lparr>nt_clients := (nt_clients N)[i := S]\<rparr>)"
    using t(3,4) by (intro net_sentI [of ?T _ "sy_conns ?T ! k" c]) auto
qed

lemma client_links_ok:
  assumes "client_grows E at (nt_clients N ! i) S" "i < length (nt_clients N)" "links_ok N"
  shows "links_ok (N\<lparr>nt_clients := (nt_clients N)[i := S]\<rparr>)"
proof -
  let ?N = "N\<lparr>nt_clients := (nt_clients N)[i := S]\<rparr>"
  have "line_start (nt_up N ! s) (tk_wire (link_task ?N s))" if s: "s < length (nt_links N)" for s
  proof (rule line_start_prefix)
    show "line_start (nt_up N ! s) (tk_wire (link_task N s))" using assms(3) s by (simp add: links_ok_def)
    show "prefix (tk_wire (link_task N s)) (tk_wire (link_task ?N s))"
      using assms(1,2) link_range [OF assms(3) s]
      by (cases "fst (nt_links N ! s) = i") (auto simp: link_task_def client_grows_def conn_grows_def)
  qed
  moreover have "\<forall>(j, k)\<in>set (nt_links N). j < length (nt_clients N) \<and> k < length (sy_conns ((nt_clients N)[i := S] ! j))"
    using assms by (fastforce simp: links_ok_def client_grows_def nth_list_update)
  ultimately show ?thesis using assms(3) by (simp add: links_ok_def link_session_def)
qed

lemma client_events_ok:
  assumes "client_grows E at (nt_clients N ! i) S" "i < length (nt_clients N)" "events_ok N"
    "\<forall>ev\<in>E. good_event (net_sent N) (room_names (nt_server N)) ev"
  shows "events_ok (N\<lparr>nt_clients := (nt_clients N)[i := S]\<rparr>)"
proof -
  let ?N = "N\<lparr>nt_clients := (nt_clients N)[i := S]\<rparr>"
  have old: "good_event (net_sent ?N) (room_names (nt_server N)) ev"
    if "good_event (net_sent N) (room_names (nt_server N)) ev" for ev
    using good_event_mono [OF that net_sent_client [OF assms(1,2)]] by simp
  have new: "good_event (net_sent ?N) (room_names (nt_server N)) ev"
    if k: "k < length (sy_conns S)" "ev \<in> reported (sy_conns S ! k)" for k ev
  proof (cases "k < length (sy_conns (nt_clients N ! i))")
    case True
    with assms(1) k have "ev \<in> reported (sy_conns (nt_clients N ! i) ! k) \<or> is_control ev \<or> ev \<in> E"
      by (force simp: client_grows_def conn_grows_def split: if_splits)
    moreover have "good_event (net_sent N) (room_names (nt_server N)) ev"
      if "ev \<in> reported (sy_conns (nt_clients N ! i) ! k)"
      using assms(3) nth_mem [OF assms(2)] nth_mem [OF True] that unfolding events_ok_def by blast
    ultimately show ?thesis using assms(4) old control_good by blast
  next
    case False
    with assms(1) k show ?thesis by (auto simp: client_grows_def)
  qed
  show ?thesis unfolding events_ok_def
  proof (intro ballI)
    fix T t ev assume t: "T \<in> set (nt_clients ?N)" "t \<in> set (sy_conns T)" "ev \<in> reported t"
    then consider "T = S" | "T \<in> set (nt_clients N)" by (auto dest!: subsetD [OF set_update_subset_insert])
    then show "good_event (net_sent ?N) (room_names (nt_server ?N)) ev"
    proof cases
      case 1
      with t new show ?thesis by (auto simp: in_set_conv_nth)
    next
      case 2
      with t assms(3) old show ?thesis by (auto simp: events_ok_def)
    qed
  qed
qed

lemma client_exec_inv:
  assumes "client_exec rt p i l N = Some N'" "net_inv pr N"
    "\<forall>ev\<in>label_events (rt_parse rt) l. good_event (net_sent N) (room_names (nt_server N)) ev"
  shows "net_inv pr N'"
  using assms(1)
proof (cases rule: client_exec_cases)
  case (1 S)
  note grow = sys_exec_grows [OF 1(2)]
  from client_links_ok [OF grow 1(1)] client_events_ok [OF grow 1(1) _ assms(3)]
    lines_ok_mono [OF _ net_sent_client [OF grow 1(1)]] assms(2) 1(3)
  show ?thesis by (simp add: net_inv_def)
qed

lemma reads_nothing_control:
  "reads_nothing l \<Longrightarrow> ev \<in> label_events parse l \<Longrightarrow> is_control ev"
  by (cases l rule: reads_nothing.cases)
    (auto simp: label_events_def read_events_def split: task_label.splits read_outcome.splits)

section \<open>A step of the server\<close>

lemma server_links_ok:
  assumes "links_ok N" "server_grows (nt_server N) sv" "length (sv_sessions sv) = length (sv_sessions (nt_server N))"
  shows "links_ok (N\<lparr>nt_server := sv\<rparr>)"
proof -
  have "line_start (nt_down N ! s) (ss_wire (sv_sessions sv ! s))" if "s < length (nt_links N)" for s
    using assms that line_start_prefix [of "nt_down N ! s" "ss_wire (sv_sessions (nt_server N) ! s)"]
    by (simp add: links_ok_def link_session_def server_grows_def)
  with assms show ?thesis by (simp add: links_ok_def link_task_def link_session_def)
qed

lemma server_events_ok:
  assumes "events_ok N" "server_grows (nt_server N) sv"
  shows "events_ok (N\<lparr>nt_server := sv\<rparr>)"
proof -
  have "net_sent (N\<lparr>nt_server := sv\<rparr>) = net_sent N" by (simp add: net_sent_def)
  with assms show ?thesis
    by (auto simp: events_ok_def server_grows_def intro: good_event_mono [OF _ order_refl])
qed

lemma net_inv_server:
  assumes "net_inv pr N" "server_grows (nt_server N) sv" "lines_ok pr (net_sent N) sv"
  shows "net_inv pr (N\<lparr>nt_server := sv\<rparr>)"
proof -
  have "length (sv_sessions sv) = length (sv_sessions (nt_server N))" using assms(2) by (simp add: server_grows_def)
  moreover have "net_sent (N\<lparr>nt_server := sv\<rparr>) = net_sent N" by (simp add: net_sent_def)
  ultimately show ?thesis
    using assms server_links_ok [OF _ assms(2)] server_events_ok [OF _ assms(2)] by (simp add: net_inv_def)
qed

lemma accept_inv_net:
  assumes "net_inv pr N" "srv_exec pr parse Accept (nt_server N) = Some sv"
    "i < length (nt_clients N)" "k < length (sy_conns (nt_clients N ! i))"
  shows "net_inv pr (N\<lparr>nt_server := sv, nt_links := nt_links N @ [(i, k)], nt_up := nt_up N @ [0],
    nt_down := nt_down N @ [0]\<rparr>)"
proof -
  let ?N = "N\<lparr>nt_server := sv, nt_links := nt_links N @ [(i, k)], nt_up := nt_up N @ [0],
    nt_down := nt_down N @ [0]\<rparr>"
  have sv: "sv = (nt_server N)\<lparr>sv_sessions := sv_sessions (nt_server N) @ [new_session]\<rparr>"
    using assms(2) by (simp split: if_splits)
  have same: "net_sent ?N = net_sent N" "room_names sv = room_names (nt_server N)"
    by (simp_all add: net_sent_def room_names_def sv)
  have "line_start ((nt_up N @ [0]) ! s) (tk_wire (link_task ?N s)) \<and>
      line_start ((nt_down N @ [0]) ! s) (ss_wire (link_session ?N s))" if "s < Suc (length (nt_links N))" for s
    using assms(1) that
    by (auto simp: net_inv_def links_ok_def link_task_def link_session_def sv nth_append less_Suc_eq)
  with assms sv have "links_ok ?N" by (simp add: net_inv_def links_ok_def)
  moreover have "events_ok ?N" using assms(1) by (simp add: net_inv_def events_ok_def same)
  moreover have "lines_ok pr (net_sent N) sv"
    using assms(1) accept_lines_ok [of pr "net_sent N" "nt_server N"] by (simp add: net_inv_def sv)
  ultimately show ?thesis by (simp add: net_inv_def same)
qed

section \<open>The invariant holds\<close>

text \<open>The runtime of the clients, and the printer and the parser of the server.\<close>

locale chat_net = conn_runtime rt cmds evs + wire_format "rt_print rt" "rt_parse rt" pr parse
  for rt :: "('c, 'e) runtime" and cmds evs pr parse
begin

lemma request_is_command:
  assumes "line_start n (tk_wire t)" "next_line (drop n (tk_wire t)) = Some (as_bytes l, rest)"
    "conn_reachable rt t"
  shows "\<exists>c\<in>set (tk_taken t). takes parse l c \<and> line_start (n + length (as_bytes l)) (tk_wire t)"
proof -
  let ?ls = "map (\<lambda>c. rt_print rt (command_json c) @ [10]) (tk_taken t)"
  have "map (command_bytes (rt_print rt)) (tk_taken t) = map as_bytes ?ls"
    by (simp add: command_bytes_is_line)
  with conn_reachable_wire [OF assms(3)] have "prefix (tk_wire t) (concat (map as_bytes ?ls))"
    by (simp only: wire_inv_def)
  moreover have "\<forall>l\<in>set ?ls. is_line l" using client_is_line by auto
  ultimately obtain x where "x \<in> set ?ls" "as_bytes l = as_bytes x" "line_start (n + length (as_bytes l)) (tk_wire t)"
    using line_start_next [OF assms(1,2)] by blast
  with requests as_bytes_inj show ?thesis by fastforce
qed

lemma request_inv:
  assumes "net_inv pr N" "ends_ok rt p pr parse N" "net_exec rt p pr parse (Request s l) N = Some N'"
  shows "net_inv pr N'"
  using assms(3)
proof (cases rule: request_cases)
  case (1 rest sv)
  have links: "links_ok N" using assms(1) by (simp add: net_inv_def)
  note range = link_range [OF links 1(1)]
  let ?S = "nt_clients N ! fst (nt_links N ! s)"
  have "sys_reachable rt p ?S" using assms(2) nth_mem [OF range(1)] by (simp add: ends_ok_def)
  then have "conn_reachable rt (link_task N s)" using reachable_conn range(2) by (simp add: link_task_def)
  from request_is_command [OF _ 1(2) this] links 1(1) obtain c where
    c: "c \<in> set (tk_taken (link_task N s))" "takes parse l c"
      "line_start (nt_up N ! s + length (as_bytes l)) (tk_wire (link_task N s))"
    by (auto simp: links_ok_def)
  have srv: "srv_inv (nt_server N)" using assms(2) srv_reachable_inv by (auto simp: ends_ok_def)
  have "command_text c \<subseteq> net_sent N"
    using c(1) nth_mem [OF range(1)] nth_mem [OF range(2)] by (auto simp: link_task_def intro: net_sentI)
  moreover have "sv = handle_line parse s l (nt_server N)" "s < length (sv_sessions (nt_server N))"
    using 1(3) by (simp_all split: if_splits)
  ultimately have "lines_ok pr (net_sent N) sv"
    using handle_line_lines_ok [OF srv _ _ c(2)] assms(1) by (simp add: net_inv_def)
  from net_inv_server [OF assms(1) srv_exec_grows [OF 1(3) srv] this]
  have inv: "net_inv pr (N\<lparr>nt_server := sv\<rparr>)" by simp
  then have "links_ok (N\<lparr>nt_server := sv\<rparr>)" by (simp add: net_inv_def)
  from net_inv_read(1) [OF inv links_ok_up [OF this, of _ s]] c(3) show ?thesis
    by (simp add: 1(4) link_task_def)
qed

lemma response_events:
  assumes "good_line pr M R l" "ev \<in> set (fst (handle_read (rt_parse rt) (read_result (as_bytes l))))"
  shows "good_event M R ev"
proof (cases "utf8_decode (as_bytes l)")
  case None
  with assms(2) show ?thesis by (auto simp: read_result_def)
next
  case (Some x)
  with utf8_decode_sound [OF Some] as_bytes_inj have "x = l" by blast
  with Some assms(2) have ev: "ev \<in> set (fst (handle_read (rt_parse rt) (ReadLine l)))"
    by (simp add: read_result_def)
  from assms(1) consider (relay) m rid name where "m \<in> M" "(rid, name) \<in> R" "l = pr (relay_json m name) @ [10]"
    | (ok) b rid name where "(rid, name) \<in> R" "l = pr (ok_json b rid name) @ [10]"
    | (refusal) t where "t \<in> set refusals" "l = t @ [10]"
    unfolding good_line_def by blast
  then show ?thesis
  proof cases
    case relay
    with ev show ?thesis by (auto simp: reads_relayed simp del: handle_read.simps) force
  next
    case ok
    with ev show ?thesis by (auto simp: reads_confirmed simp del: handle_read.simps)
  next
    case refusal
    with ev reads_refusal [of t _ _ ev] show ?thesis
      by (cases "handle_read (rt_parse rt) (ReadLine (t @ [10]))") (auto simp del: handle_read.simps)
  qed
qed

lemma respond_inv:
  assumes "net_inv pr N" "net_exec rt p pr parse (Respond s) N = Some N'"
  shows "net_inv pr N'"
  using assms(2)
proof (cases rule: respond_cases)
  case (1 bs rest N1)
  have links: "links_ok N" and lines: "lines_ok pr (net_sent N) (nt_server N)"
    using assms(1) by (simp_all add: net_inv_def)
  let ?R = "room_names (nt_server N)"
  have "link_session N s \<in> set (sv_sessions (nt_server N))"
    using links 1(1) by (simp add: links_ok_def link_session_def)
  with lines obtain ls where ls: "ss_wire (link_session N s) = concat (map as_bytes ls)"
    "\<forall>l\<in>set ls. good_line pr (net_sent N) ?R l" by (auto simp: lines_ok_def sess_ok_def)
  have "\<forall>l\<in>set ls. is_line l" using ls(2) good_line_is_line [OF server_lines] by blast
  moreover have "line_start (nt_down N ! s) (ss_wire (link_session N s))"
    using links 1(1) by (simp add: links_ok_def)
  ultimately obtain l where
    l: "l \<in> set ls" "bs = as_bytes l" "line_start (nt_down N ! s + length bs) (ss_wire (link_session N s))"
    using line_start_next [OF _ 1(2), of ls] ls(1) by auto
  have "good_event (net_sent N) ?R ev" if "ev \<in> set (fst (handle_read (rt_parse rt) (read_result bs)))" for ev
    using response_events [of _ _ l ev] ls(2) l(1,2) that by blast
  with client_exec_inv [OF 1(3) assms(1)] have inv: "net_inv pr N1"
    by (simp add: label_events_def read_events_def)
  from 1(3) have "nt_down N1 = nt_down N" "link_session N1 s = link_session N s"
    by (auto simp: client_exec_def link_session_def split: if_splits)
  with net_inv_read(2) [OF inv links_ok_down, of "nt_down N ! s + length bs" s] inv l(3) show ?thesis
    by (simp add: 1(4) net_inv_def)
qed

lemma net_exec_inv:
  assumes "net_inv pr N" "ends_ok rt p pr parse N" "net_exec rt p pr parse l N = Some N'"
  shows "net_inv pr N'"
proof (cases l)
  case (ClientStep i sl)
  with assms(3) have "client_exec rt p i sl N = Some N'" "reads_nothing sl" by (simp_all split: if_splits)
  with client_exec_inv [OF _ assms(1)] reads_nothing_control control_good show ?thesis by blast
next
  case (Connect i k)
  with assms(3) have "net_exec rt p pr parse (Connect i k) N = Some N'" by simp
  then show ?thesis
  proof (cases rule: connect_cases)
    case (1 N1 sv)
    from 1(1) have inv: "net_inv pr N1"
      by (rule client_exec_inv [OF _ assms(1)]) (simp add: label_events_def read_events_def)
    from 1(1) have "i < length (nt_clients N1)" "k < length (sy_conns (nt_clients N1 ! i))"
      by (auto simp: client_exec_def split: if_splits)
    from accept_inv_net [OF inv 1(2) this] 1(3) show ?thesis by simp
  qed
next
  case (Request s t)
  with assms request_inv show ?thesis by blast
next
  case (Respond s)
  with assms respond_inv show ?thesis by blast
next
  case (ServerStep sl)
  with assms(3) obtain sv where sv: "by_itself sl" "srv_exec pr parse sl (nt_server N) = Some sv"
    "N' = N\<lparr>nt_server := sv\<rparr>" by (auto simp del: srv_exec.simps split: if_splits)
  have "srv_inv (nt_server N)" using assms(2) srv_reachable_inv by (auto simp: ends_ok_def)
  moreover have "sl \<noteq> Accept" using sv(1) by auto
  ultimately show ?thesis unfolding sv(3)
    using net_inv_server [OF assms(1)] srv_exec_grows [OF sv(2)] by_itself_lines_ok [OF _ sv(1,2)] assms(1)
    by (simp add: net_inv_def)
qed

lemma init_net_inv: "net_inv pr (init_net n)"
  by (simp add: net_inv_def links_ok_def events_ok_def lines_ok_def chans_ok_def init_net_def
      init_server_def init_system_def)

lemma net_reachable_inv: "net_reachable rt p pr parse N \<Longrightarrow> net_inv pr N"
proof (induction rule: net_reachable.induct)
  case (start n)
  show ?case by (rule init_net_inv)
next
  case (step N l N')
  show ?case by (rule net_exec_inv [OF step.IH net_reachable_ends [OF step.hyps(1)] step.hyps(2)])
qed

end

end
