(* ===== verification/Net_Counts.thy ===== *)
theory Net_Counts
  imports Server_Counts Net_Invariants
begin

text \<open>
  How often a client gets a text: the messages on the way to a client, from the channels of its
  session to the events of its connection, are balanced against the requests that the server has
  read from the other connections.
\<close>

section \<open>A client\<close>

definition event_texts :: "from_server list \<Rightarrow> ustring multiset" where
  "event_texts evs = mset (concat (map message_texts evs))"

lemma event_texts_simps [simp]:
  "event_texts [] = {#}"
  "event_texts (ev # evs) = mset (message_texts ev) + event_texts evs"
  "event_texts (evs @ fs) = event_texts evs + event_texts fs"
  by (simp_all add: event_texts_def)

lemma control_texts: "is_control ev \<Longrightarrow> message_texts ev = []"
  by (cases ev) simp_all

text \<open>The messages a connection has sent to the poller or is about to send.\<close>

definition heard :: "('c, 'e) conn_task \<Rightarrow> ustring multiset" where
  "heard t = event_texts (tk_sent t) + event_texts (main_pending (tk_main t)) + event_texts (reader_pending (tk_reader t))"

definition read_texts :: "(ustring \<Rightarrow> json option) \<Rightarrow> task_label \<Rightarrow> ustring multiset" where
  "read_texts parse l = (case l of DoRead x \<Rightarrow> event_texts (fst (handle_read parse x)) | _ \<Rightarrow> {#})"

text \<open>A step that adds at most the messages \<open>M\<close>, and connects at most once.\<close>

definition conn_hears :: "ustring multiset \<Rightarrow> ('c, 'e) conn_task \<Rightarrow> ('c, 'e) conn_task \<Rightarrow> bool" where
  "conn_hears M t t' \<longleftrightarrow>
     heard t' \<subseteq># heard t + M \<and> (tk_main t' = MainConnecting \<longrightarrow> tk_main t = MainConnecting)"

lemma conn_hears_same:
  "tk_sent t' = tk_sent t \<Longrightarrow> tk_main t' = tk_main t \<Longrightarrow> tk_reader t' = tk_reader t \<Longrightarrow> conn_hears M t t'"
  by (simp add: conn_hears_def heard_def)

lemma connect_report_texts: "event_texts (connect_report f) = {#}"
  by (simp add: connect_report_def split: option.split)

lemma main_send_hears:
  assumes "main_send_next rt (tk_main t) t = Some t'"
  shows "conn_hears {#} t t'"
proof (cases "(rt, tk_main t, t)" rule: main_send_next.cases)
  case (1 rt' ev evs k t1)
  with assms obtain t2 where "send_event rt ev t = Some t2" "t' = t2\<lparr>tk_main := MainSending evs k\<rparr>"
    by auto
  with 1 show ?thesis by (auto simp: conn_hears_def heard_def send_event_fields)
qed (use assms in auto)

lemma reader_send_hears:
  assumes "reader_send_next rt (tk_reader t) t = Some t'"
  shows "conn_hears {#} t t'"
proof (cases "(rt, tk_reader t, t)" rule: reader_send_next.cases)
  case (1 rt' ev evs k t1)
  with assms obtain t2 where "send_event rt ev t = Some t2" "t' = t2\<lparr>tk_reader := ReaderSending evs k\<rparr>"
    by auto
  with 1 show ?thesis by (auto simp: conn_hears_def heard_def send_event_fields)
qed (use assms in auto)

lemma leave_loop_hears: "tk_main t = MainLoop \<Longrightarrow> conn_hears {#} t (leave_loop t)"
  by (simp add: conn_hears_def heard_def leave_loop_def)

lemma command_hears:
  assumes "command_next rt w t = Some t'" "tk_main t = MainLoop"
  shows "conn_hears {#} t t'"
proof -
  from assms(1) obtain c cs where c: "ch_recv (command_channel rt) (tk_cmds t) = Some (c, cs)"
    by (auto simp: command_next_def)
  obtain bs k where "handle_command (rt_print rt) (Some c) w = (bs, k)" by force
  with assms c show ?thesis
    by (auto simp: command_next_def conn_hears_def heard_def leave_loop_def Let_def split: if_splits)
qed

lemma task_exec_hears:
  assumes "task_exec rt l t = Some t'"
  shows "conn_hears (read_texts (rt_parse rt) l) t t'"
proof (cases l)
  case (DoConnect f)
  with assms connect_report_texts [of f] show ?thesis
    by (auto simp: conn_hears_def heard_def split: if_splits)
next
  case DoMainGo
  with assms show ?thesis
    by (cases "(tk_main t, t)" rule: main_go_next.cases) (auto simp: conn_hears_def heard_def)
next
  case DoReaderGo
  with assms show ?thesis
    by (cases "(tk_reader t, t)" rule: reader_go_next.cases)
      (auto simp: conn_hears_def heard_def split: if_splits)
next
  case (DoRead x)
  with assms show ?thesis
    by (auto simp: conn_hears_def heard_def read_texts_def split: if_splits prod.splits)
next
  case DoClosed
  with assms leave_loop_hears [of t] show ?thesis by (auto simp: read_texts_def split: if_splits)
next
  case DoCancel
  with assms show ?thesis by (auto simp: conn_hears_def heard_def split: if_splits)
qed (use assms in \<open>simp_all add: read_texts_def main_send_hears reader_send_hears command_hears split: if_splits\<close>)

definition client_hears :: "ustring multiset \<Rightarrow> nat option \<Rightarrow> ('c, 'e) system \<Rightarrow> ('c, 'e) system \<Rightarrow> bool" where
  "client_hears M at S S' \<longleftrightarrow>
     length (sy_conns S) \<le> length (sy_conns S') \<and>
     (\<forall>k<length (sy_conns S). conn_hears (if at = Some k then M else {#}) (sy_conns S ! k) (sy_conns S' ! k)) \<and>
     (\<forall>k<length (sy_conns S'). length (sy_conns S) \<le> k \<longrightarrow> heard (sy_conns S' ! k) = {#})"

lemma client_hears_update:
  assumes "conn_hears (if at = Some k then M else {#}) (sy_conns S ! k) t" "sy_conns S' = (sy_conns S)[k := t]"
  shows "client_hears M at S S'"
proof -
  have "conn_hears (if at = Some j then M else {#}) (sy_conns S ! j) ((sy_conns S)[k := t] ! j)"
    if "j < length (sy_conns S)" for j
    using assms(1) that by (cases "j = k") (simp_all add: conn_hears_same)
  with assms(2) show ?thesis by (simp add: client_hears_def)
qed

lemma client_hears_same: "sy_conns S' = sy_conns S \<Longrightarrow> client_hears M at S S'"
  by (simp add: client_hears_def conn_hears_same)

lemma start_hears: "client_hears M None S (start_connection rt host port S)"
proof (cases rule: start_connection_cases [of rt host port S])
  case refused
  then show ?thesis by (simp add: client_hears_same)
next
  case started
  have "heard (init_task rt) = {#}" by (simp add: heard_def init_task_def)
  then show ?thesis unfolding started
    by (auto simp: client_hears_def nth_append drop_receiver_nth conn_hears_same less_Suc_eq)
qed

lemma poll_hears:
  assumes "poll_system rt p clock S = Some S'"
  shows "client_hears M None S S'"
  using assms
proof (cases rule: poll_system_cases)
  case (event k ev q app')
  show ?thesis by (rule client_hears_update [where k = k]; (subst event)?; simp add: conn_hears_same)
qed (simp add: client_hears_same)

lemma deliver_hears:
  assumes "deliver rt p n S = Some S'"
  shows "client_hears M None S S'"
  using assms
proof (cases rule: deliver_cases)
  case (2 k c q)
  show ?thesis by (rule client_hears_update [where k = k]; (subst 2)?; simp add: conn_hears_same)
qed (simp add: client_hears_same)

definition label_texts :: "(ustring \<Rightarrow> json option) \<Rightarrow> sys_label \<Rightarrow> ustring multiset" where
  "label_texts parse l = (case l of Task k x \<Rightarrow> read_texts parse x | _ \<Rightarrow> {#})"

lemma sys_exec_hears:
  assumes "sys_exec rt p l S = Some S'"
  shows "client_hears (label_texts (rt_parse rt) l) (label_conn l) S S'"
proof (cases l)
  case (Task k tl)
  with assms obtain t where "k < length (sy_conns S)" "task_exec rt tl (sy_conns S ! k) = Some t"
    "S' = S\<lparr>sy_conns := (sy_conns S)[k := t]\<rparr>" by (auto split: if_splits)
  with Task task_exec_hears [of rt tl "sy_conns S ! k" t] show ?thesis
    by (auto simp: label_texts_def label_conn_def intro!: client_hears_update [of _ k _ S t])
next
  case (DropSenders k)
  with assms have "S' = S\<lparr>sy_conns := (sy_conns S)[k := (sy_conns S ! k)\<lparr>tk_senders := False\<rparr>]\<rparr>"
    by (simp split: if_splits)
  then show ?thesis by (intro client_hears_update [where k = k]) (simp_all add: conn_hears_same)
qed (use assms start_hears poll_hears deliver_hears in
    \<open>auto simp: label_conn_def intro: client_hears_same split: if_splits sum.splits\<close>)

lemma reads_nothing_texts: "reads_nothing l \<Longrightarrow> label_texts parse l = {#}"
  by (cases l rule: reads_nothing.cases)
    (auto simp: label_texts_def read_texts_def split: task_label.splits read_outcome.splits)

section \<open>The log of a client\<close>

text \<open>The texts it shows as messages of somebody else, and those of the messages it has polled.\<close>

definition remote_of :: "chat_message list \<Rightarrow> ustring list" where
  "remote_of ms = map msg_text (filter (\<lambda>m. msg_sender m = Server) ms)"

lemma remote_of_simps [simp]:
  "remote_of [] = []"
  "remote_of (m # ms) = (if msg_sender m = Server then [msg_text m] else []) @ remote_of ms"
  "remote_of (ms @ ns) = remote_of ms @ remote_of ns"
  by (simp_all add: remote_of_def)

lemma remote_of_rekey [simp]:
  "remote_of (map (\<lambda>m. if msg_room_id m = a then m\<lparr>msg_room_id := b\<rparr> else m) ms) = remote_of ms"
  by (induction ms) simp_all

lemma remote_of_filter: "mset (remote_of (filter P ms)) \<subseteq># mset (remote_of ms)"
proof (induction ms)
  case (Cons m ms)
  then show ?case
    using subset_mset.order_trans [OF Cons.IH, of "add_mset (msg_text m) (mset (remote_of ms))"] by auto
qed simp

definition remote_log :: "app_state \<Rightarrow> ustring multiset" where
  "remote_log s = mset (remote_of (messages s))"

definition polled_log :: "('c, 'e) system \<Rightarrow> ustring multiset" where
  "polled_log S = (\<Sum>k<length (sy_conns S). event_texts (tk_polled (sy_conns S ! k)))"

lemma remote_log_add_toast: "add_toast p k m s = Inr s' \<Longrightarrow> remote_log s' = remote_log s"
  using add_toast_app [of p k m s s'] by (auto simp: remote_log_def)

lemma remote_log_event:
  assumes "handle_event p clock ev s = Inr s'"
  shows "remote_log s' \<subseteq># remote_log s + mset (message_texts ev)"
proof (cases ev)
  case (FS_RoomConfirmed rid name b)
  with assms show ?thesis
    by (auto simp: remote_log_def confirm_created_def confirm_subscribed_def Let_def
        split: if_splits option.splits)
next
  case (FS_Message g t)
  with assms show ?thesis
    by (auto simp: remote_log_def receive_message_def Let_def res_simps split: if_splits option.splits)
qed (use assms in \<open>auto simp: remote_log_def dest!: remote_log_add_toast\<close>)

lemma remote_log_join_room [simp]: "remote_log (join_room clock tx n name t c s) = remote_log s"
  by (auto simp: remote_log_def join_room_def push_room_def push_message_def send_command_def)

lemma remote_log_remove_room: "remote_log (remove_room i s) \<subseteq># remote_log s"
  by (simp add: remote_log_def remove_room_def remote_of_filter)

lemma remote_log_active [simp]: "remote_log (s\<lparr>active_room_id := a\<rparr>) = remote_log s"
  by (simp add: remote_log_def)

lemma remote_log_send [simp]:
  "remote_log (send_command tx c s) = remote_log s"
  "remote_log (push_message clock r t Me s) = remote_log s"
  by (auto simp: remote_log_def send_command_def push_message_def)

lemma remote_log_input:
  assumes "ui_input i" "client_step p clock i s = Inr s'"
  shows "remote_log s' \<subseteq># remote_log s"
proof (cases i)
  case (CreateClick t)
  with assms obtain t' where "do_create p clock t s = Inr (s', t')" by (auto simp: map_sum_fst_Inr)
  then show ?thesis by (cases rule: do_create_cases) (auto dest: remote_log_add_toast)
next
  case (SubscribeClick t)
  with assms obtain t' where "do_subscribe p clock t s = Inr (s', t')" by (auto simp: map_sum_fst_Inr)
  then show ?thesis by (cases rule: do_subscribe_cases) (auto dest: remote_log_add_toast)
next
  case (UnsubscribeItemClick j)
  with assms remote_log_remove_room [of j s] show ?thesis
    by (auto simp: unsubscribe_item_def Let_def dest!: remote_log_add_toast split: if_splits)
next
  case UnsubscribeHeaderClick
  with assms show ?thesis
    by (auto simp: unsubscribe_header_def dest!: remote_log_add_toast intro: remote_log_remove_room
        split: option.splits)
next
  case DisconnectClick
  with assms show ?thesis
    by (auto simp: click_disconnect_def send_command_def remote_log_def split: option.splits)
next
  case (SendClick t)
  with assms show ?thesis by (auto simp: do_send_def Let_def split: option.splits if_splits)
qed (use assms in \<open>auto simp: select_room_def expire_toast_def drop_toast_task_def remote_log_def
    split: if_splits\<close>)

lemma event_texts_prefix: "prefix xs ys \<Longrightarrow> event_texts xs \<subseteq># event_texts ys"
  by (auto simp: prefix_def)

lemma sum_subseteq:
  fixes f :: "'a \<Rightarrow> 'b multiset"
  shows "(\<And>x. x \<in> A \<Longrightarrow> f x \<subseteq># g x) \<Longrightarrow> sum f A \<subseteq># sum g A"
  by (auto simp: subseteq_mset_def count_sum intro: sum_mono)

lemma sum_subseteq_set:
  fixes f :: "'a \<Rightarrow> 'b multiset"
  shows "finite B \<Longrightarrow> A \<subseteq> B \<Longrightarrow> sum f A \<subseteq># sum f B"
  by (auto simp: subseteq_mset_def count_sum intro: sum_mono2)

lemma polled_log_grows:
  assumes "client_grows E at S S'"
  shows "polled_log S \<subseteq># polled_log S'"
proof -
  have "polled_log S \<subseteq># (\<Sum>k<length (sy_conns S). event_texts (tk_polled (sy_conns S' ! k)))"
    unfolding polled_log_def using assms
    by (intro sum_subseteq event_texts_prefix) (simp add: client_grows_def conn_grows_def)
  also have "\<dots> \<subseteq># polled_log S'"
    unfolding polled_log_def using assms by (intro sum_subseteq_set) (auto simp: client_grows_def)
  finally show ?thesis .
qed

lemma polled_log_poll:
  assumes "k < length (sy_conns S)" "sy_conns S' = (sy_conns S)[k := t]"
    "tk_polled t = tk_polled (sy_conns S ! k) @ [ev]"
  shows "polled_log S' = polled_log S + mset (message_texts ev)"
proof -
  have "polled_log S' = (\<Sum>j<length (sy_conns S). event_texts (tk_polled (sy_conns S ! j)) +
      (if j = k then mset (message_texts ev) else {#}))"
    unfolding polled_log_def using assms by (intro sum.cong) (auto simp: nth_list_update)
  with assms(1) show ?thesis by (simp add: sum.distrib polled_log_def)
qed

lemma sys_exec_log:
  assumes "sys_exec rt p l S = Some S'" "remote_log (sy_app S) \<subseteq># polled_log S"
  shows "remote_log (sy_app S') \<subseteq># polled_log S'"
proof -
  note grow = polled_log_grows [OF sys_exec_grows [OF assms(1)]]
  have same: ?thesis if "remote_log (sy_app S') \<subseteq># remote_log (sy_app S)"
    using subset_mset.order_trans [OF subset_mset.order_trans [OF that assms(2)] grow] .
  show ?thesis
  proof (cases l)
    case (Screen clock i)
    with assms(1) remote_log_input [of i p clock "sy_app S"] same show ?thesis
      by (auto split: if_splits sum.splits)
  next
    case (Start host port)
    with assms(1) have "S' = start_connection rt host port S" by (simp split: if_splits)
    then show ?thesis using same
      by (cases rule: start_connection_cases [of rt host port S]) (auto simp: remote_log_def)
  next
    case (Poll clock)
    with assms(1) have "poll_system rt p clock S = Some S'" by simp
    then show ?thesis
    proof (cases rule: poll_system_cases)
      case idle
      with assms(2) show ?thesis by simp
    next
      case (event k ev q app')
      have "polled_log S' = polled_log S + mset (message_texts ev)"
        by (rule polled_log_poll [OF event(2)]) (auto simp: event(5))
      with remote_log_event [OF event(4)] assms(2) event(5) show ?thesis
        by (auto intro: subset_mset.order_trans subset_mset.add_right_mono)
    qed
  next
    case (Deliver n)
    with assms(1) have "deliver rt p n S = Some S'" by simp
    then show ?thesis using same by (cases rule: deliver_cases) (auto simp: remote_log_def)
  qed (use assms(1) same in \<open>auto split: if_splits\<close>)
qed

lemma reachable_log: "sys_reachable rt p S \<Longrightarrow> remote_log (sy_app S) \<subseteq># polled_log S"
proof (induction rule: sys_reachable.induct)
  case start
  show ?case by (simp add: remote_log_def init_system_def init_app_def)
next
  case (step S l S')
  show ?case by (rule sys_exec_log [OF step.hyps(2) step.IH])
qed

section \<open>Lines that were read\<close>

text \<open>The number of lines in a stream that have been read.\<close>

definition lines_read :: "nat \<Rightarrow> nat list \<Rightarrow> nat" where
  "lines_read n bs = count_list (take n bs) 10"

lemma count_line: "is_line l \<Longrightarrow> count_list (as_bytes l) 10 = 1"
proof -
  assume "is_line l"
  then obtain t where t: "l = t @ [10]" "10 \<notin> set t" by (auto simp: is_line_def)
  then have "10 \<notin> set (as_bytes t)" using as_bytes_ascii [of 10 t] by simp
  then show ?thesis by (simp add: t(1) utf8_char_def count_list_0_iff)
qed

lemma count_lines: "\<forall>l\<in>set ls. is_line l \<Longrightarrow> count_list (concat (map as_bytes ls)) 10 = length ls"
  by (induction ls) (simp_all add: count_line)

lemma line_start_length: "line_start n bs \<Longrightarrow> n \<le> length bs"
  by (auto simp: line_start_def)

lemma lines_read_prefix: "line_start n bs \<Longrightarrow> prefix bs cs \<Longrightarrow> lines_read n cs = lines_read n bs"
  using line_start_length [of n bs] by (auto simp: lines_read_def prefix_def)

text \<open>The next line of a reader is the one whose turn it is.\<close>

lemma lines_read_next:
  assumes "line_start n bs" "next_line (drop n bs) = Some (b, rest)"
    "prefix bs (concat (map as_bytes ls))" "\<forall>l\<in>set ls. is_line l"
  shows "lines_read n bs < length ls" "b = as_bytes (ls ! lines_read n bs)"
    "lines_read (n + length b) bs = Suc (lines_read n bs)"
proof -
  from assms(1) obtain ks r where k: "bs = concat (map as_bytes ks) @ r" "n = length (concat (map as_bytes ks))"
    "\<forall>l\<in>set ks. is_line l" by (auto simp: line_start_def)
  from lines_prefix [OF _ k(3) assms(4)] assms(3) k(1) obtain ms where
    m: "ls = ks @ ms" "prefix r (concat (map as_bytes ms))" by blast
  from assms(2) k(1,2) have nr: "next_line r = Some (b, rest)" by simp
  from next_line_prefix [OF m(2) _ nr] m(1) assms(4) obtain l ms' where
    l: "ms = l # ms'" "b = as_bytes l" by auto
  have n: "lines_read n bs = length ks" using count_lines [OF k(3)] by (simp add: lines_read_def k(1,2))
  with m(1) l show "lines_read n bs < length ls" "b = as_bytes (ls ! lines_read n bs)" by simp_all
  from next_line_length [OF nr] have "r = b @ rest" by simp
  then show "lines_read (n + length b) bs = Suc (lines_read n bs)"
    using n count_lines [OF k(3)] count_line [of l] assms(4) m(1) l
    by (simp add: lines_read_def k(1,2))
qed

section \<open>The balance\<close>

text \<open>The requests that session \<open>s\<close> has read, and their texts.\<close>

definition asked :: "('c, 'e) net \<Rightarrow> nat \<Rightarrow> to_server list" where
  "asked N s = take (lines_read (nt_up N ! s) (tk_wire (link_task N s))) (tk_taken (link_task N s))"

definition asked_texts :: "('c, 'e) net \<Rightarrow> nat \<Rightarrow> ustring multiset" where
  "asked_texts N s = mset (concat (map request_texts (asked N s)))"

definition asked_others :: "('c, 'e) net \<Rightarrow> nat \<Rightarrow> ustring multiset" where
  "asked_others N s = (\<Sum>r\<in>{..<length (nt_links N)} - {s}. asked_texts N r)"

definition conn_of :: "('c, 'e) net \<Rightarrow> nat \<times> nat \<Rightarrow> ('c, 'e) conn_task" where
  "conn_of N x = sy_conns (nt_clients N ! fst x) ! snd x"

lemma link_task_conn: "link_task N s = conn_of N (nt_links N ! s)"
  by (simp add: link_task_def conn_of_def)

definition conns :: "('c, 'e) net \<Rightarrow> (nat \<times> nat) set" where
  "conns N = {(i, k). i < length (nt_clients N) \<and> k < length (sy_conns (nt_clients N ! i))}"

lemma conn_of_fields [simp]:
  "conn_of (N\<lparr>nt_server := sv\<rparr>) = conn_of N" "conn_of (N\<lparr>nt_links := xs\<rparr>) = conn_of N"
  "conn_of (N\<lparr>nt_up := us\<rparr>) = conn_of N" "conn_of (N\<lparr>nt_down := ds\<rparr>) = conn_of N"
  "conns (N\<lparr>nt_server := sv\<rparr>) = conns N" "conns (N\<lparr>nt_links := xs\<rparr>) = conns N"
  "conns (N\<lparr>nt_up := us\<rparr>) = conns N" "conns (N\<lparr>nt_down := ds\<rparr>) = conns N"
  by (auto simp: conn_of_def conns_def)

definition links_apart :: "('c, 'e) net \<Rightarrow> bool" where
  "links_apart N \<longleftrightarrow>
     distinct (nt_links N) \<and> (\<forall>x\<in>set (nt_links N). tk_main (conn_of N x) \<noteq> MainConnecting)"

definition heard_ok :: "(ustring \<Rightarrow> json option) \<Rightarrow> ('c, 'e) net \<Rightarrow> bool" where
  "heard_ok p N \<longleftrightarrow>
     (\<forall>s<length (nt_links N).
        heard (link_task N s) \<subseteq># mset (wire_texts p (take (nt_down N ! s) (ss_wire (link_session N s))))) \<and>
     (\<forall>x\<in>conns N. x \<notin> set (nt_links N) \<longrightarrow> heard (conn_of N x) = {#})"

definition told_ok :: "(ustring \<Rightarrow> json option) \<Rightarrow> ('c, 'e) net \<Rightarrow> bool" where
  "told_ok p N \<longleftrightarrow> (\<forall>s<length (nt_links N). told_at p (nt_server N) s \<subseteq># asked_others N s)"

definition balance :: "(ustring \<Rightarrow> json option) \<Rightarrow> ('c, 'e) net \<Rightarrow> bool" where
  "balance p N \<longleftrightarrow> links_apart N \<and> heard_ok p N \<and> told_ok p N"

lemma links_ok_conns: "links_ok N \<Longrightarrow> set (nt_links N) \<subseteq> conns N"
  by (auto simp: links_ok_def conns_def)

lemma mset_concat_map: "mset (concat (map f xs)) = (\<Sum>x\<in>#mset xs. mset (f x))"
  by (induction xs) simp_all

lemma mset_concat_mono: "mset xs \<subseteq># mset ys \<Longrightarrow> mset (concat (map f xs)) \<subseteq># mset (concat (map f ys))"
  by (auto simp: mset_concat_map subset_mset.le_iff_add)

lemma take_line_start: "line_start n bs \<Longrightarrow> prefix bs cs \<Longrightarrow> take n cs = take n bs"
  using line_start_length [of n bs] by (auto simp: prefix_def)

text \<open>A step of a client changes one connection at most.\<close>

lemma client_conn:
  assumes "client_hears M at (nt_clients N ! i) S" "client_grows E at' (nt_clients N ! i) S"
    "i < length (nt_clients N)" "x \<in> conns N"
  defines "N' \<equiv> N\<lparr>nt_clients := (nt_clients N)[i := S]\<rparr>"
  shows "conn_hears (if fst x = i \<and> at = Some (snd x) then M else {#}) (conn_of N x) (conn_of N' x)"
    "prefix (tk_wire (conn_of N x)) (tk_wire (conn_of N' x))"
    "prefix (tk_taken (conn_of N x)) (tk_taken (conn_of N' x))"
proof -
  obtain j k where x: "x = (j, k)" by (cases x)
  have jk: "j < length (nt_clients N)" "k < length (sy_conns (nt_clients N ! j))"
    using assms(4) by (simp_all add: x conns_def)
  show "conn_hears (if fst x = i \<and> at = Some (snd x) then M else {#}) (conn_of N x) (conn_of N' x)"
    using assms(1,3) jk
    by (cases "j = i") (auto simp: x N'_def conn_of_def client_hears_def conn_hears_same)
  show "prefix (tk_wire (conn_of N x)) (tk_wire (conn_of N' x))"
    "prefix (tk_taken (conn_of N x)) (tk_taken (conn_of N' x))"
    using assms(2,3) jk by (cases "j = i"; simp add: x N'_def conn_of_def client_grows_def conn_grows_def)+
qed

lemma client_links_apart:
  assumes "client_hears M at (nt_clients N ! i) S" "client_grows E at' (nt_clients N ! i) S"
    "i < length (nt_clients N)" "links_ok N" "links_apart N"
  shows "links_apart (N\<lparr>nt_clients := (nt_clients N)[i := S]\<rparr>)"
  using assms(5) client_conn(1) [OF assms(1-3)] subsetD [OF links_ok_conns [OF assms(4)]]
  by (auto simp: links_apart_def conn_hears_def)

lemma client_told_ok:
  assumes "client_hears M at (nt_clients N ! i) S" "client_grows E at' (nt_clients N ! i) S"
    "i < length (nt_clients N)" "links_ok N" "told_ok p N"
  shows "told_ok p (N\<lparr>nt_clients := (nt_clients N)[i := S]\<rparr>)"
proof -
  let ?N = "N\<lparr>nt_clients := (nt_clients N)[i := S]\<rparr>"
  have "asked_texts N r \<subseteq># asked_texts ?N r" if r: "r < length (nt_links N)" for r
  proof -
    have x: "nt_links N ! r \<in> conns N" using subsetD [OF links_ok_conns [OF assms(4)]] r by simp
    note grow = client_conn(2,3) [OF assms(1-3) x]
    have "line_start (nt_up N ! r) (tk_wire (link_task N r))" using assms(4) r by (simp add: links_ok_def)
    from lines_read_prefix [OF this, of "tk_wire (link_task ?N r)"] grow(1)
    have "lines_read (nt_up ?N ! r) (tk_wire (link_task ?N r)) = lines_read (nt_up N ! r) (tk_wire (link_task N r))"
      by (simp add: link_task_conn)
    moreover have "mset (take n (tk_taken (link_task N r))) \<subseteq># mset (take n (tk_taken (link_task ?N r)))" for n
      using grow(2) by (auto simp: link_task_conn prefix_def)
    ultimately show ?thesis by (simp add: asked_texts_def asked_def mset_concat_mono)
  qed
  then have "asked_others N s \<subseteq># asked_others ?N s" for s
    unfolding asked_others_def by (simp, intro sum_subseteq) simp
  with assms(5) show ?thesis by (auto simp: told_ok_def intro: subset_mset.order_trans)
qed

lemma client_heard_ok:
  assumes "client_hears {#} at (nt_clients N ! i) S" "client_grows E at' (nt_clients N ! i) S"
    "i < length (nt_clients N)" "links_ok N" "heard_ok p N"
  shows "heard_ok p (N\<lparr>nt_clients := (nt_clients N)[i := S]\<rparr>)"
proof -
  let ?N = "N\<lparr>nt_clients := (nt_clients N)[i := S]\<rparr>"
  have less: "heard (conn_of ?N x) \<subseteq># heard (conn_of N x)" if "x \<in> conns N" for x
    using client_conn(1) [OF assms(1-3) that] by (auto simp: conn_hears_def)
  have "heard (link_task ?N s) \<subseteq># mset (wire_texts p (take (nt_down N ! s) (ss_wire (link_session N s))))"
    if "s < length (nt_links N)" for s
    using subset_mset.order_trans [OF less] subsetD [OF links_ok_conns [OF assms(4)]] that assms(5)
    by (simp add: heard_ok_def link_task_conn)
  moreover have "heard (conn_of ?N x) = {#}" if x: "x \<in> conns ?N" "x \<notin> set (nt_links N)" for x
  proof (cases "x \<in> conns N")
    case True
    with less [OF True] x(2) assms(5) show ?thesis by (simp add: heard_ok_def)
  next
    case False
    with x(1) have "fst x = i" "length (sy_conns (nt_clients N ! i)) \<le> snd x" "snd x < length (sy_conns S)"
      using assms(3) by (auto simp: conns_def nth_list_update split: if_splits)
    with assms(1,3) show ?thesis by (simp add: client_hears_def conn_of_def)
  qed
  ultimately show ?thesis by (simp add: heard_ok_def link_session_def)
qed

text \<open>A step that reads nothing, and one that reads a line.\<close>

lemma client_balance:
  assumes "client_exec rt p i l N = Some N'" "links_ok N" "balance q N" "label_texts (rt_parse rt) l = {#}"
  shows "balance q N'"
  using assms(1)
proof (cases rule: client_exec_cases)
  case (1 S)
  note step = sys_exec_hears [OF 1(2), unfolded assms(4)] sys_exec_grows [OF 1(2)] 1(1) assms(2)
  from assms(3) client_links_apart [OF step] client_heard_ok [OF step] client_told_ok [OF step]
  show ?thesis by (simp add: balance_def 1(3))
qed

lemma wire_texts_read:
  assumes "line_start n bs" "drop n bs = b @ rest" "b = as_bytes l" "is_line l"
  shows "wire_texts p (take (n + length b) bs) = wire_texts p (take n bs) @ line_texts p b"
proof -
  from assms(1) obtain ks r where k: "bs = concat (map as_bytes ks) @ r" "n = length (concat (map as_bytes ks))"
    "\<forall>l\<in>set ks. is_line l" by (auto simp: line_start_def)
  from assms(2) k(1,2) have "r = b @ rest" by simp
  then have "take (n + length b) bs = concat (map as_bytes (ks @ [l]))" "take n bs = concat (map as_bytes ks)"
    by (simp_all add: k(1,2) assms(3))
  moreover have "wire_texts p (concat (map as_bytes (ks @ [l]))) =
      wire_texts p (concat (map as_bytes ks)) @ line_texts p (as_bytes l)"
    using wire_texts_lines [of "ks @ [l]" p] wire_texts_lines [of ks p] k(3) assms(4) by simp
  ultimately show ?thesis using assms(3) by simp
qed

lemma wire_texts_take:
  assumes "line_start n (concat (map as_bytes ls))" "\<forall>l\<in>set ls. is_line l"
  shows "mset (wire_texts p (take n (concat (map as_bytes ls)))) \<subseteq># mset (wire_texts p (concat (map as_bytes ls)))"
proof -
  from assms(1) obtain ks r where k: "concat (map as_bytes ls) = concat (map as_bytes ks) @ r"
    "n = length (concat (map as_bytes ks))" "\<forall>l\<in>set ks. is_line l" by (auto simp: line_start_def)
  from lines_prefix [OF _ k(3) assms(2), of r] k(1) obtain ms where ms: "ls = ks @ ms" by auto
  have "take n (concat (map as_bytes ls)) = concat (map as_bytes ks)" using k(1,2) by simp
  then show ?thesis using wire_texts_lines [of ls p] wire_texts_lines [of ks p] assms(2) k(3) ms by simp
qed

section \<open>Every step keeps the balance\<close>

text \<open>A step of the server by itself, or on a request of session \<open>i\<close> that is read with it.\<close>

lemma balance_server:
  assumes "balance p N" "links_ok N" "server_grows (nt_server N) sv"
    "\<And>s. s < length (nt_links N) \<Longrightarrow> told_at p sv s \<subseteq># asked_others N s"
  shows "balance p (N\<lparr>nt_server := sv\<rparr>)"
proof -
  let ?N = "N\<lparr>nt_server := sv\<rparr>"
  have "take (nt_down N ! s) (ss_wire (link_session ?N s)) = take (nt_down N ! s) (ss_wire (link_session N s))"
    if "s < length (nt_links N)" for s
  proof (rule take_line_start)
    show "line_start (nt_down N ! s) (ss_wire (link_session N s))" using assms(2) that by (simp add: links_ok_def)
    have "s < length (sv_sessions (nt_server N))" using assms(2) that by (simp add: links_ok_def)
    with assms(3) show "prefix (ss_wire (link_session N s)) (ss_wire (link_session ?N s))"
      by (simp add: server_grows_def link_session_def)
  qed
  then have "heard_ok p ?N" using assms(1) by (simp add: balance_def heard_ok_def link_task_conn)
  moreover have "asked_others ?N s = asked_others N s" for s
    by (simp add: asked_others_def asked_texts_def asked_def link_task_conn)
  then have "told_ok p ?N" using assms(4) by (simp add: told_ok_def)
  moreover have "links_apart ?N" using assms(1) by (simp add: balance_def links_apart_def)
  ultimately show ?thesis by (simp add: balance_def)
qed

lemma accept_balance:
  assumes "balance p N" "links_ok N" "srv_exec pr parse Accept (nt_server N) = Some sv"
    "x \<in> conns N" "x \<notin> set (nt_links N)" "tk_main (conn_of N x) \<noteq> MainConnecting"
  shows "balance p (N\<lparr>nt_server := sv, nt_links := nt_links N @ [x], nt_up := nt_up N @ [0],
    nt_down := nt_down N @ [0]\<rparr>)"
proof -
  let ?N = "N\<lparr>nt_server := sv, nt_links := nt_links N @ [x], nt_up := nt_up N @ [0], nt_down := nt_down N @ [0]\<rparr>"
  let ?n = "length (nt_links N)"
  have sv: "sv = (nt_server N)\<lparr>sv_sessions := sv_sessions (nt_server N) @ [new_session]\<rparr>"
    using assms(3) by (simp split: if_splits)
  have len: "length (nt_up N) = ?n" "length (nt_down N) = ?n" "length (sv_sessions (nt_server N)) = ?n"
    using assms(2) by (simp_all add: links_ok_def)
  have apart: "links_apart ?N" using assms(1,5,6) by (auto simp: balance_def links_apart_def)
  have "heard (conn_of N x) = {#}" using assms(1,4,5) by (simp add: balance_def heard_ok_def)
  then have heard: "heard_ok p ?N"
    using assms(1) len by (auto simp: balance_def heard_ok_def link_task_conn link_session_def sv
        nth_append less_Suc_eq)
  have "asked_texts ?N s = asked_texts N s" if "s < ?n" for s
    using that len by (simp add: asked_texts_def asked_def link_task_conn nth_append)
  moreover have "asked_texts ?N ?n = {#}"
    using len by (simp add: asked_texts_def asked_def lines_read_def nth_append)
  ultimately have others: "asked_others ?N s = asked_others N s" if "s < ?n" for s
    using that by (auto simp: asked_others_def lessThan_Suc insert_Diff_if intro!: sum.cong)
  have "told_at p sv s \<subseteq># asked_others ?N s" if "s < Suc ?n" for s
  proof (cases "s = ?n")
    case True
    have "told p cs new_session = {#}" for cs
      using arrived_lines_concat [of "[]" "[]"]
      by (simp add: told_def new_session_def new_chan_def wire_texts_def room_chans_def)
    with True len show ?thesis by (simp add: told_at_def sv nth_append)
  next
    case False
    with that have "s < ?n" by simp
    with others assms(1) len show ?thesis by (simp add: balance_def told_ok_def told_at_def sv nth_append)
  qed
  with apart heard show ?thesis by (simp add: balance_def told_ok_def)
qed

context chat_net
begin

lemma connect_balance:
  assumes "net_exec rt p pr parse (Connect i k) N = Some N'" "net_inv pr N" "balance (rt_parse rt) N"
  shows "balance (rt_parse rt) N'"
  using assms(1)
proof (cases rule: connect_cases)
  case (1 N1 sv)
  have links: "links_ok N" using assms(2) by (simp add: net_inv_def)
  have inv: "net_inv pr N1"
    by (rule client_exec_inv [OF 1(1) assms(2)]) (simp add: label_events_def read_events_def)
  have bal: "balance (rt_parse rt) N1"
    by (rule client_balance [OF 1(1) links assms(3)]) (simp add: label_texts_def read_texts_def)
  from 1(1) obtain t where t: "i < length (nt_clients N)" "k < length (sy_conns (nt_clients N ! i))"
    "tk_main (conn_of N (i, k)) = MainConnecting" "conn_of N1 (i, k) = t" "tk_main t \<noteq> MainConnecting"
    "(i, k) \<in> conns N1" "nt_links N1 = nt_links N"
    by (auto simp: client_exec_def conn_of_def conns_def split: if_splits)
  then have "(i, k) \<notin> set (nt_links N1)" using assms(3) by (auto simp: balance_def links_apart_def)
  with accept_balance [OF bal _ 1(2) t(6)] inv t(4,5) 1(3) show ?thesis by (simp add: net_inv_def)
qed

lemma request_balance:
  assumes "net_inv pr N" "ends_ok rt p pr parse N" "net_exec rt p pr parse (Request i l) N = Some N'"
    "balance (rt_parse rt) N"
  shows "balance (rt_parse rt) N'"
  using assms(3)
proof (cases rule: request_cases)
  case (1 rest sv)
  let ?q = "rt_parse rt" and ?t = "link_task N i" and ?up = "nt_up N ! i"
  let ?ls = "map (\<lambda>c. rt_print rt (command_json c) @ [10]) (tk_taken ?t)"
  have links: "links_ok N" using assms(1) by (simp add: net_inv_def)
  note range = link_range [OF links 1(1)]
  have "sys_reachable rt p (nt_clients N ! fst (nt_links N ! i))"
    using assms(2) nth_mem [OF range(1)] by (simp add: ends_ok_def)
  then have "conn_reachable rt ?t" using reachable_conn range(2) by (simp add: link_task_def)
  moreover have "map (command_bytes (rt_print rt)) (tk_taken ?t) = map as_bytes ?ls"
    by (simp add: command_bytes_is_line)
  ultimately have wire: "prefix (tk_wire ?t) (concat (map as_bytes ?ls))"
    using conn_reachable_wire by (metis wire_inv_def)
  have lines: "\<forall>l\<in>set ?ls. is_line l" using client_is_line by auto
  have start: "line_start ?up (tk_wire ?t)" using links 1(1) by (simp add: links_ok_def)
  note next_line = lines_read_next [OF start 1(2) wire lines]
  define n where "n = lines_read ?up (tk_wire ?t)"
  define c where "c = tk_taken ?t ! n"
  have n: "n < length (tk_taken ?t)" using next_line(1) by (simp add: n_def)
  then have l: "l = rt_print rt (command_json c) @ [10]" using next_line(2) as_bytes_inj by (simp add: n_def c_def)
  have srv: "srv_inv (nt_server N)" "hold_inv (nt_server N)"
    using assms(2) srv_reachable_inv srv_reachable_hold by (auto simp: ends_ok_def)
  have sv: "sv = handle_line parse i l (nt_server N)" "i < length (sv_sessions (nt_server N))"
    "ss_pc (sv_sessions (nt_server N) ! i) = Reading" using 1(3) by (simp_all split: if_splits)
  let ?N = "N\<lparr>nt_up := (nt_up N)[i := ?up + length (as_bytes l)]\<rparr>"
  have asked: "asked_texts ?N r = asked_texts N r + (if r = i then mset (request_texts c) else {#})"
    if "r < length (nt_links N)" for r
    using that links n next_line(3)
    by (cases "r = i")
      (simp_all add: links_ok_def asked_texts_def asked_def link_task_conn n_def c_def take_Suc_conv_app_nth)
  have others: "asked_others ?N s = asked_others N s + (if s = i then {#} else mset (request_texts c))" for s
  proof -
    have "asked_others ?N s =
        (\<Sum>r\<in>{..<length (nt_links N)} - {s}. asked_texts N r + (if r = i then mset (request_texts c) else {#}))"
      unfolding asked_others_def by (rule sum.cong) (simp_all add: asked)
    then show ?thesis using 1(1) by (simp add: sum.distrib asked_others_def)
  qed
  have told: "told_at ?q sv s \<subseteq># asked_others ?N s" if "s < length (nt_links N)" for s
  proof -
    have "told_at ?q sv s \<subseteq># told_at ?q (nt_server N) s + (if s = i then {#} else mset (request_texts c))"
      using told_request [OF srv sv(2) _ sv(3), of s l c] requests [of c] that links l sv(1)
      by (simp add: links_ok_def)
    also have "\<dots> \<subseteq># asked_others ?N s"
      unfolding others using assms(4) that by (simp add: balance_def told_ok_def subset_mset.add_right_mono)
    finally show ?thesis .
  qed
  have "balance ?q ?N"
    using assms(4) by (auto simp: balance_def links_apart_def heard_ok_def told_ok_def link_task_conn
        link_session_def others intro: subset_mset.order_trans)
  moreover have "links_ok ?N"
    using request_inv [OF assms(1-3)] links by (simp add: 1(4) net_inv_def links_ok_def link_task_def link_session_def)
  ultimately have "balance ?q (?N\<lparr>nt_server := sv\<rparr>)"
    using balance_server [of ?q ?N sv] srv_exec_grows [OF 1(3) srv(1)] told by simp
  moreover have "?N\<lparr>nt_server := sv\<rparr> = N'" by (simp add: 1(4))
  ultimately show ?thesis by simp
qed

lemma respond_balance:
  assumes "net_inv pr N" "net_exec rt p pr parse (Respond i) N = Some N'" "balance (rt_parse rt) N"
  shows "balance (rt_parse rt) N'"
  using assms(2)
proof (cases rule: respond_cases)
  case (1 b rest N1)
  let ?q = "rt_parse rt" and ?x = "nt_links N ! i" and ?down = "nt_down N ! i"
  let ?l = "Task (snd ?x) (DoRead (read_result b))"
  have links: "links_ok N" and lines: "lines_ok pr (net_sent N) (nt_server N)"
    using assms(1) by (simp_all add: net_inv_def)
  from 1(3) obtain S where S: "fst ?x < length (nt_clients N)"
    "sys_exec rt p ?l (nt_clients N ! fst ?x) = Some S"
    "N1 = N\<lparr>nt_clients := (nt_clients N)[fst ?x := S]\<rparr>" by (rule client_exec_cases)
  note step = sys_exec_hears [OF S(2)] sys_exec_grows [OF S(2)] S(1)
  have start: "line_start ?down (ss_wire (link_session N i))" using links 1(1) by (simp add: links_ok_def)
  have "link_session N i \<in> set (sv_sessions (nt_server N))"
    using links 1(1) by (simp add: links_ok_def link_session_def)
  with lines obtain ls where ls: "ss_wire (link_session N i) = concat (map as_bytes ls)"
    "\<forall>l\<in>set ls. good_line pr (net_sent N) (room_names (nt_server N)) l" by (auto simp: lines_ok_def sess_ok_def)
  have "\<forall>l\<in>set ls. is_line l" using ls(2) good_line_is_line [OF server_lines] by blast
  with line_start_next [OF start 1(2), of ls] ls(1) obtain l where l: "is_line l" "b = as_bytes l" by auto
  have "drop ?down (ss_wire (link_session N i)) = b @ rest" using next_line_length [OF 1(2)] by simp
  from wire_texts_read [OF start this l(2,1), of ?q]
  have read: "mset (wire_texts ?q (take (?down + length b) (ss_wire (link_session N i)))) =
      mset (wire_texts ?q (take ?down (ss_wire (link_session N i)))) + mset (line_texts ?q b)" by simp
  have hears: "heard (conn_of N1 x) \<subseteq># heard (conn_of N x) + (if x = ?x then mset (line_texts ?q b) else {#})"
    if "x \<in> conns N" for x
  proof -
    have "(fst x = fst ?x \<and> label_conn ?l = Some (snd x)) = (x = ?x)" by (auto simp: label_conn_def prod_eq_iff)
    moreover have "label_texts ?q ?l = mset (line_texts ?q b)"
      by (simp add: label_texts_def read_texts_def event_texts_def line_texts_def)
    ultimately show ?thesis using client_conn(1) [OF step that] by (simp only: conn_hears_def S(3))
  qed
  have same: "conns N1 = conns N"
  proof -
    have "length (sy_conns S) = length (sy_conns (nt_clients N ! fst ?x))" using S(2) by (auto split: if_splits)
    with S(1) show ?thesis by (auto simp: conns_def S(3) nth_list_update split: if_splits)
  qed
  let ?N = "N1\<lparr>nt_down := (nt_down N1)[i := ?down + length b]\<rparr>"
  have sub: "set (nt_links N) \<subseteq> conns N" by (rule links_ok_conns [OF links])
  have "heard (link_task ?N s) \<subseteq># mset (wire_texts ?q (take (nt_down ?N ! s) (ss_wire (link_session ?N s))))"
    if s: "s < length (nt_links N)" for s
  proof -
    have old: "heard (link_task N s) \<subseteq># mset (wire_texts ?q (take (nt_down N ! s) (ss_wire (link_session N s))))"
      using assms(3) s by (simp add: balance_def heard_ok_def)
    have new: "heard (link_task ?N s) \<subseteq># heard (link_task N s) + (if s = i then mset (line_texts ?q b) else {#})"
      using hears [of "nt_links N ! s"] subsetD [OF sub] s 1(1) assms(3)
      by (auto simp: link_task_conn S(3) balance_def links_apart_def nth_eq_iff_index_eq)
    show ?thesis
    proof (cases "s = i")
      case True
      with subset_mset.order_trans [OF new [unfolded True] subset_mset.add_right_mono [OF old [unfolded True]]]
        links s show ?thesis by (simp add: read [unfolded link_session_def] S(3) link_session_def links_ok_def)
    next
      case False
      with subset_mset.order_trans [OF new _] old show ?thesis by (simp add: S(3) link_session_def)
    qed
  qed
  moreover have "heard (conn_of N1 x) = {#}" if "x \<in> conns N" "x \<notin> set (nt_links N)" for x
  proof -
    have "x \<noteq> ?x" using that(2) 1(1) by auto
    with hears [OF that(1)] assms(3) that show ?thesis by (simp add: balance_def heard_ok_def)
  qed
  ultimately have "heard_ok ?q ?N" using same by (simp add: heard_ok_def S(3))
  moreover have "links_apart N1" "told_ok ?q N1"
    using client_links_apart [OF step links] client_told_ok [OF step links] assms(3)
    by (simp_all add: balance_def S(3))
  then have "links_apart ?N" "told_ok ?q ?N"
    by (simp_all add: links_apart_def told_ok_def asked_others_def asked_texts_def asked_def link_task_conn)
  ultimately show ?thesis using 1(4) by (simp add: balance_def S(3))
qed

lemma net_exec_balance:
  assumes "net_inv pr N" "ends_ok rt p pr parse N" "net_exec rt p pr parse l N = Some N'"
    "balance (rt_parse rt) N"
  shows "balance (rt_parse rt) N'"
proof (cases l)
  case (ClientStep i sl)
  with assms(3) have "client_exec rt p i sl N = Some N'" "reads_nothing sl" by (simp_all split: if_splits)
  with client_balance [OF _ _ assms(4)] reads_nothing_texts assms(1) show ?thesis by (simp add: net_inv_def)
next
  case (ServerStep sl)
  with assms(3) obtain sv where sv: "by_itself sl" "srv_exec pr parse sl (nt_server N) = Some sv"
    "N' = N\<lparr>nt_server := sv\<rparr>" by (auto simp del: srv_exec.simps split: if_splits)
  have links: "links_ok N" and lines: "lines_ok pr (net_sent N) (nt_server N)"
    using assms(1) by (simp_all add: net_inv_def)
  have srv: "srv_inv (nt_server N)" "hold_inv (nt_server N)"
    using assms(2) srv_reachable_inv srv_reachable_hold by (auto simp: ends_ok_def)
  have "told_at (rt_parse rt) sv s \<subseteq># asked_others N s" if "s < length (nt_links N)" for s
  proof (rule subset_mset.order_trans)
    show "told_at (rt_parse rt) sv s \<subseteq># told_at (rt_parse rt) (nt_server N) s"
      using told_by_itself [OF srv lines _ sv(1,2)] that links by (simp add: links_ok_def)
    show "told_at (rt_parse rt) (nt_server N) s \<subseteq># asked_others N s"
      using assms(4) that by (simp add: balance_def told_ok_def)
  qed
  moreover have "sl \<noteq> Accept" using sv(1) by auto
  ultimately show ?thesis unfolding sv(3)
    using balance_server [OF assms(4) links srv_exec_grows [OF sv(2) srv(1)]] by blast
qed (use assms connect_balance request_balance respond_balance in blast)+

lemma net_reachable_balance: "net_reachable rt p pr parse N \<Longrightarrow> balance (rt_parse rt) N"
proof (induction rule: net_reachable.induct)
  case (start n)
  show ?case
    by (auto simp: balance_def links_apart_def heard_ok_def told_ok_def init_net_def conns_def init_system_def)
next
  case (step N l N')
  show ?case
    by (rule net_exec_balance [OF net_reachable_inv [OF step.hyps(1)] net_reachable_ends [OF step.hyps(1)]
          step.hyps(2) step.IH])
qed

text \<open>What a connection has polled is bounded by what the other connections have taken.\<close>

lemma polled_taken:
  assumes "net_reachable rt p pr parse N" "x \<in> conns N"
  shows "event_texts (tk_polled (conn_of N x)) \<subseteq>#
    (\<Sum>y\<in>conns N - {x}. mset (concat (map request_texts (tk_taken (conn_of N y)))))"
proof -
  let ?q = "rt_parse rt"
  have inv: "links_ok N" "lines_ok pr (net_sent N) (nt_server N)" and bal: "balance ?q N"
    using net_reachable_inv [OF assms(1)] net_reachable_balance [OF assms(1)] by (simp_all add: net_inv_def)
  have fin: "finite (conns N)"
  proof (rule finite_subset)
    show "conns N \<subseteq> (SIGMA i:{..<length (nt_clients N)}. {..<length (sy_conns (nt_clients N ! i))})"
      by (auto simp: conns_def)
  qed simp
  have "sys_reachable rt p (nt_clients N ! fst x)"
    using net_reachable_ends [OF assms(1)] assms(2) by (auto simp: ends_ok_def conns_def)
  then have "conn_reachable rt (conn_of N x)" using reachable_conn assms(2) by (auto simp: conn_of_def conns_def)
  then have "prefix (tk_polled (conn_of N x)) (tk_sent (conn_of N x))"
    using conn_reachable_channel by (auto simp: channel_inv_def prefix_def)
  from event_texts_prefix [OF this] have polled: "event_texts (tk_polled (conn_of N x)) \<subseteq># heard (conn_of N x)"
    unfolding heard_def by (auto intro: subset_mset.order_trans)
  show ?thesis
  proof (cases "x \<in> set (nt_links N)")
    case False
    then have "heard (conn_of N x) = {#}" using bal assms(2) by (simp add: balance_def heard_ok_def)
    with polled show ?thesis by simp
  next
    case True
    then obtain s where s: "s < length (nt_links N)" "nt_links N ! s = x" by (auto simp: in_set_conv_nth)
    let ?w = "ss_wire (link_session N s)"
    let ?taken = "\<lambda>y. mset (concat (map request_texts (tk_taken (conn_of N y))))"
    have "link_session N s \<in> set (sv_sessions (nt_server N))"
      using inv(1) s(1) by (simp add: links_ok_def link_session_def)
    with inv(2) obtain ls where ls: "?w = concat (map as_bytes ls)"
      "\<forall>l\<in>set ls. good_line pr (net_sent N) (room_names (nt_server N)) l" by (auto simp: lines_ok_def sess_ok_def)
    then have "\<forall>l\<in>set ls. is_line l" using good_line_is_line [OF server_lines] by blast
    moreover have "line_start (nt_down N ! s) ?w" using inv(1) s(1) by (simp add: links_ok_def)
    ultimately have "mset (wire_texts ?q (take (nt_down N ! s) ?w)) \<subseteq># mset (wire_texts ?q ?w)"
      using ls(1) wire_texts_take by metis
    moreover have "heard (link_task N s) \<subseteq># mset (wire_texts ?q (take (nt_down N ! s) ?w))"
      using bal s(1) by (simp add: balance_def heard_ok_def)
    moreover have "mset (wire_texts ?q ?w) \<subseteq># told_at ?q (nt_server N) s"
      by (simp add: told_at_def told_def link_session_def)
    moreover have "told_at ?q (nt_server N) s \<subseteq># asked_others N s"
      using bal s(1) by (simp add: balance_def told_ok_def)
    moreover have "asked_others N s \<subseteq># (\<Sum>r\<in>{..<length (nt_links N)} - {s}. ?taken (nt_links N ! r))"
      unfolding asked_others_def asked_texts_def asked_def link_task_conn
      by (intro sum_subseteq mset_concat_mono) (metis append_take_drop_id mset_append mset_subset_eq_add_left)
    moreover have "(\<Sum>r\<in>{..<length (nt_links N)} - {s}. ?taken (nt_links N ! r)) =
        sum ?taken ((!) (nt_links N) ` ({..<length (nt_links N)} - {s}))"
      using bal by (subst sum.reindex) (auto simp: balance_def links_apart_def inj_on_def nth_eq_iff_index_eq)
    moreover have "sum ?taken ((!) (nt_links N) ` ({..<length (nt_links N)} - {s})) \<subseteq># sum ?taken (conns N - {x})"
      using fin links_ok_conns [OF inv(1)] s bal
      by (intro sum_subseteq_set) (auto simp: balance_def links_apart_def nth_eq_iff_index_eq)
    ultimately show ?thesis using polled s(2) by (auto simp: link_task_conn intro: subset_mset.order_trans)
  qed
qed

end

section \<open>What the users have sent\<close>

text \<open>The texts that the user of a client has sent over the connections \<open>P\<close>.\<close>

definition typed :: "('c, 'e) system \<Rightarrow> (nat \<Rightarrow> bool) \<Rightarrow> ustring list" where
  "typed S P = concat (map (\<lambda>(k, c). request_texts c) (filter (\<lambda>(k, c). P k) (sy_issued S)))"

lemma typed_sum:
  "(\<Sum>k\<in>{k. k < n \<and> P k}. mset (concat (map request_texts (for_conn k xs)))) \<subseteq>#
   mset (concat (map (\<lambda>(k, c). request_texts c) (filter (\<lambda>(k, c). P k) xs)))"
proof (induction xs)
  case (Cons x xs)
  obtain l c where x: "x = (l, c)" by (cases x)
  let ?f = "\<lambda>k. mset (concat (map request_texts (for_conn k xs)))"
  have "(\<Sum>k\<in>{k. k < n \<and> P k}. mset (concat (map request_texts (for_conn k (x # xs))))) =
      (\<Sum>k\<in>{k. k < n \<and> P k}. (if k = l then mset (request_texts c) else {#}) + ?f k)"
    by (intro sum.cong) (auto simp: x for_conn_def)
  also have "\<dots> = (if l < n \<and> P l then mset (request_texts c) else {#}) + sum ?f {k. k < n \<and> P k}"
    by (simp add: sum.distrib)
  also have "\<dots> \<subseteq># (if P l then mset (request_texts c) else {#}) +
      mset (concat (map (\<lambda>(k, c). request_texts c) (filter (\<lambda>(k, c). P k) xs)))"
    by (rule subset_mset.add_mono [OF _ Cons.IH]) simp
  finally show ?case by (simp add: x split: if_splits)
qed (simp add: for_conn_def)

end
