(* ===== verification/Net_Guarantees.thy ===== *)
theory Net_Guarantees
  imports Net_Counts
begin

text \<open>
  What the whole program promises its users: the messages shown were sent by the others, each at
  most once, a room confirmed exists on the server; every line of the server is understood; and a run of two clients and the server with compact JSON.
\<close>

section \<open>An example network\<close>

definition compact_runtime :: "(to_server list, from_server list) runtime" where
  "compact_runtime = vec_runtime\<lparr>rt_parse := flat_parse\<rparr>"

interpretation compact_net: chat_net compact_runtime id id compact_json flat_server_parse
proof
  show "channel_laws (rt_commands compact_runtime) id" "channel_laws (rt_events compact_runtime) id"
    by (simp_all add: compact_runtime_def vec_runtime_def vec_channel_laws)
qed (simp_all only: compact_runtime_def vec_runtime_def runtime.simps compact.client_lines
    compact.server_lines compact.requests compact.relays compact.confirmations compact.refused)

definition request :: "nat \<Rightarrow> to_server \<Rightarrow> net_label" where
  "request s c = Request s (compact_json (command_json c) @ [10])"

definition go_online :: "nat \<Rightarrow> net_label list" where
  "go_online i =
     [ClientStep i (Start (lit ''localhost'') (lit ''4040'')), Connect i 0,
      ClientStep i (Task 0 DoMainSend), ClientStep i (Task 0 DoMainGo), ClientStep i (Poll 0)]"

text \<open>The command of an input on its way to the socket, and a line on its way to the screen.\<close>

definition give :: "nat \<Rightarrow> client_input \<Rightarrow> net_label list" where
  "give i inp =
     [ClientStep i (Screen 0 inp), ClientStep i (Deliver 0), ClientStep i (Task 0 (DoCommand WriteOk))]"

definition take_line :: "nat \<Rightarrow> net_label list" where
  "take_line i =
     [ServerStep (WriteOut i SentAll), Respond i, ClientStep i (Task 0 DoReaderSend),
      ClientStep i (Task 0 DoReaderGo), ClientStep i (Poll 0)]"

definition joint_run :: "net_label list" where
  "joint_run =
     go_online 0 @ give 0 (CreateClick (lit ''a'')) @
     [request 0 (CreateAndSubscribe (lit ''a'')), ServerStep (Enroll 0), ServerStep (SpawnListener 0),
      ServerStep (Confirm 0)] @ take_line 0 @
     go_online 1 @ give 1 (SubscribeClick (lit ''1'')) @
     [request 1 (Subscribe 1), ServerStep (SpawnListener 1), ServerStep (Confirm 1)] @ take_line 1 @
     [ClientStep 0 (Screen 0 (SelectClick 1))] @ give 0 (SendClick (lit ''hi'')) @
     [request 0 (SendMessage 1 (lit ''hi'')), ServerStep (Forward 1 1)] @ take_line 1"

definition joint_net :: "(to_server list, from_server list) net" where
  "joint_net = the (run_schedule (net_exec compact_runtime Release compact_json flat_server_parse)
     joint_run (init_net 2))"

text \<open>What can be seen at its end: evaluated once.\<close>

definition joint_end :: "(to_server list, from_server list) net \<Rightarrow> bool" where
  "joint_end N \<longleftrightarrow>
     length (nt_clients N) = 2 \<and> length (sv_rooms (nt_server N)) = 1 \<and>
     length (sv_sessions (nt_server N)) = 2 \<and>
     length (arrived_lines (ss_wire (sv_sessions (nt_server N) ! 1))) = 2 \<and>
     length (sy_conns (nt_clients N ! 1)) = 1 \<and>
     typed (nt_clients N ! 1) (\<lambda>l. (1, l) \<noteq> (1::nat, 0)) = [] \<and>
     FS_RoomConfirmed 1 (lit ''a'') False \<in> set (tk_polled (sy_conns (nt_clients N ! 1) ! 0)) \<and>
     map msg_text (filter (\<lambda>m. msg_sender m = Server) (messages (sy_app (nt_clients N ! 1)))) = [lit ''hi'']"

lemma joint_run_end:
  "case run_schedule (net_exec compact_runtime Release compact_json flat_server_parse) joint_run (init_net 2) of
     None \<Rightarrow> False | Some N \<Rightarrow> joint_end N"
  by code_simp

lemma joint_net_value:
  "run_schedule (net_exec compact_runtime Release compact_json flat_server_parse)
     joint_run (init_net 2) = Some joint_net"
  using joint_run_end unfolding joint_net_def
  by (cases "run_schedule (net_exec compact_runtime Release compact_json flat_server_parse)
    joint_run (init_net 2)") simp_all

lemma joint_net_end: "joint_end joint_net"
  using joint_run_end unfolding joint_net_value by simp

lemma joint_net_reachable:
  "net_reachable compact_runtime Release compact_json flat_server_parse joint_net"
  by (rule run_net_reachable [OF joint_net_value net_reachable.start])

section \<open>Messages and rooms\<close>

context chat_net
begin

lemma polled_good:
  assumes "net_reachable rt p pr parse N" "i < length (nt_clients N)"
    "k < length (sy_conns (nt_clients N ! i))" "ev \<in> set (tk_polled (sy_conns (nt_clients N ! i) ! k))"
  shows "good_event (net_sent N) (room_names (nt_server N)) ev"
proof -
  have "sys_reachable rt p (nt_clients N ! i)"
    using net_reachable_ends [OF assms(1)] nth_mem [OF assms(2)] by (simp add: ends_ok_def)
  from polled_sent [OF reachable_conn [OF this assms(3)]] assms(4)
  have "ev \<in> reported (sy_conns (nt_clients N ! i) ! k)" by (auto simp: reported_def)
  with net_reachable_inv [OF assms(1)] nth_mem [OF assms(2)] nth_mem [OF assms(3)] show ?thesis
    unfolding net_inv_def events_ok_def by blast
qed

lemma conns_Sigma:
  "conns N - {(i, k)} =
     (SIGMA j:{..<length (nt_clients N)}. {l. l < length (sy_conns (nt_clients N ! j)) \<and> (j, l) \<noteq> (i, k)})"
  by (auto simp: conns_def)

lemma taken_typed:
  assumes "sys_reachable rt p S"
  shows "(\<Sum>l | l < length (sy_conns S) \<and> P l. mset (concat (map request_texts (tk_taken (sy_conns S ! l)))))
    \<subseteq># mset (typed S P)"
proof -
  have "mset (tk_taken (sy_conns S ! l)) \<subseteq># mset (for_conn l (sy_issued S))" if "l < length (sy_conns S)" for l
    using reachable_flow [OF assms] that by (simp add: flow_inv_def arrived_def)
  then have "(\<Sum>l | l < length (sy_conns S) \<and> P l. mset (concat (map request_texts (tk_taken (sy_conns S ! l)))))
      \<subseteq># (\<Sum>l | l < length (sy_conns S) \<and> P l. mset (concat (map request_texts (for_conn l (sy_issued S)))))"
    by (intro sum_subseteq mset_concat_mono) simp
  then show ?thesis unfolding typed_def by (rule subset_mset.order_trans [OF _ typed_sum])
qed

lemma polled_typed:
  assumes "net_reachable rt p pr parse N" "(i, k) \<in> conns N"
  shows "event_texts (tk_polled (sy_conns (nt_clients N ! i) ! k)) \<subseteq>#
    (\<Sum>j<length (nt_clients N). mset (typed (nt_clients N ! j) (\<lambda>l. (j, l) \<noteq> (i, k))))"
proof -
  let ?taken = "\<lambda>j l. mset (concat (map request_texts (tk_taken (sy_conns (nt_clients N ! j) ! l))))"
  have "event_texts (tk_polled (sy_conns (nt_clients N ! i) ! k)) \<subseteq>#
      (\<Sum>y\<in>conns N - {(i, k)}. ?taken (fst y) (snd y))"
    using polled_taken [OF assms] by (simp add: conn_of_def)
  also have "\<dots> = (\<Sum>j<length (nt_clients N).
      \<Sum>l | l < length (sy_conns (nt_clients N ! j)) \<and> (j, l) \<noteq> (i, k). ?taken j l)"
    unfolding conns_Sigma by (subst sum.Sigma) (auto simp: case_prod_beta)
  also have "\<dots> \<subseteq># (\<Sum>j<length (nt_clients N). mset (typed (nt_clients N ! j) (\<lambda>l. (j, l) \<noteq> (i, k))))"
    using net_reachable_ends [OF assms(1)] by (intro sum_subseteq taken_typed [where p = p]) (simp add: ends_ok_def)
  finally show ?thesis .
qed

lemma shown_typed:
  assumes "net_reachable rt p pr parse N" "i < length (nt_clients N)"
  shows "remote_log (sy_app (nt_clients N ! i)) \<subseteq>#
    (\<Sum>k<length (sy_conns (nt_clients N ! i)). \<Sum>j<length (nt_clients N).
       mset (typed (nt_clients N ! j) (\<lambda>l. (j, l) \<noteq> (i, k))))"
proof (rule subset_mset.order_trans)
  have "sys_reachable rt p (nt_clients N ! i)"
    using net_reachable_ends [OF assms(1)] assms(2) by (simp add: ends_ok_def)
  then show "remote_log (sy_app (nt_clients N ! i)) \<subseteq># polled_log (nt_clients N ! i)" by (rule reachable_log)
  show "polled_log (nt_clients N ! i) \<subseteq># (\<Sum>k<length (sy_conns (nt_clients N ! i)). \<Sum>j<length (nt_clients N).
       mset (typed (nt_clients N ! j) (\<lambda>l. (j, l) \<noteq> (i, k))))"
    unfolding polled_log_def using assms(2)
    by (intro sum_subseteq polled_typed [OF assms(1)]) (simp add: conns_def)
qed

end

text \<open>C1: No message is forged, doubled or echoed on the way: over every run of any number of clients with the server in which each send of the server transmits its whole line or fails, whatever else connects, disconnects or fails, the messages that a client shows as coming from somebody else are, counted with their multiplicity and for each connection it has made, among the messages that the users sent over the other connections. In particular a client that has connected once shows a text at most as often as the other users sent it, and never its own.\<close>

theorem no_forged_message:
  assumes "chat_net rt cmds evs pr parse" "net_reachable rt p pr parse N" "i < length (nt_clients N)"
  shows "mset (map msg_text (filter (\<lambda>m. msg_sender m = Server) (messages (sy_app (nt_clients N ! i)))))
    \<subseteq># (\<Sum>k<length (sy_conns (nt_clients N ! i)). \<Sum>j<length (nt_clients N).
          mset (typed (nt_clients N ! j) (\<lambda>l. (j, l) \<noteq> (i, k))))"
  using chat_net.shown_typed [OF assms] by (simp only: remote_log_def remote_of_def)

theorem no_forged_message_witness:
  "{#lit ''hi''#} \<subseteq># mset (typed (nt_clients joint_net ! 0) (\<lambda>l. True))"
proof -
  have "length (nt_clients joint_net) = 2" "length (sy_conns (nt_clients joint_net ! 1)) = 1"
    and shown: "map msg_text (filter (\<lambda>m. msg_sender m = Server) (messages (sy_app (nt_clients joint_net ! 1)))) =
      [lit ''hi'']"
    using joint_net_end by (simp_all only: joint_end_def)
  then have two: "{..<length (nt_clients joint_net)} = {0, 1}" "{..<length (sy_conns (nt_clients joint_net ! 1))} = {0}"
    and one: "1 < length (nt_clients joint_net)" by auto
  have own: "typed (nt_clients joint_net ! 1) (\<lambda>l. (1, l) \<noteq> (1, 0)) = []"
    using joint_net_end by (simp add: joint_end_def)
  from no_forged_message [OF compact_net.chat_net_axioms joint_net_reachable one] show ?thesis
    unfolding shown two by (simp add: own [simplified])
qed

text \<open>C2: The clients and the server agree on the rooms: over every run in which each send of the server transmits its whole line or fails, a room that a client was told is confirmed, created or joined, is a room of the server with exactly that identifier and name, and with fewer than 2 to the 64 rooms the only one with that identifier, so that any two clients know it by the same name.\<close>

theorem confirmed_rooms_exist:
  assumes "chat_net rt cmds evs pr parse" "net_reachable rt p pr parse N" "i < length (nt_clients N)"
    and "k < length (sy_conns (nt_clients N ! i))" "length (sv_rooms (nt_server N)) < 2 ^ 64"
    and "FS_RoomConfirmed rid name b \<in> set (tk_polled (sy_conns (nt_clients N ! i) ! k))"
  shows "\<exists>r<length (sv_rooms (nt_server N)). tr_id (sv_rooms (nt_server N) ! r) = rid
    \<and> tr_name (sv_rooms (nt_server N) ! r) = name
    \<and> (\<forall>j<length (sv_rooms (nt_server N)). tr_id (sv_rooms (nt_server N) ! j) = rid \<longrightarrow> j = r)"
proof -
  have "(rid, name) \<in> room_names (nt_server N)"
    using chat_net.polled_good [OF assms(1-4,6)] by simp
  then obtain r where r: "r < length (sv_rooms (nt_server N))" "tr_id (sv_rooms (nt_server N) ! r) = rid"
    "tr_name (sv_rooms (nt_server N) ! r) = name" by (auto simp: room_names_def in_set_conv_nth)
  have "srv_inv (nt_server N)"
    using net_reachable_ends [OF assms(2)] srv_reachable_inv by (auto simp: ends_ok_def)
  with room_id_inj [OF _ assms(5)] r show ?thesis by metis
qed

theorem confirmed_rooms_exist_witness:
  "\<exists>r<length (sv_rooms (nt_server joint_net)). tr_id (sv_rooms (nt_server joint_net) ! r) = 1
    \<and> tr_name (sv_rooms (nt_server joint_net) ! r) = lit ''a''"
proof -
  have one: "length (sv_rooms (nt_server joint_net)) = 1"
    and h: "1 < length (nt_clients joint_net)" "0 < length (sy_conns (nt_clients joint_net ! 1))"
    "FS_RoomConfirmed 1 (lit ''a'') False \<in> set (tk_polled (sy_conns (nt_clients joint_net ! 1) ! 0))"
    using joint_net_end by (simp_all add: joint_end_def)
  from confirmed_rooms_exist [OF compact_net.chat_net_axioms joint_net_reachable h(1,2) one_room [OF one] h(3)]
  show ?thesis by blast
qed

section \<open>Lines\<close>

lemma refusals_trimmed: "\<forall>t\<in>set refusals. trim (t @ [10]) = t \<and> t \<noteq> []"
  by code_simp

context chat_net
begin

lemma good_line_read:
  assumes "good_line pr M (room_names sv) l"
  shows "(\<exists>r\<in>set (sv_rooms sv). \<exists>m\<in>M. handle_read (rt_parse rt) (ReadLine l) = ([FS_Message (tr_name r) m], True))
    \<or> (\<exists>r\<in>set (sv_rooms sv). \<exists>b. handle_read (rt_parse rt) (ReadLine l) =
         ([FS_RoomConfirmed (tr_id r) (tr_name r) b], True))
    \<or> (\<exists>t\<in>set refusals. handle_read (rt_parse rt) (ReadLine l) = ([FS_Error t], True))"
  using assms unfolding good_line_def
proof (elim disjE)
  assume "\<exists>m\<in>M. \<exists>(rid, name)\<in>room_names sv. l = pr (relay_json m name) @ [10]"
  then obtain m r where "m \<in> M" "r \<in> set (sv_rooms sv)" "l = pr (relay_json m (tr_name r)) @ [10]"
    by (auto simp: room_names_def)
  with reads_relayed show ?thesis by blast
next
  assume "\<exists>b. \<exists>(rid, name)\<in>room_names sv. l = pr (ok_json b rid name) @ [10]"
  then obtain b r where "r \<in> set (sv_rooms sv)" "l = pr (ok_json b (tr_id r) (tr_name r)) @ [10]"
    by (auto simp: room_names_def)
  with reads_confirmed show ?thesis by blast
next
  assume "l \<in> (\<lambda>t. t @ [10]) ` set refusals"
  then obtain t where t: "t \<in> set refusals" "l = t @ [10]" by blast
  then have "handle_read (rt_parse rt) (ReadLine l) = ([FS_Error t], True)"
    using refused [OF t(1)] refusals_trimmed by (simp add: from_str_def Let_def)
  with t(1) show ?thesis by blast
qed

lemma wire_lines:
  assumes "net_reachable rt p pr parse N" "s \<in> set (sv_sessions (nt_server N))"
  obtains ls where "ss_wire s = concat (map as_bytes ls)" "\<forall>l\<in>set ls. is_line l"
    "\<forall>l\<in>set ls. good_line pr (net_sent N) (room_names (nt_server N)) l"
proof -
  have "sess_ok pr (net_sent N) (nt_server N) s"
    using net_reachable_inv [OF assms(1)] assms(2) by (simp add: net_inv_def lines_ok_def)
  then obtain ls where "ss_wire s = concat (map as_bytes ls)"
    "\<forall>l\<in>set ls. good_line pr (net_sent N) (room_names (nt_server N)) l" by (auto simp: sess_ok_def)
  with good_line_is_line [OF server_lines] that show thesis by blast
qed

end

text \<open>C23: What the server puts on a connection is framed and understood: over every run in which each send of the server transmits its whole line or fails, the bytes written on each connection are whole lines, the ones the client cuts them into at the newlines; and every one of them is read by the client as exactly one event: a message that some client sent, under the name of a room of the server, the confirmation of a room of the server with its identifier and name, or the text of one of the server's refusals.\<close>

theorem written_lines_understood:
  assumes "chat_net rt cmds evs pr parse" "net_reachable rt p pr parse N" "s \<in> set (sv_sessions (nt_server N))"
  shows "\<exists>ls. ss_wire s = concat (map as_bytes ls) \<and> arrived_lines (ss_wire s) = map as_bytes ls
    \<and> (\<forall>l\<in>set ls.
        (\<exists>r\<in>set (sv_rooms (nt_server N)). \<exists>m\<in>net_sent N.
           handle_read (rt_parse rt) (ReadLine l) = ([FS_Message (tr_name r) m], True))
      \<or> (\<exists>r\<in>set (sv_rooms (nt_server N)). \<exists>b.
           handle_read (rt_parse rt) (ReadLine l) = ([FS_RoomConfirmed (tr_id r) (tr_name r) b], True))
      \<or> (\<exists>t\<in>set refusals. handle_read (rt_parse rt) (ReadLine l) = ([FS_Error t], True)))"
proof -
  obtain ls where ls: "ss_wire s = concat (map as_bytes ls)" "\<forall>l\<in>set ls. is_line l"
    "\<forall>l\<in>set ls. good_line pr (net_sent N) (room_names (nt_server N)) l"
    by (rule chat_net.wire_lines [OF assms])
  from arrived_lines_concat [OF ls(2), of "[]"] ls(1) have "arrived_lines (ss_wire s) = map as_bytes ls" by simp
  with ls(1,3) chat_net.good_line_read [OF assms(1)] show ?thesis by meson
qed

theorem written_lines_understood_witness:
  "\<exists>ls. ss_wire (sv_sessions (nt_server joint_net) ! 1) = concat (map as_bytes ls)
    \<and> arrived_lines (ss_wire (sv_sessions (nt_server joint_net) ! 1)) = map as_bytes ls \<and> length ls = 2"
proof -
  have w: "length (sv_sessions (nt_server joint_net)) = 2"
    "length (arrived_lines (ss_wire (sv_sessions (nt_server joint_net) ! 1))) = 2"
    using joint_net_end by (simp_all only: joint_end_def)
  then have "sv_sessions (nt_server joint_net) ! 1 \<in> set (sv_sessions (nt_server joint_net))" by simp
  from written_lines_understood [OF compact_net.chat_net_axioms joint_net_reachable this] w(2) show ?thesis
    by (metis length_map)
qed

section \<open>The state of the server\<close>

text \<open>Rooms keep their number and name, and their members.\<close>

definition members_kept :: "tcp_chat_room list \<Rightarrow> tcp_chat_room list \<Rightarrow> bool" where
  "members_kept rs rs' \<longleftrightarrow>
     length rs \<le> length rs' \<and> (\<forall>k<length rs. prefix (tr_connections (rs ! k)) (tr_connections (rs' ! k)))"

lemma members_kept_refl [simp]: "members_kept rs rs"
  by (simp add: members_kept_def)

lemma members_kept_trans: "members_kept rs rs' \<Longrightarrow> members_kept rs' rs'' \<Longrightarrow> members_kept rs rs''"
  unfolding members_kept_def by (meson order_trans prefix_order.trans less_le_trans)

lemma members_kept_enter:
  assumes "sub_to_room k sv = (c, sv')"
  shows "members_kept (sv_rooms sv) (sv_rooms sv')"
proof -
  let ?room = "(sv_rooms sv ! k)\<lparr>tr_connections := tr_connections (sv_rooms sv ! k) @ [c]\<rparr>"
  have "prefix (tr_connections (sv_rooms sv ! j)) (tr_connections ((sv_rooms sv)[k := ?room] ! j))"
    if "j < length (sv_rooms sv)" for j
    using that by (cases "j = k") simp_all
  then show ?thesis using assms by (auto simp: sub_to_room_def Let_def members_kept_def)
qed

lemma members_kept_quiet: "quiet sv sv' \<Longrightarrow> members_kept (sv_rooms sv) (sv_rooms sv')"
  by (simp add: quiet_def)

lemma members_kept_line:
  assumes "ss_pc (sv_sessions sv ! i) = Reading"
  shows "members_kept (sv_rooms sv) (sv_rooms (handle_line parse i l sv))"
proof -
  have sub: "members_kept (sv_rooms sv) (sv_rooms (joined i (handle_sub data subs sv) sv))" for data subs
  proof (cases "handle_sub data subs sv")
    case (Inl e)
    then show ?thesis by (simp add: joined_def members_kept_quiet [OF quiet_reply])
  next
    case (Inr x)
    obtain c k sv' where x: "x = (c, k, sv')" by (cases x)
    with Inr handle_sub_Inr members_kept_enter have "members_kept (sv_rooms sv) (sv_rooms sv')" by blast
    with Inr x show ?thesis by (simp add: joined_def set_session_def)
  qed
  have create: "members_kept (sv_rooms sv) (sv_rooms (created i (handle_create_and_sub data sv) sv))" for data
    by (auto simp: created_def add_room_def set_session_def members_kept_def nth_append
        members_kept_quiet [OF quiet_reply, unfolded members_kept_def] dest!: handle_create_Inr split: sum.split)
  show ?thesis using assms
    by (simp add: handle_line_def dispatch_def Let_def sub create members_kept_quiet [OF quiet_reply]
        members_kept_quiet [OF quiet_end_session] members_kept_quiet [OF quiet_handle_msg]
        split: sum.split json.split option.split)
qed

lemma members_kept_step:
  assumes "srv_exec pr parse l sv = Some sv'"
  shows "members_kept (sv_rooms sv) (sv_rooms sv')"
proof (cases l)
  case (Line i t)
  with assms members_kept_line show ?thesis by (auto split: if_splits)
next
  case (Hangup i)
  with assms show ?thesis by (auto intro: members_kept_quiet [OF quiet_end_session] split: if_splits)
next
  case (Enroll i)
  with assms obtain k c sv1 where "sub_to_room k sv = (c, sv1)" "sv_rooms sv' = sv_rooms sv1"
    by (auto simp: enroll_def set_session_def case_prod_beta prod_eq_iff split: session_pc.splits if_splits)
  with members_kept_enter [of k sv c sv1] show ?thesis by simp
qed (use assms members_kept_quiet [OF srv_quiet(1)] members_kept_quiet [OF srv_quiet(2)]
    members_kept_quiet [OF srv_quiet(3)] members_kept_quiet [OF srv_quiet(4)] members_kept_quiet [OF srv_quiet(5)]
    members_kept_quiet [OF srv_quiet(6)] members_kept_quiet [OF srv_quiet(7)] members_kept_quiet [OF srv_quiet(8)]
    in \<open>auto split: if_splits\<close>)

lemma members_kept_run:
  "run_schedule (srv_exec pr parse) ls sv = Some sv' \<Longrightarrow> members_kept (sv_rooms sv) (sv_rooms sv')"
  by (induction ls arbitrary: sv)
    (auto simp: bind_eq_Some_conv dest: members_kept_step intro: members_kept_trans)

text \<open>A channel has one owner: the session that subscribed with it.\<close>

lemma owns_room_chans:
  assumes "hold_ok s" "owns s c"
  shows "\<exists>k. (k, c) \<in> owned s"
proof -
  have "set (ss_listeners s) \<subseteq> prod.swap ` set (ss_subs s)" using assms(1) by (simp add: hold_ok_def)
  with assms(2) show ?thesis
    by (cases "ss_pc s") (force simp: owns_def list_ex_iff owned_def)+
qed

lemma one_owner:
  assumes "srv_inv sv" "hold_inv sv" "i < length (sv_sessions sv)" "j < length (sv_sessions sv)"
    "owns (sv_sessions sv ! i) c" "owns (sv_sessions sv ! j) c"
  shows "i = j"
proof (rule ccontr)
  assume "i \<noteq> j"
  then have "snd ` owned (sv_sessions sv ! i) \<inter> snd ` owned (sv_sessions sv ! j) = {}"
    using assms(1,3,4) by (simp add: srv_inv_def)
  with owns_room_chans [OF hold_ok_nth [OF assms(2,3)] assms(5)] owns_room_chans [OF hold_ok_nth [OF assms(2,4)] assms(6)]
  show False by force
qed

text \<open>C22: The server's state is well formed in every reachable state: rooms are numbered from 1 in the order of their creation; the members of a room are different pointers, each to the channel of exactly one session or expired, and an expired one is to a channel that was closed; a session's subscriptions name existing rooms and members of them. And members are never removed: over every further run, which may end any session, the members of a room stay in its list, expired or not, in their order.\<close>

theorem server_well_formed:
  assumes "srv_reachable pr parse sv"
  shows "(\<forall>k<length (sv_rooms sv). tr_id (sv_rooms sv ! k) = of_nat (k + 1)
      \<and> distinct (tr_connections (sv_rooms sv ! k))
      \<and> (\<forall>c\<in>set (tr_connections (sv_rooms sv ! k)).
           (\<exists>!i. i < length (sv_sessions sv) \<and> owns (sv_sessions sv ! i) c)
           \<or> expired sv c \<and> sc_closed (sv_chans sv ! c)))
    \<and> (\<forall>s\<in>set (sv_sessions sv). \<forall>(k, c)\<in>set (ss_subs s).
        k < length (sv_rooms sv) \<and> c \<in> set (tr_connections (sv_rooms sv ! k)))
    \<and> (\<forall>ls sv'. run_schedule (srv_exec pr parse) ls sv = Some sv' \<longrightarrow>
        (\<forall>k<length (sv_rooms sv). prefix (tr_connections (sv_rooms sv ! k)) (tr_connections (sv_rooms sv' ! k))))"
proof (intro conjI)
  note inv = srv_reachable_inv [OF assms] and hold = srv_reachable_hold [OF assms]
  have "(\<exists>!i. i < length (sv_sessions sv) \<and> owns (sv_sessions sv ! i) c) \<or> expired sv c \<and> sc_closed (sv_chans sv ! c)"
    if "c < length (sv_chans sv)" for c
  proof (cases "expired sv c")
    case True
    with inv that show ?thesis by (auto simp: srv_inv_def chans_owned_def)
  next
    case False
    with one_owner [OF inv hold] show ?thesis unfolding not_expired by blast
  qed
  then have members: "\<forall>c\<in>set (tr_connections (sv_rooms sv ! k)).
      (\<exists>!i. i < length (sv_sessions sv) \<and> owns (sv_sessions sv ! i) c) \<or> expired sv c \<and> sc_closed (sv_chans sv ! c)"
    if "k < length (sv_rooms sv)" for k
    using inv that by (meson lessThan_iff room_ok_def srv_inv_def subsetD)
  have rooms: "room_ok sv k" if "k < length (sv_rooms sv)" for k
    using inv that by (simp add: srv_inv_def)
  show "\<forall>k<length (sv_rooms sv). tr_id (sv_rooms sv ! k) = of_nat (k + 1)
      \<and> distinct (tr_connections (sv_rooms sv ! k))
      \<and> (\<forall>c\<in>set (tr_connections (sv_rooms sv ! k)).
           (\<exists>!i. i < length (sv_sessions sv) \<and> owns (sv_sessions sv ! i) c)
           \<or> expired sv c \<and> sc_closed (sv_chans sv ! c))"
    using members rooms unfolding room_ok_def by blast
  show "\<forall>s\<in>set (sv_sessions sv). \<forall>(k, c)\<in>set (ss_subs s).
      k < length (sv_rooms sv) \<and> c \<in> set (tr_connections (sv_rooms sv ! k))"
    using owned_rooms [OF inv] by (auto simp: in_set_conv_nth [of _ "sv_sessions sv"])
  show "\<forall>ls sv'. run_schedule (srv_exec pr parse) ls sv = Some sv' \<longrightarrow>
      (\<forall>k<length (sv_rooms sv). prefix (tr_connections (sv_rooms sv ! k)) (tr_connections (sv_rooms sv' ! k)))"
    using members_kept_run by (auto simp: members_kept_def)
qed

theorem server_well_formed_witness:
  "tr_connections (sv_rooms (the (serve (two_members @ [Hangup 1, LeaveRoom 1 1]))) ! 0) = [0, 1]
   \<and> expired (the (serve (two_members @ [Hangup 1, LeaveRoom 1 1]))) 1
   \<and> sc_closed (sv_chans (the (serve (two_members @ [Hangup 1, LeaveRoom 1 1]))) ! 1)"
proof -
  let ?sv = "the (serve (two_members @ [Hangup 1, LeaveRoom 1 1]))"
  have reach: "srv_reachable compact_json example_parse ?sv"
    by (rule serve_reachable) code_simp
  have v: "tr_connections (sv_rooms ?sv ! 0) = [0, 1]" "0 < length (sv_rooms ?sv)" "expired ?sv 1" by code_simp+
  have "(\<exists>!i. i < length (sv_sessions ?sv) \<and> owns (sv_sessions ?sv ! i) 1)
      \<or> expired ?sv 1 \<and> sc_closed (sv_chans ?sv ! 1)"
    using server_well_formed [OF reach, THEN conjunct1] v(1,2) by force
  with v(3) have "sc_closed (sv_chans ?sv ! 1)" using not_expired [of ?sv 1] by blast
  with v show ?thesis by blast
qed

end
