(* ===== verification/Net_Hazards.thy ===== *)
theory Net_Hazards
  imports Net_Guarantees
begin

text \<open>
  Where the client and the server fail each other: a message that overtakes the confirmation of a
  subscription, a room that is joined again, and a send that transmits only a part of a line.
\<close>

section \<open>A message before the confirmation\<close>

text \<open>A message of a room that the client does not know by name is dropped.\<close>

lemma unknown_room_dropped:
  "name \<notin> rm_name ` set (rooms s) \<Longrightarrow> handle_event p clock (FS_Message name m) s = Inr s"
proof -
  assume "name \<notin> rm_name ` set (rooms s)"
  then have "find (\<lambda>r. rm_name r = name) (rooms s) = None" by (auto simp: find_None_iff)
  then show ?thesis by (simp add: receive_message_def)
qed

text \<open>C35: A message that the server relays between adding a subscriber to the room and confirming the subscription is lost on the client: in every reachable state in which one session has just joined a room and another one of the room sends a message, the listener can forward the message before the confirmation is written; the client reads the message first, and as its room still has a placeholder name, it drops it.\<close>

theorem early_message_lost:
  assumes "srv_reachable pr parse sv" "length (sv_rooms sv) < 2 ^ 64" "room = sv_rooms sv ! k"
    and "i < length (sv_sessions sv)" "ss_pc (sv_sessions sv ! i) = Reading"
    and "map_of (ss_subs (sv_sessions sv ! i)) k = Some own" "takes parse l (SendMessage (tr_id room) m)"
    and "j < length (sv_sessions sv)" "ss_pc (sv_sessions sv ! j) = Joined c k False"
    and "sv_chans sv ! c = new_chan" "\<not> sc_closed (ss_out (sv_sessions sv ! j))"
    and "reads_back pr cparse (relay_json m (tr_name room))"
    and "reads_back pr cparse (sub_ok_json (tr_id room) (tr_name room))"
    and "tr_name room \<notin> rm_name ` set (rooms s)"
  shows "\<exists>sv' first second.
      run_schedule (srv_exec pr parse) [SpawnListener j, Line i l, Forward j c, Confirm j] sv = Some sv'
    \<and> sc_queue (ss_out (sv_sessions sv' ! j)) = sc_queue (ss_out (sv_sessions sv ! j)) @ [first, second]
    \<and> handle_read cparse (ReadLine first) = ([FS_Message (tr_name room) m], True)
    \<and> handle_read cparse (ReadLine second) = ([FS_RoomConfirmed (tr_id room) (tr_name room) False], True)
    \<and> handle_event p clock (FS_Message (tr_name room) m) s = Inr s"
proof -
  note inv = srv_reachable_inv [OF assms(1)] and hold = srv_reachable_hold [OF assms(1)]
  let ?s = "sv_sessions sv ! j"
  have kc: "(k, c) \<in> set (room_chans ?s)" using assms(9) by (simp add: room_chans_def)
  note range = room_chans_range [OF inv assms(8) kc]
  have ok: "hold_ok ?s" by (rule hold_ok_nth [OF hold assms(8)])
  then have new: "k \<notin> fst ` set (ss_subs ?s)" using assms(9) by (auto simp: hold_ok_def room_chans_def)
  have ij: "i \<noteq> j" using assms(5,9) by auto
  have "c \<notin> fst ` set (ss_listeners ?s)"
  proof
    assume "c \<in> fst ` set (ss_listeners ?s)"
    with ok obtain k' where k': "(k', c) \<in> set (ss_subs ?s)" by (auto simp: hold_ok_def)
    with new have "k' \<noteq> k" by force
    moreover have "(k', c) \<in> set (room_chans ?s)" using k' by (simp add: room_chans_def)
    note room_chans_range [OF inv assms(8) this]
    ultimately show False using hold range by (auto simp: hold_inv_def rooms_apart_def)
  qed
  then have listens: "map_of (ss_listeners ?s @ [(c, k)]) c = Some k"
    by (simp add: map_add_Some_iff map_of_eq_None_iff)
  let ?t = "?s\<lparr>ss_pc := Confirming k False, ss_listeners := ss_listeners ?s @ [(c, k)],
    ss_subs := ss_subs ?s @ [(k, c)]\<rparr>"
  let ?sv1 = "set_session j ?t sv"
  have spawn: "srv_exec pr parse (SpawnListener j) sv = Some ?sv1"
    using assms(8,9) new by (simp add: spawn_listener_def Let_def)
  note inv1 = srv_reachable_inv [OF srv_reachable.step [OF assms(1) spawn]]
  have "c \<noteq> own"
  proof -
    have "snd ` owned (sv_sessions sv ! i) \<inter> snd ` owned ?s = {}" using inv assms(4,8) ij by (simp add: srv_inv_def)
    moreover have "own \<in> snd ` owned (sv_sessions sv ! i)"
      using map_of_SomeD [OF assms(6)] by (force simp: owned_def)
    ultimately show ?thesis using kc by (force simp: set_room_chans)
  qed
  then have "\<exists>sv2. run_schedule (srv_exec pr parse) [Line i l, Forward j c] ?sv1 = Some sv2
    \<and> sv_rooms sv2 = sv_rooms ?sv1
    \<and> sv_sessions sv2 = (sv_sessions ?sv1)[j := (sv_sessions ?sv1 ! j)\<lparr>ss_out := chan_write
        (pr (relay_json m (tr_name (sv_rooms ?sv1 ! k))) @ [10]) (ss_out (sv_sessions ?sv1 ! j))\<rparr>]"
    using assms(2-8,10) ij listens range(2)
    by (intro delivery_steps [OF inv1, where own = own]) (simp_all add: set_session_def new_chan_def)
  then obtain sv2 where sv2: "run_schedule (srv_exec pr parse) [Line i l, Forward j c] ?sv1 = Some sv2"
    "sv_rooms sv2 = sv_rooms sv" "length (sv_sessions sv2) = length (sv_sessions sv)"
    "sv_sessions sv2 ! j = ?t\<lparr>ss_out := chan_write (pr (relay_json m (tr_name room)) @ [10]) (ss_out ?s)\<rparr>"
    using assms(3,8) by (auto simp: set_session_def)
  let ?ok = "pr (sub_ok_json (tr_id room) (tr_name room)) @ [10]"
  from sv2 assms(3,8,11) obtain sv3 where sv3: "srv_exec pr parse (Confirm j) sv2 = Some sv3"
    "sc_queue (ss_out (sv_sessions sv3 ! j)) =
      sc_queue (ss_out ?s) @ [pr (relay_json m (tr_name room)) @ [10], ?ok]"
    by (simp add: confirm_def reply_def set_session_def Let_def)
  have run: "run_schedule (srv_exec pr parse) [SpawnListener j, Line i l, Forward j c, Confirm j] sv = Some sv3"
    using spawn sv2(1) sv3(1) by (auto simp: bind_eq_Some_conv simp del: srv_exec.simps)
  have "handle_read cparse (ReadLine ?ok) = ([FS_RoomConfirmed (tr_id room) (tr_name room) False], True)"
    using reads_confirmation [of pr cparse False "tr_id room" "tr_name room"] assms(13) by (simp only: if_False)
  with run sv3(2) reads_relay [OF assms(12)] unknown_room_dropped [OF assms(14)] show ?thesis by blast
qed

theorem early_message_lost_witness:
  "\<exists>sv' first second. run_schedule (srv_exec compact_json example_parse)
      [SpawnListener 1, Line 0 (example_line (SendMessage 1 (lit ''hi''))), Forward 1 1, Confirm 1]
      (the (serve ([Accept, Accept] @ create_a 0 @ [Line 1 (example_line (Subscribe 1))]))) = Some sv'
    \<and> sc_queue (ss_out (sv_sessions sv' ! 1)) = [first, second]
    \<and> handle_read example_reader (ReadLine first) = ([FS_Message (lit ''a'') (lit ''hi'')], True)
    \<and> handle_read example_reader (ReadLine second) = ([FS_RoomConfirmed 1 (lit ''a'') False], True)"
proof -
  let ?sv = "the (serve ([Accept, Accept] @ create_a 0 @ [Line 1 (example_line (Subscribe 1))]))"
  let ?room = "\<lparr>tr_name = lit ''a'', tr_connections = [0, 1], tr_id = 1\<rparr>"
  have reach: "srv_reachable compact_json example_parse ?sv"
    by (rule serve_reachable) code_simp
  have h: "length (sv_rooms ?sv) = 1" "?room = sv_rooms ?sv ! 0" "0 < length (sv_sessions ?sv)"
    "ss_pc (sv_sessions ?sv ! 0) = Reading" "map_of (ss_subs (sv_sessions ?sv ! 0)) 0 = Some 0"
    "takes example_parse (example_line (SendMessage 1 (lit ''hi''))) (SendMessage (tr_id ?room) (lit ''hi''))"
    "1 < length (sv_sessions ?sv)" "ss_pc (sv_sessions ?sv ! 1) = Joined 1 0 False" "sv_chans ?sv ! 1 = new_chan"
    "\<not> sc_closed (ss_out (sv_sessions ?sv ! 1))"
    "reads_back compact_json example_reader (relay_json (lit ''hi'') (tr_name ?room))"
    "reads_back compact_json example_reader (sub_ok_json (tr_id ?room) (tr_name ?room))" by code_simp+
  have app: "tr_name ?room \<notin> rm_name ` set (rooms init_app)" by (simp add: init_app_def)
  have "sc_queue (ss_out (sv_sessions ?sv ! 1)) = []" "tr_id ?room = 1" "tr_name ?room = lit ''a''" by code_simp+
  with early_message_lost [OF reach one_room [OF h(1)] h(2-12) app, of Debug 0] show ?thesis by (simp only: append_Nil) blast
qed

section \<open>Joining a room again\<close>

definition already :: ustring where
  "already = lit ''Failed: Already subscribed to this Chat Room''"

lemma already_refused: "already \<in> set refusals" "trim (already @ [10]) = already"
  by code_simp+

lemma handle_sub_again:
  assumes "srv_inv sv" "i < length (sv_sessions sv)" "(k, c) \<in> set (ss_subs (sv_sessions sv ! i))"
    "takes parse l (Subscribe (tr_id (sv_rooms sv ! k)))"
  shows "handle_line parse i l sv = reply i (already @ [10]) sv"
proof -
  have "list_ex (\<lambda>(j, c). tr_id (sv_rooms sv ! j) = tr_id (sv_rooms sv ! k)) (ss_subs (sv_sessions sv ! i))"
    using assms(3) by (auto simp: list_ex_iff)
  then show ?thesis using handle_line_command [OF assms(4)]
    by (simp add: handle_sub_def parse_id_def joined_def already_def lit_def)
qed

text \<open>The inputs that bring a name into the list of rooms.\<close>

fun brings_name :: "ustring \<Rightarrow> client_input \<Rightarrow> bool" where
  "brings_name n (CreateClick t) \<longleftrightarrow> trim t = n"
| "brings_name n (SubscribeClick t) \<longleftrightarrow>
     (case parse_word (trim t) :: u64 option of None \<Rightarrow> False | Some i \<Rightarrow> lit ''Room #'' @ show_word i = n)"
| "brings_name n (Event (FS_RoomConfirmed sid name b)) \<longleftrightarrow> name = n \<and> \<not> b"
| "brings_name n _ \<longleftrightarrow> False"

lemma update_first_names [simp]:
  "rm_name ` set (update_first P (\<lambda>r. r\<lparr>rm_unread := u\<rparr>) rs) = rm_name ` set rs"
  "rm_name ` set (update_first P (\<lambda>r. r\<lparr>rm_id := i\<rparr>) rs) = rm_name ` set rs"
  by (induction rs) auto

lemma update_first_unread:
  "r \<in> set (update_first P (\<lambda>r. r\<lparr>rm_unread := u\<rparr>) rs) \<Longrightarrow> rm_name r \<in> rm_name ` set rs"
  using update_first_names(1) [of P u rs] by blast

lemma update_first_name:
  "rm_name ` set (update_first P (\<lambda>r. r\<lparr>rm_name := n\<rparr>) rs) \<subseteq> insert n (rm_name ` set rs)"
  by (induction rs) auto

lemma handle_event_names:
  assumes "handle_event p clock ev s = Inr s'" "\<not> brings_name n (Event ev)" "n \<notin> rm_name ` set (rooms s)"
  shows "n \<notin> rm_name ` set (rooms s')"
proof (cases ev)
  case (FS_RoomConfirmed sid name b)
  have "rm_name ` set (rooms (confirm_created sid name s)) = rm_name ` set (rooms s)"
    by (simp add: confirm_created_def Let_def split: option.split)
  moreover have "rm_name ` set (rooms (confirm_subscribed sid name s)) \<subseteq> insert name (rm_name ` set (rooms s))"
    by (simp add: confirm_subscribed_def update_first_name)
  ultimately show ?thesis using assms FS_RoomConfirmed by (cases b) auto
next
  case (FS_Message g t)
  have "rm_name ` set (rooms s') = rm_name ` set (rooms s)"
    using assms(1) FS_Message
    by (clarsimp simp: receive_message_def Let_def res_simps split: option.splits if_splits)
  with assms(3) show ?thesis by simp
qed (use assms in \<open>auto dest: add_toast_app(1)\<close>)

lemma rooms_untouched [simp]:
  "rooms (fst (do_send clock i t s)) = rooms s" "rooms (expire_toast j s) = rooms s"
  "rooms (drop_toast_task j s) = rooms s"
  by (simp_all add: do_send_def push_message_def send_command_def Let_def expire_toast_def drop_toast_task_def
      split: option.split)

lemma client_step_names:
  assumes "client_step p clock i s = Inr s'" "\<not> brings_name n i" "n \<notin> rm_name ` set (rooms s)"
  shows "n \<notin> rm_name ` set (rooms s')"
proof (cases i)
  case (Event ev)
  with assms handle_event_names [of p clock ev s s' n] show ?thesis by simp
next
  case (CreateClick t)
  with assms show ?thesis
    by (auto simp: map_sum_fst_Inr add_toast_app elim!: do_create_cases)
next
  case (SubscribeClick t)
  with assms show ?thesis
    by (auto simp: map_sum_fst_Inr add_toast_app elim!: do_subscribe_cases)
next
  case (UnsubscribeItemClick j)
  with assms show ?thesis
    by (auto simp: unsubscribe_item_def Let_def remove_room_def add_toast_app split: if_splits)
next
  case UnsubscribeHeaderClick
  with assms show ?thesis
    by (auto simp: unsubscribe_header_def remove_room_def add_toast_app split: option.splits)
next
  case (SelectClick j)
  with assms show ?thesis by (auto simp: select_room_def dest: update_first_unread)
next
  case (ConnectClick k h q)
  with assms show ?thesis by (auto simp: click_connect_def split: option.splits)
qed (use assms in \<open>auto simp: click_disconnect_def send_command_def split: option.splits\<close>)

lemma run_client_names:
  "run_client p is s = Inr s' \<Longrightarrow> \<forall>i\<in>set is. \<not> brings_name n (snd i) \<Longrightarrow>
   n \<notin> rm_name ` set (rooms s) \<Longrightarrow> n \<notin> rm_name ` set (rooms s')"
proof (induction "is" arbitrary: s)
  case (Cons i "is")
  then show ?case
    using client_step_names [of p "fst i" "snd i" s] by (auto split: if_splits sum.splits)
qed simp

text \<open>C36: Leaving a room and joining it again cuts the client off from it, when the room was the only one of its name in the list and its name is not the placeholder of its number. Leaving is only local, so the session is still subscribed: the server answers the new subscription with the line of a refusal and changes nothing; the client, which has opened the room under a placeholder name, shows an error and keeps the room; and over every run from there it drops the messages that the server relays from the room, as long as no input gives the name to a room of the list: the creation of a room of that name, a subscription whose placeholder is that name, or a confirmed subscription under that name.\<close>

theorem resubscribe_never_receives:
  assumes "srv_reachable pr parse sv" "i < length (sv_sessions sv)" "ss_pc (sv_sessions sv ! i) = Reading"
    and "\<not> sc_closed (ss_out (sv_sessions sv ! i))" "(k, c) \<in> set (ss_subs (sv_sessions sv ! i))"
    and "room = sv_rooms sv ! k" "takes parse l (Subscribe (tr_id room))" "cparse already = None"
    and "cmd_tx s0 = Some tx" "\<And>r. r \<in> set (rooms s0) \<Longrightarrow> rm_name r = tr_name room \<Longrightarrow> rm_id r = tr_id room"
    and "tr_name room \<noteq> lit ''Room #'' @ show_word (tr_id room)"
    and "unsubscribe_item p (tr_id room) s0 = Inr s" "parse_word (trim t) = Some (tr_id room)"
    and "do_subscribe p clock t s = Inr (s1, t1)" "handle_event p clock (FS_Error already) s1 = Inr s2"
  shows "\<exists>sv' line. srv_exec pr parse (Line i l) sv = Some sv'
    \<and> sv_rooms sv' = sv_rooms sv \<and> sv_chans sv' = sv_chans sv
    \<and> ss_subs (sv_sessions sv' ! i) = ss_subs (sv_sessions sv ! i)
    \<and> sc_queue (ss_out (sv_sessions sv' ! i)) = sc_queue (ss_out (sv_sessions sv ! i)) @ [line]
    \<and> handle_read cparse (ReadLine line) = ([FS_Error already], True)
    \<and> outbox s = outbox s0 \<and> room_ids s2 = room_ids s @ [tr_id room]
    \<and> (\<forall>is s3. run_client p is s2 = Inr s3 \<longrightarrow> (\<forall>inp\<in>set is. \<not> brings_name (tr_name room) (snd inp)) \<longrightarrow>
         handle_event p clock' (FS_Message (tr_name room) m) s3 = Inr s3)"
proof -
  note line = handle_sub_again [OF srv_reachable_inv [OF assms(1)] assms(2,5) assms(7) [unfolded assms(6)]]
  have "already \<noteq> []" by (simp add: already_def)
  then have read: "handle_read cparse (ReadLine (already @ [10])) = ([FS_Error already], True)"
    using already_refused(2) assms(8) by (simp add: from_str_def Let_def)
  have left: "rooms s = filter (\<lambda>r. rm_id r \<noteq> tr_id room) (rooms s0)" "cmd_tx s = cmd_tx s0" "outbox s = outbox s0"
    using assms(12) by (auto simp: unsubscribe_item_def Let_def remove_room_def add_toast_app split: if_splits)
  then have gone: "tr_name room \<notin> rm_name ` set (rooms s)" using assms(10) by auto
  have "trim t \<noteq> []"
  proof
    assume "trim t = []"
    with assms(13) show False by (simp add: parse_word_def)
  qed
  moreover have "\<not> (\<exists>r\<in>set (rooms s). rm_id r = tr_id room)" by (simp add: left(1))
  ultimately have "rooms s1 = rooms s @ [\<lparr>rm_id = tr_id room,
      rm_name = lit ''Room #'' @ show_word (tr_id room), rm_unread = 0\<rparr>]"
    using assms(9,13,14) left(2)
    by (auto simp: do_subscribe_def Let_def push_room_def push_message_def send_command_def res_simps
        dest!: add_toast_app(1))
  moreover have "rooms s2 = rooms s1" using assms(15) by (auto dest: add_toast_app)
  ultimately have ids: "room_ids s2 = room_ids s @ [tr_id room]" and names: "tr_name room \<notin> rm_name ` set (rooms s2)"
    using assms(11) gone by auto
  have "\<forall>is s3. run_client p is s2 = Inr s3 \<longrightarrow> (\<forall>inp\<in>set is. \<not> brings_name (tr_name room) (snd inp)) \<longrightarrow>
      handle_event p clock' (FS_Message (tr_name room) m) s3 = Inr s3"
    using run_client_names [OF _ _ names] unknown_room_dropped by blast
  moreover have "srv_exec pr parse (Line i l) sv = Some (reply i (already @ [10]) sv)"
    using assms(2,3) line by simp
  ultimately show ?thesis using read assms(2,4) left(3) ids
    by (intro exI [of _ "reply i (already @ [10]) sv"] exI [of _ "already @ [10]"])
      (simp add: reply_def set_session_def Let_def del: handle_event.simps handle_read.simps)
qed

theorem resubscribe_never_receives_witness:
  "\<exists>sv' line s2. srv_exec compact_json example_parse (Line 1 (example_line (Subscribe 1))) (the (serve two_members)) = Some sv'
    \<and> handle_read example_reader (ReadLine line) = ([FS_Error already], True)
    \<and> room_ids s2 = [1] \<and> handle_event Release 0 (FS_Message (lit ''a'') (lit ''hi'')) s2 = Inr s2"
proof -
  let ?sv = "the (serve two_members)"
  let ?room = "\<lparr>tr_name = lit ''a'', tr_connections = [0, 1], tr_id = 1\<rparr>"
  let ?s = "init_app\<lparr>cmd_tx := Some 0, rooms := [\<lparr>rm_id = 1, rm_name = lit ''a'', rm_unread = 0\<rparr>]\<rparr>"
  have reach: "srv_reachable compact_json example_parse ?sv"
    by (rule serve_reachable) code_simp
  have h: "1 < length (sv_sessions ?sv)" "ss_pc (sv_sessions ?sv ! 1) = Reading"
    "\<not> sc_closed (ss_out (sv_sessions ?sv ! 1))" "(0, 1) \<in> set (ss_subs (sv_sessions ?sv ! 1))"
    "?room = sv_rooms ?sv ! 0" "takes example_parse (example_line (Subscribe 1)) (Subscribe (tr_id ?room))"
    "example_reader already = None" by code_simp+
  have w: "parse_word (trim (lit ''1'')) = Some (tr_id ?room)"
    "tr_name ?room \<noteq> lit ''Room #'' @ show_word (tr_id ?room)" by code_simp+
  have app: "cmd_tx ?s = Some 0" "\<And>r. r \<in> set (rooms ?s) \<Longrightarrow> rm_name r = tr_name ?room \<Longrightarrow> rm_id r = tr_id ?room"
    by simp_all
  obtain s where s: "unsubscribe_item Release (tr_id ?room) ?s = Inr s"
    using client_step_defined [of Release ?s 0 "UnsubscribeItemClick (tr_id ?room)"] by auto
  obtain s1 t1 where s1: "do_subscribe Release 0 (lit ''1'') s = Inr (s1, t1)"
    using client_step_defined [of Release s 0 "SubscribeClick (lit ''1'')"] by (auto simp: map_sum_fst_Inr)
  obtain s2 where s2: "handle_event Release 0 (FS_Error already) s1 = Inr s2"
    using client_step_defined [of Release s1 0 "Event (FS_Error already)"] by auto
  have none: "room_ids s = []"
    using s by (auto simp: unsubscribe_item_def Let_def remove_room_def add_toast_app split: if_splits)
  note cut = resubscribe_never_receives [where cparse = example_reader and clock' = 0 and m = "lit ''hi''",
      OF reach h(1-7) app w(2) s w(1) s1 s2]
  from cut obtain sv' line where
    line: "srv_exec compact_json example_parse (Line 1 (example_line (Subscribe 1))) ?sv = Some sv'"
      "handle_read example_reader (ReadLine line) = ([FS_Error already], True)"
    and ids: "room_ids s2 = room_ids s @ [tr_id ?room]"
    and drop: "\<forall>is s3. run_client Release is s2 = Inr s3 \<longrightarrow>
      (\<forall>inp\<in>set is. \<not> brings_name (tr_name ?room) (snd inp)) \<longrightarrow>
      handle_event Release 0 (FS_Message (tr_name ?room) (lit ''hi'')) s3 = Inr s3" by blast
  have "handle_event Release 0 (FS_Message (lit ''a'') (lit ''hi'')) s2 = Inr s2"
    using drop [rule_format, of "[]" s2] by simp
  moreover have "room_ids s2 = [1]" using none ids by simp
  ultimately show ?thesis by (intro exI [of _ sv'] exI [of _ line] exI [of _ s2] conjI line)
qed

section \<open>A send that transmits a part\<close>

lemma arrived_last:
  assumes "\<forall>l\<in>set ls. is_line l" "10 \<notin> set x"
  shows "arrived_lines (concat (map as_bytes ls) @ x @ [10]) = map as_bytes ls @ [x @ [10]]"
  using assms(1)
proof (induction ls)
  case Nil
  have "next_line (x @ [10]) = Some (x @ [10], [])"
    using assms(2) by (simp add: next_line_def takeWhile_append dropWhile_append)
  moreover have "arrived_lines [] = []" using arrived_lines_concat [of "[]" "[]"] by simp
  ultimately show ?case by (subst arrived_lines.simps) simp
next
  case (Cons l ls)
  then show ?case by (subst arrived_lines.simps) (simp add: next_line_append)
qed

text \<open>C34: The server relies on a send transmitting everything, which the socket's send does not promise: whenever two lines wait to be written in a session that has not ended, its writer is at work and only a proper part of the first line is sent, the client gets the two glued together as one line, instead of the two it gets from complete sends.\<close>

theorem short_send_garbles:
  assumes "i < length (sv_sessions sv)" "ss_writing (sv_sessions sv ! i)" "ss_pc (sv_sessions sv ! i) \<noteq> Ended"
    and "sc_reader (ss_out (sv_sessions sv ! i)) = Looking"
    and "sc_queue (ss_out (sv_sessions sv ! i)) = l1 # l2 # q" "is_line l1" "is_line l2"
    and "ss_wire (sv_sessions sv ! i) = concat (map as_bytes ls)" "\<forall>l\<in>set ls. is_line l"
    and "n < length (as_bytes l1)"
  shows "\<exists>sv1 sv2. run_schedule (srv_exec pr parse) [WriteOut i (SentPart n), WriteOut i SentAll] sv = Some sv1
    \<and> arrived_lines (ss_wire (sv_sessions sv1 ! i)) = map as_bytes ls @ [take n (as_bytes l1) @ as_bytes l2]
    \<and> run_schedule (srv_exec pr parse) [WriteOut i SentAll, WriteOut i SentAll] sv = Some sv2
    \<and> arrived_lines (ss_wire (sv_sessions sv2 ! i)) = map as_bytes ls @ [as_bytes l1, as_bytes l2]"
proof -
  from assms(6,7) obtain t1 t2 where t: "l1 = t1 @ [10]" "10 \<notin> set t1" "l2 = t2 @ [10]" "10 \<notin> set t2"
    by (auto simp: is_line_def)
  have no: "10 \<notin> set (as_bytes t1)" "10 \<notin> set (as_bytes t2)" using as_bytes_ascii [of 10] t(2,4) by simp_all
  have ten: "utf8_char 10 = [10]" by (simp add: utf8_char_def)
  have "take n (as_bytes l1) = take n (as_bytes t1)" using assms(10) by (simp add: t(1) ten)
  moreover have "10 \<notin> set (take n (as_bytes t1) @ as_bytes t2)" using no by (auto dest: in_set_takeD)
  ultimately have "arrived_lines (concat (map as_bytes ls) @ take n (as_bytes l1) @ as_bytes l2) =
      map as_bytes ls @ [take n (as_bytes l1) @ as_bytes l2]"
    using arrived_last [OF assms(9), of "take n (as_bytes t1) @ as_bytes t2"] by (simp add: t(3) ten)
  moreover have "arrived_lines (concat (map as_bytes ls) @ as_bytes l1 @ as_bytes l2) =
      map as_bytes ls @ [as_bytes l1, as_bytes l2]"
    using arrived_lines_concat [of "ls @ [l1, l2]" "[]"] assms(6,7,9) by auto
  ultimately show ?thesis using assms(1-5,8)
    by (simp add: write_out_def chan_read_def set_session_def Let_def)
qed

text \<open>Two lines that wait, the confirmation of a subscription and a message.\<close>

definition two_lines :: server where
  "two_lines = the (serve (two_members @ [Line 0 (example_line (SendMessage 1 (lit ''hi''))), Forward 1 1]))"

theorem short_send_garbles_witness:
  "\<exists>sv'. run_schedule (srv_exec compact_json example_parse) [WriteOut 1 (SentPart 20), WriteOut 1 SentAll] two_lines = Some sv'
    \<and> map (\<lambda>b. fst (handle_read flat_parse (read_result b))) (arrived_lines (ss_wire (sv_sessions sv' ! 1))) =
        [[FS_Error (take 20 (compact_json (sub_ok_json 1 (lit ''a''))) @ compact_json (relay_json (lit ''hi'') (lit ''a'')))]]"
proof -
  let ?l1 = "compact_json (sub_ok_json 1 (lit ''a'')) @ [10]" and ?l2 = "compact_json (relay_json (lit ''hi'') (lit ''a'')) @ [10]"
  have h: "1 < length (sv_sessions two_lines)" "ss_writing (sv_sessions two_lines ! 1)"
    "ss_pc (sv_sessions two_lines ! 1) \<noteq> Ended" "sc_reader (ss_out (sv_sessions two_lines ! 1)) = Looking"
    "sc_queue (ss_out (sv_sessions two_lines ! 1)) = [?l1, ?l2]"
    "ss_wire (sv_sessions two_lines ! 1) = concat (map as_bytes [])" "20 < length (as_bytes ?l1)" by code_simp+
  have l: "is_line ?l1" "is_line ?l2" "\<forall>l\<in>set []. is_line l"
    by (auto intro!: is_lineI simp: compact_json_no_newline)
  have glued: "map (\<lambda>b. fst (handle_read flat_parse (read_result b))) [take 20 (as_bytes ?l1) @ as_bytes ?l2] =
      [[FS_Error (take 20 (compact_json (sub_ok_json 1 (lit ''a''))) @ compact_json (relay_json (lit ''hi'') (lit ''a'')))]]"
    by code_simp
  from short_send_garbles [OF h(1-5) l(1,2) h(6) l(3) h(7), of compact_json example_parse] obtain sv1 where
    "run_schedule (srv_exec compact_json example_parse) [WriteOut 1 (SentPart 20), WriteOut 1 SentAll] two_lines = Some sv1"
    "arrived_lines (ss_wire (sv_sessions sv1 ! 1)) = [take 20 (as_bytes ?l1) @ as_bytes ?l2]" by (simp del: as_bytes_simps) blast
  with glued show ?thesis by metis
qed

end
