(* ===== verification/Spec2Isabelle.thy ===== *)
theory Spec2Isabelle
  imports Helper_Properties Network_Properties Conn_Properties Client_Hazards System_Guarantees
    Screen Server_Guarantees Net_Guarantees Net_Hazards
begin

text \<open>
  \<^bold>\<open>The program.\<close> A chat over TCP with newline-delimited JSON: a desktop client (Rust, \<open>ui/src\<close>) and
  a server (C++, \<open>server/src\<close>). The client has a user interface whose state is a set of signals
  (\<open>main.rs\<close>, \<open>components/\<close>), and per connection a task with a reader of its own (\<open>network.rs\<close>).
  The interface puts commands into a bounded channel through spawned sends; the task prints them
  to the socket, its reader parses the lines of the server and both report events through a
  second bounded channel, which a poller of the interface takes one at a time. The server gives
  every client a session that reads its requests, a writer, and one listener for each room the
  client has joined; a message goes from its sender through the channels of the other members
  and their listeners to their writers.

  \<^bold>\<open>Theories and sources.\<close>
  \<^item> \<open>Prelude\<close>, \<open>Rust_Std\<close>: shared lemmas; strings as lists of characters, \<open>trim\<close>, \<open>split\<close>, parsing
    and showing of numbers, checked and wrapping addition (the profile: Debug panics, Release
    wraps), \<open>run_schedule\<close> and runs of a machine.
  \<^item> \<open>Json\<close>, \<open>Chat_Types\<close>: JSON values and a compact printer for examples; the types of \<open>types.rs\<close>
    with the derived reading of \<open>ServerIncoming\<close>.
  \<^item> \<open>Helpers\<close>: \<open>helpers.rs\<close> (avatar color, initials, clock, toasts).
  \<^item> \<open>Network\<close>: \<open>network.rs\<close>, the classification of a message and the two loops as functions of
    what the socket gives. \<open>Conn_Task\<close>: \<open>tcp_connection_task\<close> as a step relation, main and reader
    interleaved; \<open>Conn_Exec\<close> the same steps as an executable function and their agreement.
    \<open>Channels\<close>: the channel library as a record of operations with the laws a bounded FIFO has, and
    a list instance.
  \<^item> \<open>App_State\<close>: the signals and the event poller of \<open>main.rs\<close>. \<open>Sidebar\<close>, \<open>Chat_Panel\<close>,
    \<open>Connect_Screen\<close>: the handlers of \<open>components/sidebar.rs\<close>, \<open>chat.rs\<close>, \<open>connect_screen.rs\<close>.
    \<open>Client_Machine\<close>: every input of the interface in one function.
  \<^item> \<open>Vdom\<close>, \<open>Views\<close>: the markup of every component (\<open>toast.rs\<close> included) as a tree of elements with
    texts, keys and the inputs of its handlers. \<open>Screen\<close>: a user who presses what is on the screen.
  \<^item> \<open>System\<close>: the client with its spawned sends, its channels and any number of connections.
  \<^item> \<open>Server_Wire\<close>, \<open>Server\<close>: \<open>channel.hpp\<close>, \<open>tcp_chat_room.hpp\<close> and the sessions of \<open>server.cpp\<close>,
    with a step for every critical section, from the accept loop to the sends of the writers. A
    channel has a reader that looks, is about to wait or is asleep; a member of a room is a weak
    pointer that expires with its last owner; a send after the end of its session is noted as the
    use of a destroyed socket.
  \<^item> \<open>Bytes\<close>: the decoding of UTF-8 and lines in a stream of bytes. \<open>Flat_Json\<close>: a parser for what the
    two programs print, with its round trip. \<open>Wire_Format\<close>: what the two have to agree on, as a
    locale, interpreted on that parser and the compact printer.
  \<^item> \<open>Chat_Net\<close>: the server and any number of clients on one network, each stream of bytes between
    them read line by line at any speed and cut at any moment.

  \<^bold>\<open>What the lemmas show.\<close>
  \<^item> \<open>Helper_Properties\<close>, \<open>Network_Properties\<close>: the helpers; the framing of commands as one line
    each; the client reads what the server prints; how each loop ends.
  \<^item> \<open>Conn_Properties\<close>: for every interleaving of the task and its reader, and every channel that
    keeps the laws (locale \<open>conn_runtime\<close>, interpreted on the list channel): the bytes written are
    the commands in order, the events come out in order, the first report is the result of the
    connect, the last one is the end.
  \<^item> \<open>Client_Invariants\<close>, \<open>Room_View\<close>, \<open>Client_Properties\<close>: the session invariant (room identifiers
    distinct, messages and selection refer to rooms) under the assumption that a confirmed
    identifier is new, what holds without it, and an abstract map of rooms (name, unread, log)
    that the handlers refine. The assumption is \<open>ids_kept_apart\<close>: along the run, no creation is
    confirmed under the identifier of another room, and no build without overflow checks makes a
    room while one has the largest identifier. \<open>Client_Hazards\<close>: what happens without it.
  \<^item> \<open>System_Invariants\<close>, \<open>System_Flow\<close>, \<open>System_Properties\<close>, \<open>System_Guarantees\<close>: the status shown is
    that of the current connection, commands and events are neither lost nor doubled, a
    connection that has ended reaches the screen.
  \<^item> \<open>View_Properties\<close>, \<open>Screen\<close>: the screen offers exactly the inputs the machine expects, shows the
    rooms and the log, and gives siblings different keys; sessions of users are runs of the machine.
  \<^item> \<open>Server_Properties\<close>, \<open>Server_Flow\<close>, \<open>Server_Guarantees\<close>: the invariant of the server (identifiers
    count the rooms, a session's channels are members of their rooms and nobody else's, a channel
    without an owner has been closed); what is said to a member goes through its channel without
    loss and in order; creating, joining and sending from the client's line to the event the other
    client reads; a wake-up that is lost; the end of a session.
  \<^item> \<open>Net_Client\<close>, \<open>Net_Server\<close>: what each end adds to its streams, and that it adds whole lines of
    the format. \<open>Net_Invariants\<close>: the invariant of the network (locale \<open>chat_net\<close>, which extends
    \<open>wire_format\<close> and \<open>conn_runtime\<close>). \<open>Server_Counts\<close>, \<open>Net_Counts\<close>: the same with multiplicity, a
    balance of what is on the way to a client against the requests read from the others.
    \<open>Net_Guarantees\<close>: messages shown were sent by the other users, no more often than they sent
    them; rooms confirmed exist; every line is understood; members stay in their rooms, expired or
    not; a run of two clients and the server. \<open>Net_Hazards\<close>: when the two fail each
    other, a message before its confirmation, a room joined again, a send of a part of a line.

  \<^bold>\<open>Bounds.\<close> The channels hold 64 commands and 256 events, as in \<open>connect_screen.rs\<close>. Identifiers
  are words of 64 bits; a statement about the server that needs different rooms to have different
  identifiers assumes fewer than 2 to the 64 rooms. No definition uses fuel: loops run over the
  finite list of what the socket or the channel gives.

  \<^bold>\<open>Parameters.\<close> The JSON parsers and printers, the table of upper case, the clock, the channel
  library, the build profile and the style sheet are arguments; statements that need a property of
  one of them name it as a hypothesis.

  \<^bold>\<open>The network.\<close> Bytes arrive complete and in order, as TCP promises, until a connection ends.
  The statements over a whole network have the server's sends transmit a line at once; the server
  itself also has partial and failing sends, and \<open>short_send_garbles\<close> shows what they do. A
  writer that uses the socket after \<open>tcp_accept\<close> has returned is stopped by the model
  (\<open>ss_dangling\<close>): what the program does from there has no defined meaning, and the statements over
  runs that go on describe the other sessions.

  \<^bold>\<open>Not modelled.\<close> The framework that renders the tree and schedules its tasks, the launch in \<open>main\<close>,
  logging, the opening of sockets and the threads of the server (\<open>serve\<close>; the steps interleave
  freely, which covers any number of threads), the derived printing of \<open>ServerIncoming\<close>, which is
  never called, and the UDP server, whose functions are empty.
\<close>

end
